(* ===== verification/Prelude.thy ===== *)
theory Prelude
  imports Main "HOL-Library.Word" "HOL-Library.Signed_Division"
begin

text \<open>
  The vocabulary every component of the development shares: how a kernel routine
  ends (a value, a panic, an invalid memory access, a spin or a sleep that is never
  left), the sequencing of routines that may end early, C's integer operations, and
  the generic lemmas on lists and index ranges the component proofs rest on.
\<close>

unbundle bit_operations_syntax

section \<open>Collections\<close>

named_theorems seq_simps \<open>rewriting of sequenced routines\<close>
named_theorems frames \<open>what an operation leaves unchanged\<close>
named_theorems lock_simps \<open>taking and giving back an uncontended spin lock\<close>

section \<open>C integers\<close>

type_synonym uint = "32 word"
type_synonym ushort = "16 word"
type_synonym uchar = "8 word"

text \<open>The operator \<open>%\<close> of C on two \<open>int\<close>s truncates towards zero.\<close>

lemma smod_nonneg: "0 \<le> (a::int) \<Longrightarrow> 0 < b \<Longrightarrow> a smod b = a mod b"
  by (cases "a = 0") (simp_all add: smod_int_alt_def)

lemma smod_neg_one: "1 < (b::int) \<Longrightarrow> - 1 smod b = - 1"
  by (simp add: smod_int_alt_def)

section \<open>How a routine ends\<close>

text \<open>
  A routine of the kernel returns, or it does not: it calls \<open>panic\<close> with a message,
  it follows a pointer or an index that leads outside the object it belongs to
  (\<open>Fault\<close>, with the expression that does), it spins on a lock that another CPU holds
  and does not give back or runs in a loop that does not end (\<open>Spin\<close>), or it enters the scheduler and is not resumed
  within the number of context switches the run is given (\<open>Parked\<close>).
\<close>

datatype halt = Panic string | Fault string | Spin | Parked

type_synonym 'a result = "halt + 'a"

definition bnd :: "'e + 'a \<Rightarrow> ('a \<Rightarrow> 'e + 'b) \<Rightarrow> 'e + 'b" where
  "bnd m f = (case m of Inl e \<Rightarrow> Inl e | Inr x \<Rightarrow> f x)"

lemma bnd_Inr [simp, seq_simps]: "bnd (Inr x) f = f x"
  by (simp add: bnd_def)

lemma bnd_Inl [simp, seq_simps]: "bnd (Inl e) f = Inl e"
  by (simp add: bnd_def)

lemma bnd_assoc [seq_simps]: "bnd (bnd m f) g = bnd m (\<lambda>x. bnd (f x) g)"
  by (cases m) simp_all

lemma bnd_eq_Inr: "bnd m f = Inr y \<longleftrightarrow> (\<exists>x. m = Inr x \<and> f x = Inr y)"
  by (cases m) auto

lemma bnd_eq_Inl: "bnd m f = Inl e \<longleftrightarrow> m = Inl e \<or> (\<exists>x. m = Inr x \<and> f x = Inl e)"
  by (cases m) auto

lemma bnd_cong [cong, fundef_cong]:
  "m = m' \<Longrightarrow> (\<And>x. m' = Inr x \<Longrightarrow> f x = f' x) \<Longrightarrow> bnd m f = bnd m' f'"
  by (cases m') simp_all

lemma bnd_return [simp]: "bnd m Inr = m"
  by (cases m) simp_all

lemma bnd_elim:
  assumes "bnd m f = Inr y"
  obtains x where "m = Inr x" and "f x = Inr y"
  using assms by (auto simp: bnd_eq_Inr)

section \<open>Loops over an index range\<close>

text \<open>
  A loop \<open>for (i = ...)\<close> whose body changes the state and may end the routine is a
  recursion over the list of the indices it visits.
\<close>

fun for_each :: "('i \<Rightarrow> 's \<Rightarrow> 'e + 's) \<Rightarrow> 'i list \<Rightarrow> 's \<Rightarrow> 'e + 's" where
  "for_each f [] s = Inr s"
| "for_each f (i # is) s = bnd (f i s) (for_each f is)"

lemma for_each_append: "for_each f (xs @ ys) s = bnd (for_each f xs s) (for_each f ys)"
  by (induction xs arbitrary: s) (simp_all add: bnd_assoc)

lemma for_each_inv:
  assumes "for_each f xs s = Inr t" and "P s"
    and "\<And>i u v. i \<in> set xs \<Longrightarrow> P u \<Longrightarrow> f i u = Inr v \<Longrightarrow> P v"
  shows "P t"
  using assms
proof (induction xs arbitrary: s)
  case Nil
  then show ?case by simp
next
  case (Cons x xs)
  from Cons.prems(1) obtain u where u: "f x s = Inr u" "for_each f xs u = Inr t"
    by (auto simp: bnd_eq_Inr)
  with Cons.prems(2,3) have "P u" by auto
  with u(2) show ?case by (rule Cons.IH) (use Cons.prems(3) in auto)
qed

lemma for_each_pure:
  "(\<And>i s. i \<in> set xs \<Longrightarrow> f i s = Inr (g i s)) \<Longrightarrow> for_each f xs s = Inr (fold g xs s)"
  by (induction xs arbitrary: s) simp_all

lemma for_each_skip: "(\<And>i. i \<in> set xs \<Longrightarrow> f i s = Inr s) \<Longrightarrow> for_each f xs s = Inr s"
  by (induction xs) simp_all

lemma upt_split: "i < n \<Longrightarrow> [0..<n] = [0..<i] @ i # [Suc i..<n]"
  by (metis less_imp_le_nat upt_add_eq_append upt_conv_Cons zero_le le_add_diff_inverse)

lemma for_each_one:
  assumes "i < n" "\<And>j. j < i \<Longrightarrow> f j s = Inr s" "f i s = Inr t" "\<And>j. i < j \<Longrightarrow> j < n \<Longrightarrow> f j t = Inr t"
  shows "for_each f [0..<n] s = Inr t"
proof -
  have "for_each f [0..<i] s = Inr s" "for_each f [Suc i..<n] t = Inr t"
    by (rule for_each_skip; use assms(2,4) in simp)+
  then show ?thesis using assms(3) by (simp add: upt_split [OF assms(1)] for_each_append)
qed

text \<open>The first index that satisfies a condition, as a scan that stops there finds it.\<close>

lemma find_upt_Some:
  "find P [0..<n] = Some i \<longleftrightarrow> i < n \<and> P i \<and> (\<forall>j<i. \<not> P j)"
proof
  assume "find P [0..<n] = Some i"
  then obtain k where "k < length [0..<n]" "P ([0..<n] ! k)" "i = [0..<n] ! k"
    "\<forall>j<k. \<not> P ([0..<n] ! j)"
    by (auto simp: find_Some_iff)
  then show "i < n \<and> P i \<and> (\<forall>j<i. \<not> P j)" by auto
next
  assume "i < n \<and> P i \<and> (\<forall>j<i. \<not> P j)"
  then show "find P [0..<n] = Some i"
    by (auto simp: find_Some_iff intro!: exI [of _ i])
qed

lemma find_upt_None: "find P [0..<n] = None \<longleftrightarrow> (\<forall>i<n. \<not> P i)"
  by (auto simp: find_None_iff)

section \<open>Arrays used as shifting queues\<close>

text \<open>
  The wait queue and the condition-variable queues of the kernel are arrays of process
  pointers that are filled from the front, and whose head is removed by moving every
  later entry down by one. An array of \<open>n\<close> entries is a function of the index; an entry
  is \<open>None\<close> for the null pointer.
\<close>

type_synonym 'a slots = "nat \<Rightarrow> 'a option"

definition shift_left :: "nat \<Rightarrow> nat \<Rightarrow> 'a slots \<Rightarrow> 'a slots" where
  "shift_left n j q = (\<lambda>k. if j \<le> k \<and> k + 1 < n then q (k + 1) else if k + 1 = n then None else q k)"

text \<open>The first entry that already is \<open>x\<close> or is free, as the scan for a place finds it.\<close>

definition place_for :: "nat \<Rightarrow> 'a \<Rightarrow> 'a slots \<Rightarrow> nat option" where
  "place_for n x q = find (\<lambda>i. q i = Some x \<or> q i = None) [0..<n]"

text \<open>The queue an array holds: its entries up to the first null pointer.\<close>

fun slots_list :: "nat \<Rightarrow> 'a slots \<Rightarrow> 'a list" where
  "slots_list 0 q = []"
| "slots_list (Suc n) q = (case q 0 of None \<Rightarrow> [] | Some x \<Rightarrow> x # slots_list n (\<lambda>k. q (Suc k)))"

text \<open>No entry follows a null pointer: the array is a queue packed at the front.\<close>

definition packed :: "nat \<Rightarrow> 'a slots \<Rightarrow> bool" where
  "packed n q \<longleftrightarrow> (\<forall>i j. i \<le> j \<and> j < n \<and> q i = None \<longrightarrow> q j = None)"

lemma packed_Suc: "packed (Suc n) q \<Longrightarrow> packed n (\<lambda>k. q (Suc k))"
  unfolding packed_def by (metis Suc_le_mono Suc_less_eq)

lemma slots_list_empty: "0 < n \<Longrightarrow> slots_list n q = [] \<longleftrightarrow> q 0 = None"
  by (cases n) (auto split: option.splits)

lemma slots_list_length_le: "length (slots_list n q) \<le> n"
  by (induction n arbitrary: q) (auto split: option.splits)

lemma slots_list_nth:
  "packed n q \<Longrightarrow> i < n \<Longrightarrow>
     q i = (if i < length (slots_list n q) then Some (slots_list n q ! i) else None)"
proof (induction n arbitrary: q i)
  case 0
  then show ?case by simp
next
  case (Suc n)
  show ?case
  proof (cases "q 0")
    case None
    with Suc.prems show ?thesis unfolding packed_def by auto
  next
    case (Some x)
    show ?thesis
    proof (cases i)
      case 0
      with Some show ?thesis by simp
    next
      case (Suc k)
      with Suc.prems have "k < n" by simp
      with Suc.IH [OF packed_Suc [OF Suc.prems(1)]] Suc Some show ?thesis by simp
    qed
  qed
qed

lemma slots_list_eqI:
  assumes "length xs \<le> n" and "\<And>i. i < length xs \<Longrightarrow> q i = Some (xs ! i)"
    and "length xs < n \<Longrightarrow> q (length xs) = None"
  shows "slots_list n q = xs"
  using assms
proof (induction n arbitrary: q xs)
  case 0
  then show ?case by simp
next
  case (Suc n)
  show ?case
  proof (cases xs)
    case Nil
    with Suc.prems(3) show ?thesis by simp
  next
    case (Cons y ys)
    have "slots_list n (\<lambda>k. q (Suc k)) = ys"
    proof (rule Suc.IH)
      show "length ys \<le> n" using Suc.prems(1) Cons by simp
      show "q (Suc i) = Some (ys ! i)" if "i < length ys" for i
        using Suc.prems(2) [of "Suc i"] Cons that by simp
      show "q (Suc (length ys)) = None" if "length ys < n"
        using Suc.prems(3) Cons that by simp
    qed
    moreover have "q 0 = Some y" using Suc.prems(2) [of 0] Cons by simp
    ultimately show ?thesis using Cons by simp
  qed
qed

lemma packed_shift_left: "packed n q \<Longrightarrow> packed n (shift_left n j q)"
  unfolding packed_def
proof (intro allI impI)
  fix a b
  assume p: "\<forall>i j. i \<le> j \<and> j < n \<and> q i = None \<longrightarrow> q j = None"
    and ab: "a \<le> b \<and> b < n \<and> shift_left n j q a = None"
  show "shift_left n j q b = None"
  proof (cases "b + 1 = n")
    case True
    then show ?thesis by (simp add: shift_left_def)
  next
    case False
    with ab have b: "b + 1 < n" by simp
    have "q a = None \<or> j \<le> a \<and> q (a + 1) = None"
      using ab b by (auto simp: shift_left_def split: if_splits)
    then show ?thesis
    proof
      assume "q a = None"
      have "q b = None" using p ab \<open>q a = None\<close> by blast
      moreover have "q (b + 1) = None"
        using p b ab \<open>q a = None\<close> by (metis le_add1 le_trans)
      ultimately show ?thesis using b by (simp add: shift_left_def)
    next
      assume *: "j \<le> a \<and> q (a + 1) = None"
      have "q (b + 1) = None" using p b ab * by (metis add_le_mono1)
      moreover have "j \<le> b" using * ab by simp
      ultimately show ?thesis using b by (simp add: shift_left_def)
    qed
  qed
qed

lemma slots_list_shift_left:
  assumes "packed n q"
  shows "slots_list n (shift_left n 0 q) = tl (slots_list n q)"
proof (cases "slots_list n q")
  case Nil
  then have "n = 0 \<or> q 0 = None" using slots_list_empty [of n q] by (cases n) simp_all
  then show ?thesis
  proof
    assume "n = 0"
    then show ?thesis by simp
  next
    assume q0: "q 0 = None"
    have "shift_left n 0 q 0 = None"
      using assms q0 unfolding packed_def by (auto simp: shift_left_def)
    then have "slots_list n (shift_left n 0 q) = []" by (cases n) simp_all
    with Nil show ?thesis by simp
  qed
next
  case (Cons x xs)
  have len: "length xs < n" using slots_list_length_le [of n q] Cons by simp
  have nth: "i < n \<Longrightarrow> q i = (if i < Suc (length xs) then Some ((x # xs) ! i) else None)" for i
    using slots_list_nth [OF assms] Cons by simp
  have "slots_list n (shift_left n 0 q) = xs"
  proof (rule slots_list_eqI)
    show "length xs \<le> n" using len by simp
    show "shift_left n 0 q i = Some (xs ! i)" if "i < length xs" for i
      using that len nth [of "Suc i"] by (simp add: shift_left_def)
    show "shift_left n 0 q (length xs) = None" if "length xs < n"
      using that nth [of "Suc (length xs)"] by (auto simp: shift_left_def)
  qed
  with Cons show ?thesis by simp
qed

lemma length_takeWhile_less': "x \<in> set xs \<Longrightarrow> length (takeWhile (\<lambda>y. y \<noteq> x) xs) < length xs"
  by (induction xs) auto

lemma place_for_spec:
  assumes "packed n q"
  shows "place_for n x q =
    (if x \<in> set (slots_list n q) then Some (length (takeWhile (\<lambda>y. y \<noteq> x) (slots_list n q)))
     else if length (slots_list n q) < n then Some (length (slots_list n q)) else None)"
    (is "_ = ?r")
proof -
  let ?xs = "slots_list n q"
  have nth: "i < n \<Longrightarrow> q i = (if i < length ?xs then Some (?xs ! i) else None)" for i
    by (rule slots_list_nth [OF assms])
  have le: "length ?xs \<le> n" by (rule slots_list_length_le)
  show ?thesis
  proof (cases "x \<in> set ?xs")
    case True
    let ?k = "length (takeWhile (\<lambda>y. y \<noteq> x) ?xs)"
    have k: "?k < length ?xs" using True by (rule length_takeWhile_less')
    have hit: "?xs ! ?k = x" using nth_length_takeWhile [OF k] by simp
    have miss: "?xs ! j \<noteq> x" if "j < ?k" for j
      using that set_takeWhileD [of "?xs ! j" "\<lambda>y. y \<noteq> x" ?xs]
      by (simp add: takeWhile_nth [symmetric] del: takeWhile_nth)
    have "find (\<lambda>i. q i = Some x \<or> q i = None) [0..<n] = Some ?k"
      unfolding find_upt_Some using k le hit miss nth by auto
    with True show ?thesis by (simp add: place_for_def)
  next
    case False
    then have out: "j < length ?xs \<Longrightarrow> ?xs ! j \<noteq> x" for j by (metis nth_mem)
    show ?thesis
    proof (cases "length ?xs < n")
      case True
      have "find (\<lambda>i. q i = Some x \<or> q i = None) [0..<n] = Some (length ?xs)"
        unfolding find_upt_Some using True out nth by auto
      with False True show ?thesis by (simp add: place_for_def)
    next
      case full: False
      have "find (\<lambda>i. q i = Some x \<or> q i = None) [0..<n] = None"
        unfolding find_upt_None using full le out nth by auto
      with False full show ?thesis by (simp add: place_for_def)
    qed
  qed
qed

lemma slots_list_put:
  assumes "packed n q" and "length (slots_list n q) < n"
  shows "slots_list n (q(length (slots_list n q) := Some x)) = slots_list n q @ [x]"
    and "packed n (q(length (slots_list n q) := Some x))"
proof -
  let ?xs = "slots_list n q"
  have nth: "i < n \<Longrightarrow> q i = (if i < length ?xs then Some (?xs ! i) else None)" for i
    by (rule slots_list_nth [OF assms(1)])
  show "slots_list n (q(length ?xs := Some x)) = ?xs @ [x]"
    by (rule slots_list_eqI) (use assms(2) nth in \<open>auto simp: nth_append\<close>)
  show "packed n (q(length ?xs := Some x))"
    unfolding packed_def using nth by (auto split: if_splits)
qed

end
