(* ===== verification/Spinlock.thy ===== *)
theory Spinlock
  imports Prelude
begin

text \<open>
  The CPUs of the machine and the spin locks of \<open>spinlock.c\<close>, with the routines of
  \<open>proc.c\<close> that find the executing CPU and its process. A lock is named by the object
  it sits in; the state keeps one \<open>struct spinlock\<close> per name. The field \<open>pcs\<close> of a
  lock and the calls of \<open>getcallerpcs\<close> that fill it serve debugging output only and are
  left out. The last section is the race for one lock on several CPUs: a step relation
  over the atomic \<open>xchg\<close>, with mutual exclusion.
\<close>

section \<open>State\<close>

text \<open>The objects that own a sleep lock: a buffer or an inode of the caches.\<close>

datatype sleepid = BufLock nat | InodeLock nat

datatype lockid =
    PtableLock | MutexesLock | WqueueLock | KmemLock | BcacheLock | LogLock
  | IcacheLock | FtableLock | TicksLock | ConsLock | IdeLock
  | SleepLk sleepid | PipeLk uint

record spinlock =
  locked :: uint
  lkname :: string
  lkcpu :: "nat option"

record cpu =
  apicid :: nat
  ncli :: int
  intena :: bool
  cproc :: "nat option"

text \<open>
  \<open>lapicid\<close> and \<open>int_flag\<close> are hardware state of the executing CPU: its local APIC id
  and the interrupt-enable bit of its flags register. \<open>switches\<close> bounds the run: it is
  the number of times the executing thread of control is still resumed after it enters
  the scheduler.
\<close>

record machine =
  cpus :: "nat \<Rightarrow> cpu"
  ncpu :: nat
  lapicid :: nat
  int_flag :: bool
  locks :: "lockid \<Rightarrow> spinlock"
  switches :: nat

definition set_cpu :: "nat \<Rightarrow> cpu \<Rightarrow> 'z machine_scheme \<Rightarrow> 'z machine_scheme" where
  "set_cpu c v s = s\<lparr>cpus := (cpus s)(c := v)\<rparr>"

definition set_lock :: "lockid \<Rightarrow> spinlock \<Rightarrow> 'z machine_scheme \<Rightarrow> 'z machine_scheme" where
  "set_lock l v s = s\<lparr>locks := (locks s)(l := v)\<rparr>"

section \<open>The executing CPU\<close>

definition mycpu :: "'z machine_scheme \<Rightarrow> nat result" where
  "mycpu s =
     (if int_flag s then Inl (Panic ''mycpu called with interrupts enabled'')
      else case find (\<lambda>i. apicid (cpus s i) = lapicid s) [0..<ncpu s] of
             Some i \<Rightarrow> Inr i
           | None \<Rightarrow> Inl (Panic ''unknown apicid''))"

definition cpuid :: "'z machine_scheme \<Rightarrow> nat result" where
  "cpuid s = mycpu s"

definition cli :: "'z machine_scheme \<Rightarrow> 'z machine_scheme" where
  "cli s = s\<lparr>int_flag := False\<rparr>"

definition sti :: "'z machine_scheme \<Rightarrow> 'z machine_scheme" where
  "sti s = s\<lparr>int_flag := True\<rparr>"

definition pushcli :: "'z machine_scheme \<Rightarrow> 'z machine_scheme result" where
  "pushcli s =
     (let eflags = int_flag s; s = cli s in
      bnd (mycpu s) (\<lambda>c.
      let s = (if ncli (cpus s c) = 0 then set_cpu c ((cpus s c)\<lparr>intena := eflags\<rparr>) s else s) in
      Inr (set_cpu c ((cpus s c)\<lparr>ncli := ncli (cpus s c) + 1\<rparr>) s)))"

definition popcli :: "'z machine_scheme \<Rightarrow> 'z machine_scheme result" where
  "popcli s =
     (if int_flag s then Inl (Panic ''popcli - interruptible'')
      else bnd (mycpu s) (\<lambda>c.
      let s = set_cpu c ((cpus s c)\<lparr>ncli := ncli (cpus s c) - 1\<rparr>) s in
      if ncli (cpus s c) < 0 then Inl (Panic ''popcli'')
      else if ncli (cpus s c) = 0 \<and> intena (cpus s c) then Inr (sti s) else Inr s))"

definition myproc :: "'z machine_scheme \<Rightarrow> (nat option \<times> 'z machine_scheme) result" where
  "myproc s =
     bnd (pushcli s) (\<lambda>s.
     bnd (mycpu s) (\<lambda>c.
     let p = cproc (cpus s c) in
     bnd (popcli s) (\<lambda>s. Inr (p, s))))"

section \<open>Locks\<close>

definition initlock :: "lockid \<Rightarrow> string \<Rightarrow> 'z machine_scheme \<Rightarrow> 'z machine_scheme" where
  "initlock l nm s = set_lock l \<lparr>locked = 0, lkname = nm, lkcpu = None\<rparr> s"

text \<open>The second operand of \<open>&&\<close> is evaluated only when the first holds.\<close>

definition holding :: "lockid \<Rightarrow> 'z machine_scheme \<Rightarrow> bool result" where
  "holding l s =
     (if locked (locks s l) = 0 then Inr False
      else bnd (mycpu s) (\<lambda>c. Inr (lkcpu (locks s l) = Some c)))"

definition xchg :: "uint \<Rightarrow> uint \<Rightarrow> uint \<times> uint" where
  "xchg mem newval = (mem, newval)"

text \<open>
  The loop on \<open>xchg\<close> is left at once when the lock is free. When another CPU has it,
  interrupts are off here and nothing this CPU does frees it: the run ends spinning.
\<close>

definition acquire :: "lockid \<Rightarrow> 'z machine_scheme \<Rightarrow> 'z machine_scheme result" where
  "acquire l s =
     bnd (pushcli s) (\<lambda>s.
     bnd (holding l s) (\<lambda>h.
     if h then Inl (Panic ''acquire'')
     else let (old, new) = xchg (locked (locks s l)) 1; s = set_lock l ((locks s l)\<lparr>locked := new\<rparr>) s in
          if old \<noteq> 0 then Inl Spin
          else bnd (mycpu s) (\<lambda>c. Inr (set_lock l ((locks s l)\<lparr>lkcpu := Some c\<rparr>) s))))"

definition release :: "lockid \<Rightarrow> 'z machine_scheme \<Rightarrow> 'z machine_scheme result" where
  "release l s =
     bnd (holding l s) (\<lambda>h.
     if \<not> h then Inl (Panic ''release'')
     else let s = set_lock l ((locks s l)\<lparr>lkcpu := None\<rparr>) s;
              s = set_lock l ((locks s l)\<lparr>locked := 0\<rparr>) s in
          popcli s)"

section \<open>Uncontended locks\<close>

text \<open>
  A free lock is taken and given back without a panic and without waiting. The two
  functions below are the states \<open>acquire\<close> and \<open>release\<close> then return; the lemmas that
  follow evaluate a critical section from the outside, so that a proof about a routine
  does not open the lock code again.
\<close>

definition this_cpu :: "'z machine_scheme \<Rightarrow> nat option" where
  "this_cpu s = find (\<lambda>i. apicid (cpus s i) = lapicid s) [0..<ncpu s]"

text \<open>
  CPU \<open>c\<close> executes: inside \<open>ncli\<close> nested critical sections with interrupts off, or
  outside all of them with interrupts on, as in a system call (the gate of
  \<open>T_SYSCALL\<close> is a trap gate, which leaves interrupts on).
\<close>

definition cpu_ok :: "nat \<Rightarrow> 'z machine_scheme \<Rightarrow> bool" where
  "cpu_ok c s \<longleftrightarrow> this_cpu s = Some c \<and> 0 \<le> ncli (cpus s c)
     \<and> int_flag s = (ncli (cpus s c) = 0) \<and> (int_flag s \<longrightarrow> intena (cpus s c))"

definition depth :: "nat \<Rightarrow> 'z machine_scheme \<Rightarrow> int" where
  "depth c s = ncli (cpus s c)"

definition free_lock :: "lockid \<Rightarrow> 'z machine_scheme \<Rightarrow> bool" where
  "free_lock l s \<longleftrightarrow> locked (locks s l) = 0 \<and> lkcpu (locks s l) = None"

definition holds_lock :: "nat \<Rightarrow> lockid \<Rightarrow> 'z machine_scheme \<Rightarrow> bool" where
  "holds_lock c l s \<longleftrightarrow> locked (locks s l) = 1 \<and> lkcpu (locks s l) = Some c"

definition locked_by :: "nat \<Rightarrow> lockid \<Rightarrow> 'z machine_scheme \<Rightarrow> 'z machine_scheme" where
  "locked_by c l s = s\<lparr>int_flag := False,
     cpus := (cpus s)(c := (cpus s c)\<lparr>
                 intena := (if ncli (cpus s c) = 0 then int_flag s else intena (cpus s c)),
                 ncli := ncli (cpus s c) + 1\<rparr>),
     locks := (locks s)(l := (locks s l)\<lparr>locked := 1, lkcpu := Some c\<rparr>)\<rparr>"

definition unlocked_by :: "nat \<Rightarrow> lockid \<Rightarrow> 'z machine_scheme \<Rightarrow> 'z machine_scheme" where
  "unlocked_by c l s = s\<lparr>
     int_flag := (if ncli (cpus s c) = 1 \<and> intena (cpus s c) then True else int_flag s),
     cpus := (cpus s)(c := (cpus s c)\<lparr>ncli := ncli (cpus s c) - 1\<rparr>),
     locks := (locks s)(l := (locks s l)\<lparr>lkcpu := None, locked := 0\<rparr>)\<rparr>"

lemma this_cpu_cong:
  "ncpu t = ncpu s \<Longrightarrow> lapicid t = lapicid s \<Longrightarrow> (\<And>i. apicid (cpus t i) = apicid (cpus s i)) \<Longrightarrow>
   this_cpu t = this_cpu s"
  by (simp add: this_cpu_def)

lemma mycpu_this: "this_cpu s = Some c \<Longrightarrow> \<not> int_flag s \<Longrightarrow> mycpu s = Inr c"
  by (simp add: mycpu_def this_cpu_def)

lemma this_cpu_simps [simp]:
  "this_cpu (cli s) = this_cpu s" "this_cpu (sti s) = this_cpu s"
  "this_cpu (set_lock l k s) = this_cpu s" "this_cpu (s\<lparr>locks := ls\<rparr>) = this_cpu s"
  "this_cpu (s\<lparr>int_flag := b\<rparr>) = this_cpu s" "this_cpu (s\<lparr>switches := w\<rparr>) = this_cpu s"
  "this_cpu (locked_by c l s) = this_cpu s" "this_cpu (unlocked_by c l s) = this_cpu s"
  by (rule this_cpu_cong; simp add: cli_def sti_def set_lock_def locked_by_def unlocked_by_def)+

lemma this_cpu_set_cpu [simp]:
  "apicid v = apicid (cpus s c) \<Longrightarrow> this_cpu (set_cpu c v s) = this_cpu s"
  "apicid v = apicid (cpus s c) \<Longrightarrow> this_cpu (s\<lparr>cpus := (cpus s)(c := v)\<rparr>) = this_cpu s"
  by (rule this_cpu_cong; simp add: set_cpu_def)+

lemma int_flag_simps [simp]:
  "int_flag (cli s) = False" "int_flag (sti s) = True"
  "int_flag (set_lock l k s) = int_flag s" "int_flag (set_cpu c v s) = int_flag s"
  by (simp_all add: cli_def sti_def set_lock_def set_cpu_def)

lemma pushcli_eq:
  assumes "this_cpu s = Some c"
  shows "pushcli s = Inr (s\<lparr>int_flag := False,
     cpus := (cpus s)(c := (cpus s c)\<lparr>
                 intena := (if ncli (cpus s c) = 0 then int_flag s else intena (cpus s c)),
                 ncli := ncli (cpus s c) + 1\<rparr>)\<rparr>)"
proof -
  have "mycpu (cli s) = Inr c" by (rule mycpu_this) (simp_all add: assms)
  then show ?thesis by (simp add: pushcli_def cli_def set_cpu_def Let_def)
qed

lemma popcli_eq:
  assumes "this_cpu s = Some c" "\<not> int_flag s" "0 < ncli (cpus s c)"
  shows "popcli s = Inr (s\<lparr>
     int_flag := (if ncli (cpus s c) = 1 \<and> intena (cpus s c) then True else int_flag s),
     cpus := (cpus s)(c := (cpus s c)\<lparr>ncli := ncli (cpus s c) - 1\<rparr>)\<rparr>)"
proof -
  have "mycpu s = Inr c" by (rule mycpu_this) (use assms in simp_all)
  with assms show ?thesis by (auto simp: popcli_def sti_def set_cpu_def Let_def)
qed

lemma acquire_free [lock_simps]:
  assumes "cpu_ok c s" and "free_lock l s"
  shows "acquire l s = Inr (locked_by c l s)"
proof -
  have t: "this_cpu s = Some c" using assms(1) by (simp add: cpu_ok_def)
  let ?s = "s\<lparr>int_flag := False,
     cpus := (cpus s)(c := (cpus s c)\<lparr>
                 intena := (if ncli (cpus s c) = 0 then int_flag s else intena (cpus s c)),
                 ncli := ncli (cpus s c) + 1\<rparr>)\<rparr>"
  have "this_cpu ?s = Some c" using t by (subst this_cpu_cong [of _ s]) simp_all
  then have "mycpu (set_lock l ((locks ?s l)\<lparr>locked := 1\<rparr>) ?s) = Inr c"
    by (intro mycpu_this) simp_all
  moreover have "holding l ?s = Inr False" using assms(2) by (simp add: holding_def free_lock_def)
  ultimately show ?thesis using assms(2)
    unfolding acquire_def by (simp add: pushcli_eq [OF t] xchg_def free_lock_def locked_by_def
        set_lock_def del: if_split)
qed

lemma release_held [lock_simps]:
  assumes "cpu_ok c s" and "0 < depth c s" and "holds_lock c l s"
  shows "release l s = Inr (unlocked_by c l s)"
proof -
  have t: "this_cpu s = Some c" "\<not> int_flag s" using assms(1,2) by (auto simp: cpu_ok_def depth_def)
  then have "holding l s = Inr True" using assms(3)
    by (simp add: holding_def holds_lock_def mycpu_this)
  then show ?thesis using assms(2) t
    unfolding release_def
    by (simp add: Let_def, subst popcli_eq [where c = c])
      (simp_all add: set_lock_def depth_def unlocked_by_def)
qed

lemma acquire_again:
  assumes "cpu_ok c s" and "holds_lock c l s"
  shows "acquire l s = Inl (Panic ''acquire'')"
proof -
  have t: "this_cpu s = Some c" using assms(1) by (simp add: cpu_ok_def)
  let ?s = "s\<lparr>int_flag := False,
     cpus := (cpus s)(c := (cpus s c)\<lparr>
                 intena := (if ncli (cpus s c) = 0 then int_flag s else intena (cpus s c)),
                 ncli := ncli (cpus s c) + 1\<rparr>)\<rparr>"
  have "this_cpu ?s = Some c" using t by (subst this_cpu_cong [of _ s]) simp_all
  then have "holding l ?s = Inr True"
    using assms(2) by (simp add: holding_def holds_lock_def mycpu_this)
  then show ?thesis by (simp add: acquire_def pushcli_eq [OF t])
qed

lemma cpu_ok_locked_by [lock_simps]: "cpu_ok c s \<Longrightarrow> cpu_ok c (locked_by c l s)"
  by (auto simp: cpu_ok_def) (auto simp: locked_by_def)

lemma cpu_ok_unlocked_by [lock_simps]:
  "cpu_ok c s \<Longrightarrow> 0 < depth c s \<Longrightarrow> (depth c s = 1 \<Longrightarrow> intena (cpus s c)) \<Longrightarrow> cpu_ok c (unlocked_by c l s)"
  by (auto simp: cpu_ok_def depth_def) (auto simp: unlocked_by_def split: if_splits)

lemma depth_locked_by [lock_simps]: "depth c (locked_by c l s) = depth c s + 1"
  by (simp add: depth_def locked_by_def)

lemma depth_unlocked_by [lock_simps]: "depth c (unlocked_by c l s) = depth c s - 1"
  by (simp add: depth_def unlocked_by_def)

lemma depth_nonneg: "cpu_ok c s \<Longrightarrow> 0 \<le> depth c s"
  by (simp add: cpu_ok_def depth_def)

lemma holds_lock_locked_by [lock_simps]:
  "holds_lock c l (locked_by c l' s) \<longleftrightarrow> l = l' \<or> holds_lock c l s"
  by (simp add: holds_lock_def locked_by_def)

lemma free_lock_locked_by [lock_simps]:
  "free_lock l (locked_by c l' s) \<longleftrightarrow> l \<noteq> l' \<and> free_lock l s"
  by (simp add: free_lock_def locked_by_def)

lemma holds_lock_unlocked_by [lock_simps]:
  "holds_lock c l (unlocked_by c l' s) \<longleftrightarrow> l \<noteq> l' \<and> holds_lock c l s"
  by (simp add: holds_lock_def unlocked_by_def)

lemma free_lock_unlocked_by [lock_simps]:
  "free_lock l (unlocked_by c l' s) \<longleftrightarrow> l = l' \<or> free_lock l s"
  by (simp add: free_lock_def unlocked_by_def)

lemma unlocked_locked_by [lock_simps]:
  assumes "cpu_ok c s" and "free_lock l s"
  shows "unlocked_by c l (locked_by c l s) = s"
proof -
  have "(cpus s)(c := (cpus s c)\<lparr>
      intena := (if ncli (cpus s c) = 0 then int_flag s else intena (cpus s c)),
      ncli := ncli (cpus s c)\<rparr>) = cpus s"
    using assms(1) by (auto simp: cpu_ok_def)
  moreover have "(locks s)(l := (locks s l)\<lparr>lkcpu := None, locked := 0\<rparr>) = locks s"
    using assms(2) by (auto simp: free_lock_def)
  ultimately show ?thesis using assms(1)
    by (auto simp: unlocked_by_def locked_by_def cpu_ok_def)
qed

lemma release_locked_by [lock_simps]:
  assumes "cpu_ok c s" and "free_lock l s"
  shows "release l (locked_by c l s) = Inr s"
  by (subst release_held [OF cpu_ok_locked_by [OF assms(1)]])
    (use assms depth_nonneg [OF assms(1)] in \<open>simp_all add: lock_simps\<close>)

lemma myproc_eq [lock_simps]:
  assumes "cpu_ok c s"
  shows "myproc s = Inr (cproc (cpus s c), s)"
proof -
  have t: "this_cpu s = Some c" using assms by (simp add: cpu_ok_def)
  let ?s = "s\<lparr>int_flag := False,
     cpus := (cpus s)(c := (cpus s c)\<lparr>
                 intena := (if ncli (cpus s c) = 0 then int_flag s else intena (cpus s c)),
                 ncli := ncli (cpus s c) + 1\<rparr>)\<rparr>"
  have t': "this_cpu ?s = Some c" using t by (subst this_cpu_cong [of _ s]) simp_all
  have "(cpus s)(c := (cpus s c)\<lparr>
      intena := (if ncli (cpus s c) = 0 then int_flag s else intena (cpus s c)),
      ncli := ncli (cpus s c)\<rparr>) = cpus s"
    using assms by (auto simp: cpu_ok_def)
  with assms show ?thesis
    by (auto simp: myproc_def pushcli_eq [OF t] mycpu_this [OF t'] popcli_eq [OF t'] cpu_ok_def)
qed

section \<open>The race for one lock\<close>

text \<open>
  Several CPUs run \<open>acquire\<close> and \<open>release\<close> on one lock word. A CPU outside (\<open>Away\<close>)
  enters the loop of \<open>acquire\<close>; every iteration is one atomic \<open>xchg\<close>, which wins when
  it reads 0 and otherwise stores 1 over 1 and stays in the loop; the holder's
  \<open>release\<close> stores 0. Any CPU may move next.
\<close>

datatype spin_pc = Away | Spinning | Holding

record spin_sys =
  lk_word :: uint
  spin_at :: "nat \<Rightarrow> spin_pc"

inductive spin_step :: "spin_sys \<Rightarrow> spin_sys \<Rightarrow> bool" where
  enter: "spin_at s i = Away \<Longrightarrow> spin_step s (s\<lparr>spin_at := (spin_at s)(i := Spinning)\<rparr>)"
| win: "spin_at s i = Spinning \<Longrightarrow> xchg (lk_word s) 1 = (0, w) \<Longrightarrow>
    spin_step s (s\<lparr>lk_word := w, spin_at := (spin_at s)(i := Holding)\<rparr>)"
| lose: "spin_at s i = Spinning \<Longrightarrow> xchg (lk_word s) 1 = (old, w) \<Longrightarrow> old \<noteq> 0 \<Longrightarrow>
    spin_step s (s\<lparr>lk_word := w\<rparr>)"
| leave: "spin_at s i = Holding \<Longrightarrow>
    spin_step s (s\<lparr>lk_word := 0, spin_at := (spin_at s)(i := Away)\<rparr>)"

inductive spin_reach :: "spin_sys \<Rightarrow> bool" where
  init: "spin_reach \<lparr>lk_word = 0, spin_at = (\<lambda>_. Away)\<rparr>"
| step: "spin_reach s \<Longrightarrow> spin_step s t \<Longrightarrow> spin_reach t"

inductive_cases spin_stepE: "spin_step s t"

text \<open>The lock word is 1 exactly while one CPU holds the lock, and 0 otherwise.\<close>

definition spin_inv :: "spin_sys \<Rightarrow> bool" where
  "spin_inv s \<longleftrightarrow> (if lk_word s = 0 then \<forall>i. spin_at s i \<noteq> Holding
     else lk_word s = 1 \<and> (\<exists>!i. spin_at s i = Holding))"

lemma spin_step_inv:
  assumes "spin_step s t" and "spin_inv s"
  shows "spin_inv t"
  using assms(1)
proof (cases rule: spin_step.cases)
  case (enter i)
  then have "spin_at t j = Holding \<longleftrightarrow> spin_at s j = Holding" for j by auto
  with assms(2) enter show ?thesis unfolding spin_inv_def by simp
next
  case (win i w)
  then have "lk_word s = 0" "w = 1" by (simp_all add: xchg_def)
  with assms(2) win show ?thesis unfolding spin_inv_def by auto
next
  case (lose i old w)
  then have "lk_word s \<noteq> 0" "w = 1" by (simp_all add: xchg_def)
  with assms(2) lose show ?thesis unfolding spin_inv_def by auto
next
  case (leave i)
  with assms(2) have "\<exists>!i. spin_at s i = Holding"
    unfolding spin_inv_def by (auto split: if_splits)
  with leave(2) have "spin_at t j \<noteq> Holding" for j unfolding leave(1) by auto
  moreover have "lk_word t = 0" by (simp add: leave(1))
  ultimately show ?thesis unfolding spin_inv_def by simp
qed

lemma spin_reach_inv: "spin_reach s \<Longrightarrow> spin_inv s"
proof (induction rule: spin_reach.induct)
  case init
  show ?case by (simp add: spin_inv_def)
next
  case (step s t)
  then show ?case by (blast intro: spin_step_inv)
qed

section \<open>Properties\<close>

definition one_cpu :: machine where
  "one_cpu = \<lparr>cpus = (\<lambda>_. \<lparr>apicid = 0, ncli = 0, intena = True, cproc = Some 0\<rparr>), ncpu = 1, lapicid = 0,
     int_flag = True, locks = (\<lambda>_. \<lparr>locked = 0, lkname = [], lkcpu = None\<rparr>), switches = 0\<rparr>"

lemma one_cpu_ok: "cpu_ok 0 one_cpu" "free_lock l one_cpu"
  by (simp_all add: one_cpu_def cpu_ok_def this_cpu_def free_lock_def)

text \<open>C13. Mutual exclusion of the spin lock: however the iterations of the \<open>xchg\<close> loops and
  the releases of the CPUs interleave, no two CPUs hold the lock at once.\<close>
theorem spin_mutual_exclusion:
  assumes "spin_reach s" and "spin_at s i = Holding" and "spin_at s j = Holding"
  shows "i = j"
  using spin_reach_inv [OF assms(1)] assms(2,3) by (auto simp: spin_inv_def split: if_splits)

definition spin_won :: spin_sys where
  "spin_won = \<lparr>lk_word = 1, spin_at = (\<lambda>_. Away)(2 := Holding)\<rparr>"

lemma spin_won_reach: "spin_reach spin_won"
proof -
  let ?a = "\<lparr>lk_word = 0, spin_at = (\<lambda>_. Away)\<rparr>"
  let ?b = "\<lparr>lk_word = 0, spin_at = (\<lambda>_. Away)(2 := Spinning)\<rparr>"
  have "spin_step ?a ?b" using spin_step.enter [of ?a 2] by simp
  then have b: "spin_reach ?b" by (rule spin_reach.step [OF spin_reach.init])
  have "spin_step ?b spin_won" using spin_step.win [of ?b 2 1] by (simp add: xchg_def spin_won_def)
  then show ?thesis by (rule spin_reach.step [OF b])
qed

theorem spin_mutual_exclusion_witness: "spin_reach spin_won \<and> {i. spin_at spin_won i = Holding} = {2}"
proof
  show "spin_reach spin_won" by (rule spin_won_reach)
  have two: "spin_at spin_won 2 = Holding" by (simp add: spin_won_def)
  have "i = 2" if "spin_at spin_won i = Holding" for i
    by (rule spin_mutual_exclusion [OF spin_won_reach that two])
  with two show "{i. spin_at spin_won i = Holding} = {2}" by blast
qed

text \<open>A critical section leaves no trace: on a free lock \<open>acquire\<close> returns with
  interrupts off, the lock held by this CPU and the nesting one deeper, a second \<open>acquire\<close>
  there panics, and \<open>release\<close> restores the state before, the interrupt flag included.\<close>
theorem acquire_release:
  assumes "cpu_ok c s" and "free_lock l s"
  shows "\<exists>t. acquire l s = Inr t \<and> holds_lock c l t \<and> \<not> int_flag t \<and> depth c t = depth c s + 1
    \<and> acquire l t = Inl (Panic ''acquire'') \<and> release l t = Inr s"
proof (intro exI conjI)
  let ?t = "locked_by c l s"
  show "acquire l s = Inr ?t" by (rule acquire_free [OF assms])
  show h: "holds_lock c l ?t" by (simp add: lock_simps)
  show "\<not> int_flag ?t" by (simp add: locked_by_def)
  show "depth c ?t = depth c s + 1" by (simp add: lock_simps)
  have ok: "cpu_ok c ?t" using assms(1) by (rule cpu_ok_locked_by)
  show "acquire l ?t = Inl (Panic ''acquire'')" by (rule acquire_again [OF ok h])
  show "release l ?t = Inr s"
    using release_held [OF ok _ h] assms depth_nonneg [OF assms(1)] by (simp add: lock_simps)
qed

theorem acquire_release_witness:
  "\<exists>t. acquire TicksLock one_cpu = Inr t \<and> release TicksLock t = Inr one_cpu"
  using acquire_release [OF one_cpu_ok, of TicksLock] by blast

end
