(* ===== verification/Memory.thy ===== *)
theory Memory
  imports Prelude
begin

text \<open>
  Byte-addressed memory and the routines of \<open>string.c\<close> over it, with the little-endian
  32-bit loads and stores the page tables and the page allocator use. A count of bytes
  runs down as a natural number; addresses wrap at 32 bits as the machine's do.
\<close>

type_synonym memory = "uint \<Rightarrow> uchar"

section \<open>32-bit loads and stores\<close>

definition read32 :: "memory \<Rightarrow> uint \<Rightarrow> uint" where
  "read32 m a = ucast (m a) OR push_bit 8 (ucast (m (a + 1)))
     OR push_bit 16 (ucast (m (a + 2))) OR push_bit 24 (ucast (m (a + 3)))"

definition write32 :: "memory \<Rightarrow> uint \<Rightarrow> uint \<Rightarrow> memory" where
  "write32 m a v = m(a := ucast v, a + 1 := ucast (drop_bit 8 v),
     a + 2 := ucast (drop_bit 16 v), a + 3 := ucast (drop_bit 24 v))"

lemma word32_of_bytes:
  "ucast (ucast v :: uchar) OR push_bit 8 (ucast (ucast (drop_bit 8 v) :: uchar)) OR
   push_bit 16 (ucast (ucast (drop_bit 16 v) :: uchar)) OR
   push_bit 24 (ucast (ucast (drop_bit 24 v) :: uchar)) = (v :: uint)"
proof (rule bit_word_eqI)
  fix n :: nat
  assume n: "n < LENGTH(32)"
  consider "n < 8" | "8 \<le> n" "n < 16" | "16 \<le> n" "n < 24" | "24 \<le> n" by linarith
  then show "bit (ucast (ucast v :: uchar) OR push_bit 8 (ucast (ucast (drop_bit 8 v) :: uchar)) OR
      push_bit 16 (ucast (ucast (drop_bit 16 v) :: uchar)) OR
      push_bit 24 (ucast (ucast (drop_bit 24 v) :: uchar)) :: uint) n = bit v n"
    by cases (use n in \<open>auto simp: bit_simps\<close>)
qed

lemma read32_write32_same: "read32 (write32 m a v) a = v"
  by (simp add: read32_def write32_def word32_of_bytes)

lemma write32_other: "unat (x - a) \<ge> 4 \<Longrightarrow> write32 m a v x = m x"
  by (auto simp: write32_def)

lemma read32_cong:
  assumes "\<And>k. k < 4 \<Longrightarrow> m (a + k) = m' (a + k)"
  shows "read32 m a = read32 m' a"
  using assms [of 0] assms [of 1] assms [of 2] assms [of 3] by (simp add: read32_def)

section \<open>Filling\<close>

fun stosb :: "memory \<Rightarrow> uint \<Rightarrow> uint \<Rightarrow> nat \<Rightarrow> memory" where
  "stosb m addr data 0 = m"
| "stosb m addr data (Suc cnt) = stosb (m(addr := ucast data)) (addr + 1) data cnt"

fun stosl :: "memory \<Rightarrow> uint \<Rightarrow> uint \<Rightarrow> nat \<Rightarrow> memory" where
  "stosl m addr data 0 = m"
| "stosl m addr data (Suc cnt) = stosl (write32 m addr data) (addr + 4) data cnt"

definition memset :: "memory \<Rightarrow> uint \<Rightarrow> uint \<Rightarrow> uint \<Rightarrow> memory" where
  "memset m dst c n =
     (if sint dst smod 4 = 0 \<and> n mod 4 = 0 then
        let c = c AND 0xFF in
        stosl m dst (push_bit 24 c OR push_bit 16 c OR push_bit 8 c OR c) (unat (n div 4))
      else stosb m dst c (unat n))"

section \<open>Comparing and copying\<close>

fun memcmp_loop :: "memory \<Rightarrow> uint \<Rightarrow> uint \<Rightarrow> nat \<Rightarrow> int" where
  "memcmp_loop m s1 s2 0 = 0"
| "memcmp_loop m s1 s2 (Suc n) =
     (if m s1 \<noteq> m s2 then uint (m s1) - uint (m s2) else memcmp_loop m (s1 + 1) (s2 + 1) n)"

definition memcmp :: "memory \<Rightarrow> uint \<Rightarrow> uint \<Rightarrow> uint \<Rightarrow> int" where
  "memcmp m v1 v2 n = memcmp_loop m v1 v2 (unat n)"

fun copy_up :: "memory \<Rightarrow> uint \<Rightarrow> uint \<Rightarrow> nat \<Rightarrow> memory" where
  "copy_up m d s 0 = m"
| "copy_up m d s (Suc n) = copy_up (m(d := m s)) (d + 1) (s + 1) n"

fun copy_down :: "memory \<Rightarrow> uint \<Rightarrow> uint \<Rightarrow> nat \<Rightarrow> memory" where
  "copy_down m d s 0 = m"
| "copy_down m d s (Suc n) = (let s = s - 1; d = d - 1 in copy_down (m(d := m s)) d s n)"

definition memmove :: "memory \<Rightarrow> uint \<Rightarrow> uint \<Rightarrow> uint \<Rightarrow> memory" where
  "memmove m dst src n =
     (if src < dst \<and> dst < src + n then copy_down m (dst + n) (src + n) (unat n)
      else copy_up m dst src (unat n))"

definition memcpy :: "memory \<Rightarrow> uint \<Rightarrow> uint \<Rightarrow> uint \<Rightarrow> memory" where
  "memcpy m dst src n = memmove m dst src n"

section \<open>Strings\<close>

fun strncmp_loop :: "memory \<Rightarrow> uint \<Rightarrow> uint \<Rightarrow> nat \<Rightarrow> int" where
  "strncmp_loop m p q 0 = 0"
| "strncmp_loop m p q (Suc n) =
     (if m p \<noteq> 0 \<and> m p = m q then strncmp_loop m (p + 1) (q + 1) n
      else uint (m p) - uint (m q))"

definition strncmp :: "memory \<Rightarrow> uint \<Rightarrow> uint \<Rightarrow> uint \<Rightarrow> int" where
  "strncmp m p q n = strncmp_loop m p q (unat n)"

fun zero_fill :: "memory \<Rightarrow> uint \<Rightarrow> nat \<Rightarrow> memory" where
  "zero_fill m s 0 = m"
| "zero_fill m s (Suc n) = zero_fill (m(s := 0)) (s + 1) n"

fun strncpy_loop :: "memory \<Rightarrow> uint \<Rightarrow> uint \<Rightarrow> nat \<Rightarrow> memory" where
  "strncpy_loop m s t 0 = m"
| "strncpy_loop m s t (Suc n) =
     (let c = m t; m = m(s := c) in
      if c \<noteq> 0 then strncpy_loop m (s + 1) (t + 1) n else zero_fill m (s + 1) n)"

definition strncpy :: "memory \<Rightarrow> uint \<Rightarrow> uint \<Rightarrow> int \<Rightarrow> memory" where
  "strncpy m s t n = strncpy_loop m s t (nat n)"

text \<open>The first argument of the loop is what \<open>--n > 0\<close> still allows to copy.\<close>

fun safestrcpy_loop :: "memory \<Rightarrow> uint \<Rightarrow> uint \<Rightarrow> nat \<Rightarrow> memory" where
  "safestrcpy_loop m s t 0 = m(s := 0)"
| "safestrcpy_loop m s t (Suc n) =
     (let c = m t; m = m(s := c) in
      if c \<noteq> 0 then safestrcpy_loop m (s + 1) (t + 1) n else m(s + 1 := 0))"

definition safestrcpy :: "memory \<Rightarrow> uint \<Rightarrow> uint \<Rightarrow> int \<Rightarrow> memory" where
  "safestrcpy m s t n = (if n \<le> 0 then m else safestrcpy_loop m s t (nat (n - 1)))"

text \<open>A string without a terminating zero byte makes the scan run on: no result.\<close>

partial_function (option) strlen_loop :: "memory \<Rightarrow> uint \<Rightarrow> nat \<Rightarrow> nat option" where
  "strlen_loop m s n = (if m (s + of_nat n) = 0 then Some n else strlen_loop m s (Suc n))"

definition strlen :: "memory \<Rightarrow> uint \<Rightarrow> nat option" where
  "strlen m s = strlen_loop m s 0"

section \<open>What the routines do to a region\<close>

text \<open>Byte \<open>a\<close> lies in the \<open>n\<close> bytes from \<open>b\<close> on, addresses taken modulo $2^{32}$.\<close>

definition in_range :: "uint \<Rightarrow> nat \<Rightarrow> uint \<Rightarrow> bool" where
  "in_range b n a \<longleftrightarrow> unat (a - b) < n"

lemma unat_uint_less: "unat (x :: uint) < 2 ^ 32"
  using unsigned_less [where 'a = nat, of x] by simp

lemma unat_plus_one: "unat (x :: uint) + 1 < 2 ^ 32 \<Longrightarrow> unat (x + 1) = unat x + 1"
  by (simp add: unat_word_ariths)

lemma unat_minus_one: "(x :: uint) \<noteq> 0 \<Longrightarrow> unat (x - 1) = unat x - 1"
  by (simp add: unat_sub word_less_nat_alt unat_gt_0 word_le_nat_alt Suc_leI)

lemma unat_minus_one_word32: "unat (- 1 :: uint) = 2 ^ 32 - 1"
  by (simp add: unsigned_minus_1_eq_mask mask_eq_exp_minus_1)

text \<open>Stepping the base by one peels the first byte off the region.\<close>

lemma in_range_Suc:
  assumes "Suc n \<le> 2 ^ 32"
  shows "in_range b (Suc n) a \<longleftrightarrow> a = b \<or> in_range (b + 1) n a"
proof (cases "a = b")
  case True
  then show ?thesis by (simp add: in_range_def)
next
  case False
  then have "a - b \<noteq> 0" by simp
  then have "unat (a - b - 1) = unat (a - b) - 1" "0 < unat (a - b)"
    by (simp_all add: unat_minus_one unat_gt_0)
  then have "unat (a - (b + 1)) = unat (a - b) - 1" by (simp add: diff_diff_eq)
  with \<open>0 < unat (a - b)\<close> show ?thesis using False by (auto simp: in_range_def)
qed

lemma in_range_next_not_base:
  assumes "Suc n \<le> 2 ^ 32"
  shows "\<not> in_range (b + 1) n b"
proof -
  have "b - (b + 1) = (- 1 :: uint)" by simp
  then have "unat (b - (b + 1)) = 2 ^ 32 - 1" by (metis unat_minus_one_word32)
  with assms show ?thesis by (simp add: in_range_def)
qed

lemma stosb_eq: "n \<le> 2 ^ 32 \<Longrightarrow> stosb m b v n a = (if in_range b n a then ucast v else m a)"
proof (induction n arbitrary: m b)
  case 0
  then show ?case by (simp add: in_range_def)
next
  case (Suc n)
  then show ?case
    using in_range_Suc [of n b a] in_range_next_not_base [of n b] by auto
qed

lemma in_range_add:
  assumes "k + n \<le> 2 ^ 32"
  shows "in_range b (k + n) a \<longleftrightarrow> in_range b k a \<or> in_range (b + of_nat k) n a"
  using assms
proof (induction k arbitrary: b)
  case 0
  then show ?case by (simp add: in_range_def)
next
  case (Suc k)
  have "in_range b (Suc (k + n)) a \<longleftrightarrow> a = b \<or> in_range (b + 1) (k + n) a"
    by (rule in_range_Suc) (use Suc.prems in simp)
  also have "\<dots> \<longleftrightarrow> a = b \<or> in_range (b + 1) k a \<or> in_range (b + 1 + of_nat k) n a"
    using Suc.IH [of "b + 1"] Suc.prems by simp
  also have "\<dots> \<longleftrightarrow> in_range b (Suc k) a \<or> in_range (b + of_nat (Suc k)) n a"
    using in_range_Suc [of k b a] Suc.prems by (simp add: add.assoc)
  finally show ?case by simp
qed

lemma in_range_last:
  assumes "n < 2 ^ 32"
  shows "in_range b (Suc n) a \<longleftrightarrow> in_range b n a \<or> a = b + of_nat n"
  using in_range_add [of n 1 b a] assms by (auto simp: in_range_def unat_eq_0)

lemma write32_in_range:
  assumes "ucast v = w" "ucast (drop_bit 8 v) = w" "ucast (drop_bit 16 v) = w" "ucast (drop_bit 24 v) = w"
  shows "write32 m b v a = (if in_range b 4 a then w else m a)"
proof -
  have "in_range b 4 a \<longleftrightarrow> a = b \<or> a = b + 1 \<or> a = b + 2 \<or> a = b + 3"
  proof -
    have "in_range b 4 a \<longleftrightarrow> in_range b 3 a \<or> a = b + 3" using in_range_last [of 3 b a] by simp
    moreover have "in_range b 3 a \<longleftrightarrow> in_range b 2 a \<or> a = b + 2" using in_range_last [of 2 b a] by simp
    moreover have "in_range b (Suc 1) a \<longleftrightarrow> in_range b 1 a \<or> a = b + of_nat 1"
      by (rule in_range_last) simp
    then have "in_range b 2 a \<longleftrightarrow> in_range b 1 a \<or> a = b + 1" by (simp only: Suc_1 of_nat_1)
    moreover have "in_range b 1 a \<longleftrightarrow> a = b" by (simp add: in_range_def unat_eq_0)
    ultimately show ?thesis by blast
  qed
  then show ?thesis by (auto simp: write32_def assms)
qed

lemma stosl_eq:
  assumes "ucast v = w" "ucast (drop_bit 8 v) = w" "ucast (drop_bit 16 v) = w" "ucast (drop_bit 24 v) = w"
  shows "4 * n \<le> 2 ^ 32 \<Longrightarrow> stosl m b v n a = (if in_range b (4 * n) a then w else m a)"
proof (induction n arbitrary: m b)
  case 0
  then show ?case by (simp add: in_range_def)
next
  case (Suc n)
  have "in_range b (4 * Suc n) a \<longleftrightarrow> in_range b 4 a \<or> in_range (b + 4) (4 * n) a"
    using in_range_add [of 4 "4 * n" b a] Suc.prems by simp
  then show ?case
    using Suc.IH [of "write32 m b v" "b + 4"] Suc.prems write32_in_range [OF assms, of m b a]
    by auto
qed

lemma memset_word_bytes:
  fixes c :: uint
  defines "v \<equiv> push_bit 24 (c AND 0xFF) OR push_bit 16 (c AND 0xFF) OR push_bit 8 (c AND 0xFF) OR (c AND 0xFF)"
  shows "(ucast v :: uchar) = ucast c" "(ucast (drop_bit 8 v) :: uchar) = ucast c"
    "(ucast (drop_bit 16 v) :: uchar) = ucast c" "(ucast (drop_bit 24 v) :: uchar) = ucast c"
proof -
  have mask: "c AND 0xFF = take_bit 8 c" by (simp add: take_bit_eq_mask mask_numeral)
  show "(ucast v :: uchar) = ucast c" "(ucast (drop_bit 8 v) :: uchar) = ucast c"
    "(ucast (drop_bit 16 v) :: uchar) = ucast c" "(ucast (drop_bit 24 v) :: uchar) = ucast c"
    unfolding v_def mask by (rule bit_word_eqI; auto simp: bit_simps)+
qed

text \<open>Both branches of \<open>memset\<close> store the low byte of \<open>c\<close> into \<open>n\<close> bytes and nothing else.\<close>

lemma memset_eq: "memset m dst c n a = (if in_range dst (unat n) a then ucast c else m a)"
proof (cases "sint dst smod 4 = 0 \<and> n mod 4 = 0")
  case True
  have "unat (n mod 4) = 0" using True by simp
  then have "unat n mod 4 = 0" by (simp add: unat_mod)
  then have four: "4 * unat (n div 4) = unat n" by (simp add: unat_div) presburger
  moreover have "unat n \<le> 2 ^ 32" using unat_uint_less [of n] by simp
  ultimately show ?thesis using True
    by (simp only: memset_def Let_def if_True simp_thms stosl_eq [OF memset_word_bytes])
next
  case False
  have "unat n \<le> 2 ^ 32" using unat_uint_less [of n] by simp
  then show ?thesis unfolding memset_def if_not_P [OF False] by (rule stosb_eq)
qed

lemma offset_ne:
  fixes s d x :: uint
  assumes "unat s + unat x < 2 ^ 32" and "unat s + unat x \<noteq> unat d"
  shows "s + x \<noteq> d"
proof
  assume "s + x = d"
  then have "unat d = unat s + unat x" using assms(1) by (auto simp: unat_word_ariths)
  with assms(2) show False by simp
qed

text \<open>Copying upwards is right when the target does not start inside the source.\<close>

lemma copy_up_eq:
  assumes "unat d + n \<le> 2 ^ 32" and "unat s + n \<le> 2 ^ 32" and "unat d \<le> unat s \<or> unat s + n \<le> unat d"
  shows "copy_up m d s n a = (if in_range d n a then m (s + (a - d)) else m a)"
  using assms
proof (induction n arbitrary: m d s)
  case 0
  then show ?case by (simp add: in_range_def)
next
  case (Suc n)
  show ?case
  proof (cases "n = 0")
    case True
    then show ?thesis by (auto simp: in_range_def unat_eq_0)
  next
    case False
    have d1: "unat (d + 1) = unat d + 1" by (rule unat_plus_one) (use Suc.prems False in simp)
    have s1: "unat (s + 1) = unat s + 1" by (rule unat_plus_one) (use Suc.prems False in simp)
    have IH: "copy_up (m(d := m s)) (d + 1) (s + 1) n a =
        (if in_range (d + 1) n a then (m(d := m s)) (s + 1 + (a - (d + 1))) else (m(d := m s)) a)"
      by (rule Suc.IH) (use Suc.prems d1 s1 in auto)
    have pos: "s + 1 + (a - (d + 1)) = s + (a - d)" by (simp add: algebra_simps)
    have ne: "s + (a - d) \<noteq> d" if r: "in_range (d + 1) n a"
    proof (rule offset_ne)
      have in': "in_range d (Suc n) a" using r in_range_Suc [of n d a] Suc.prems by simp
      then have x: "unat (a - d) < Suc n" by (simp add: in_range_def)
      show "unat s + unat (a - d) < 2 ^ 32" using x Suc.prems by simp
      have "a \<noteq> d" using r in_range_next_not_base [of n d] Suc.prems by auto
      then have "0 < unat (a - d)" by (simp add: unat_gt_0)
      with x Suc.prems(3) show "unat s + unat (a - d) \<noteq> unat d" by auto
    qed
    show ?thesis
      using IH pos ne in_range_Suc [of n d a] in_range_next_not_base [of n d] Suc.prems
      by auto
  qed
qed

text \<open>Copying downwards is right when the target starts above the source.\<close>

lemma copy_down_eq:
  assumes "unat d + n \<le> 2 ^ 32" and "unat s < unat d"
  shows "copy_down m (d + of_nat n) (s + of_nat n) n a = (if in_range d n a then m (s + (a - d)) else m a)"
  using assms
proof (induction n arbitrary: m)
  case 0
  then show ?case by (simp add: in_range_def)
next
  case (Suc n)
  let ?m = "m(d + of_nat n := m (s + of_nat n))"
  have n: "n < 2 ^ 32" using Suc.prems by simp
  then have un: "unat (of_nat n :: uint) = n" by (simp add: unat_of_nat)
  have IH: "copy_down ?m (d + of_nat n) (s + of_nat n) n a = (if in_range d n a then ?m (s + (a - d)) else ?m a)"
    by (rule Suc.IH) (use Suc.prems in auto)
  have ne: "s + (a - d) \<noteq> d + of_nat n" if "in_range d n a"
  proof (rule offset_ne)
    have x: "unat (a - d) < n" using that by (simp add: in_range_def)
    have "unat (d + of_nat n) = unat d + n" using Suc.prems un by (auto simp: unat_word_ariths)
    with x Suc.prems show "unat s + unat (a - d) < 2 ^ 32"
      "unat s + unat (a - d) \<noteq> unat (d + of_nat n)" by auto
  qed
  have top: "\<not> in_range d n (d + of_nat n)" by (simp add: in_range_def un)
  show ?case using IH ne top in_range_last [OF n, of d a]
    by (auto simp: algebra_simps Let_def)
qed

text \<open>
  \<open>memmove\<close> moves a region to a place that may overlap it: whichever way the two regions
  lie, the target holds what the source held before.
\<close>

lemma memmove_eq:
  assumes "unat dst + unat n \<le> 2 ^ 32" and "unat src + unat n < 2 ^ 32"
  shows "memmove m dst src n a = (if in_range dst (unat n) a then m (src + (a - dst)) else m a)"
proof (cases "src < dst \<and> dst < src + n")
  case True
  then have "unat src < unat dst" by (simp add: word_less_nat_alt)
  with True assms copy_down_eq [of dst "unat n" src m a] show ?thesis by (simp add: memmove_def)
next
  case False
  have "unat (src + n) = unat src + unat n" using assms(2) by (auto simp: unat_word_ariths)
  with False have "unat dst \<le> unat src \<or> unat src + unat n \<le> unat dst"
    by (auto simp: word_less_nat_alt)
  with False assms copy_up_eq [of dst "unat n" src m a] show ?thesis
    unfolding memmove_def by auto
qed

end
