(* ===== verification/Kalloc.thy ===== *)
theory Kalloc
  imports Spinlock Memory
begin

text \<open>
  The physical page allocator of \<open>kalloc.c\<close>. A free page holds, in its first four
  bytes, the address of the next free page, so the free list lives in the memory it
  manages. The invariant relates that chain to a list of distinct page addresses; the
  locale states what a client may rely on and is interpreted on \<open>kalloc\<close> and \<open>kfree\<close>.
\<close>

section \<open>Address arithmetic of \<open>mmu.h\<close> and \<open>memlayout.h\<close>\<close>

definition PGSIZE :: uint where "PGSIZE = 4096"
definition EXTMEM :: uint where "EXTMEM = 0x100000"
definition PHYSTOP :: uint where "PHYSTOP = 0xE000000"
definition DEVSPACE :: uint where "DEVSPACE = 0xFE000000"
definition KERNBASE :: uint where "KERNBASE = 0x80000000"
definition KERNLINK :: uint where "KERNLINK = KERNBASE + EXTMEM"

definition V2P :: "uint \<Rightarrow> uint" where "V2P a = a - KERNBASE"
definition P2V :: "uint \<Rightarrow> uint" where "P2V a = a + KERNBASE"

definition PGROUNDUP :: "uint \<Rightarrow> uint" where
  "PGROUNDUP sz = (sz + PGSIZE - 1) AND NOT (PGSIZE - 1)"

definition PGROUNDDOWN :: "uint \<Rightarrow> uint" where
  "PGROUNDDOWN a = a AND NOT (PGSIZE - 1)"

lemmas layout_defs = PGSIZE_def EXTMEM_def PHYSTOP_def DEVSPACE_def KERNBASE_def KERNLINK_def

section \<open>State and operations\<close>

text \<open>
  \<open>kend\<close> and \<open>kdata\<close> are the addresses the linker script gives the symbols \<open>end\<close> and
  \<open>data\<close>; no routine changes them.
\<close>

record kmem_state = machine +
  mem :: memory
  kend :: uint
  kdata :: uint
  use_lock :: bool
  freelist :: uint

definition kmem_acquire :: "'z kmem_state_scheme \<Rightarrow> 'z kmem_state_scheme result" where
  "kmem_acquire s = (if use_lock s then acquire KmemLock s else Inr s)"

definition kmem_release :: "'z kmem_state_scheme \<Rightarrow> 'z kmem_state_scheme result" where
  "kmem_release s = (if use_lock s then release KmemLock s else Inr s)"

definition kfree :: "uint \<Rightarrow> 'z kmem_state_scheme \<Rightarrow> 'z kmem_state_scheme result" where
  "kfree v s =
     (if v mod PGSIZE \<noteq> 0 \<or> v < kend s \<or> PHYSTOP \<le> V2P v then Inl (Panic ''kfree'')
      else
        let s = s\<lparr>mem := memset (mem s) v 1 PGSIZE\<rparr> in
        bnd (kmem_acquire s) (\<lambda>s.
        let r = v;
            s = s\<lparr>mem := write32 (mem s) r (freelist s)\<rparr>;
            s = s\<lparr>freelist := r\<rparr> in
        kmem_release s))"

definition kalloc :: "'z kmem_state_scheme \<Rightarrow> (uint \<times> 'z kmem_state_scheme) result" where
  "kalloc s =
     bnd (kmem_acquire s) (\<lambda>s.
     let r = freelist s;
         s = (if r \<noteq> 0 then s\<lparr>freelist := read32 (mem s) r\<rparr> else s) in
     bnd (kmem_release s) (\<lambda>s. Inr (r, s)))"

lemma kfree_range:
  assumes "kfree v s = Inr t"
  shows "unat v + 4096 < 2 ^ 32"
proof -
  have "v - 0x80000000 < 0xE000000"
    using assms by (auto simp: kfree_def V2P_def layout_defs not_le split: if_splits)
  then have "unat (v - 0x80000000) < 0xE000000" by (simp add: word_less_nat_alt)
  then show ?thesis by (auto simp: unat_sub_if' split: if_splits)
qed

text \<open>
  The loop of \<open>freerange\<close> stops: \<open>kfree\<close> panics on a page at or above \<open>PHYSTOP\<close>, so the
  pointer does not wrap around.
\<close>

function freerange_loop :: "uint \<Rightarrow> uint \<Rightarrow> 'z kmem_state_scheme \<Rightarrow> 'z kmem_state_scheme result" where
  "freerange_loop p vend s =
     (if p + PGSIZE \<le> vend then bnd (kfree p s) (\<lambda>s. freerange_loop (p + PGSIZE) vend s) else Inr s)"
  by pat_completeness auto
termination
proof (relation "measure (\<lambda>(p, vend, s). 2 ^ 32 - unat p)")
  fix p vend :: uint and s t :: "'a kmem_state_scheme"
  assume "p + PGSIZE \<le> vend" "kfree p s = Inr t"
  then have "unat (p + PGSIZE) = unat p + 4096" "unat p + 4096 < 2 ^ 32"
    using kfree_range [of p s t] by (auto simp: PGSIZE_def unat_word_ariths)
  then show "((p + PGSIZE, vend, t), p, vend, s) \<in> measure (\<lambda>(p, vend, s). 2 ^ 32 - unat p)"
    by simp
qed simp

declare freerange_loop.simps [simp del]

definition freerange :: "uint \<Rightarrow> uint \<Rightarrow> 'z kmem_state_scheme \<Rightarrow> 'z kmem_state_scheme result" where
  "freerange vstart vend s = freerange_loop (PGROUNDUP vstart) vend s"

definition kinit1 :: "uint \<Rightarrow> uint \<Rightarrow> 'z kmem_state_scheme \<Rightarrow> 'z kmem_state_scheme result" where
  "kinit1 vstart vend s =
     (let s = initlock KmemLock ''kmem'' s; s = s\<lparr>use_lock := False\<rparr> in freerange vstart vend s)"

definition kinit2 :: "uint \<Rightarrow> uint \<Rightarrow> 'z kmem_state_scheme \<Rightarrow> 'z kmem_state_scheme result" where
  "kinit2 vstart vend s = bnd (freerange vstart vend s) (\<lambda>s. Inr (s\<lparr>use_lock := True\<rparr>))"

section \<open>The lock brackets\<close>

lemma kmem_fields_lock [lock_simps]:
  "mem (locked_by c l s) = mem s" "mem (unlocked_by c l s) = mem s"
  "freelist (locked_by c l s) = freelist s" "freelist (unlocked_by c l s) = freelist s"
  "use_lock (locked_by c l s) = use_lock s" "use_lock (unlocked_by c l s) = use_lock s"
  "kend (locked_by c l s) = kend s" "kend (unlocked_by c l s) = kend s"
  "kdata (locked_by c l s) = kdata s" "kdata (unlocked_by c l s) = kdata s"
  by (simp_all add: locked_by_def unlocked_by_def)

lemma kmem_update_lock [lock_simps]:
  "cpu_ok c (s\<lparr>mem := m\<rparr>) = cpu_ok c s" "cpu_ok c (s\<lparr>freelist := r\<rparr>) = cpu_ok c s"
  "depth c (s\<lparr>mem := m\<rparr>) = depth c s" "depth c (s\<lparr>freelist := r\<rparr>) = depth c s"
  "free_lock l (s\<lparr>mem := m\<rparr>) = free_lock l s" "free_lock l (s\<lparr>freelist := r\<rparr>) = free_lock l s"
  "holds_lock c l (s\<lparr>mem := m\<rparr>) = holds_lock c l s" "holds_lock c l (s\<lparr>freelist := r\<rparr>) = holds_lock c l s"
  "unlocked_by c l (s\<lparr>mem := m\<rparr>) = (unlocked_by c l s)\<lparr>mem := m\<rparr>"
  "locked_by c l (s\<lparr>mem := m\<rparr>) = (locked_by c l s)\<lparr>mem := m\<rparr>"
  "locked_by c l (s\<lparr>freelist := r\<rparr>) = (locked_by c l s)\<lparr>freelist := r\<rparr>"
  "unlocked_by c l (s\<lparr>freelist := r\<rparr>) = (unlocked_by c l s)\<lparr>freelist := r\<rparr>"
  by (simp_all add: cpu_ok_def this_cpu_def depth_def free_lock_def holds_lock_def unlocked_by_def
      locked_by_def)

text \<open>The executing CPU can take the allocator's lock, when the allocator uses it.\<close>

definition kmem_ready :: "nat \<Rightarrow> 'z kmem_state_scheme \<Rightarrow> bool" where
  "kmem_ready c s \<longleftrightarrow> cpu_ok c s \<and> (use_lock s \<longrightarrow> free_lock KmemLock s)"

lemma kalloc_eq:
  assumes "kmem_ready c s"
  shows "kalloc s = Inr (freelist s,
    if freelist s \<noteq> 0 then s\<lparr>freelist := read32 (mem s) (freelist s)\<rparr> else s)"
  using assms depth_nonneg [of c s]
  by (auto simp: kalloc_def kmem_ready_def kmem_acquire_def kmem_release_def Let_def
      release_held [where c = c] lock_simps)

definition page_ok :: "'z kmem_state_scheme \<Rightarrow> uint \<Rightarrow> bool" where
  "page_ok s v \<longleftrightarrow> v mod PGSIZE = 0 \<and> kend s \<le> v \<and> V2P v < PHYSTOP"

lemma kfree_eq:
  assumes "kmem_ready c s" and "page_ok s v"
  shows "kfree v s = Inr (s\<lparr>mem := write32 (memset (mem s) v 1 PGSIZE) v (freelist s), freelist := v\<rparr>)"
  using assms depth_nonneg [of c s]
  by (auto simp: kfree_def page_ok_def kmem_ready_def kmem_acquire_def kmem_release_def Let_def
      release_held [where c = c] lock_simps not_less not_le)

lemma kfree_panic: "\<not> page_ok s v \<Longrightarrow> kfree v s = Inl (Panic ''kfree'')"
  by (auto simp: kfree_def page_ok_def not_less not_le)

section \<open>The free list in memory\<close>

fun chain :: "memory \<Rightarrow> uint \<Rightarrow> uint list \<Rightarrow> bool" where
  "chain m r [] \<longleftrightarrow> r = 0"
| "chain m r (p # ps) \<longleftrightarrow> r = p \<and> chain m (read32 m p) ps"

definition free_chain :: "'z kmem_state_scheme \<Rightarrow> uint list \<Rightarrow> bool" where
  "free_chain s ps \<longleftrightarrow> chain (mem s) (freelist s) ps \<and> distinct ps \<and> (\<forall>p\<in>set ps. page_ok s p)"

lemma page_ok_nonzero: "page_ok s p \<Longrightarrow> p \<noteq> 0"
  by (auto simp: page_ok_def V2P_def layout_defs)

lemma page_aligned: "v mod PGSIZE = 0 \<longleftrightarrow> unat v mod 4096 = 0"
  by (simp add: PGSIZE_def unat_eq_0 [symmetric] unat_mod)

lemma aligned_offset_not_in_page:
  assumes "unat p mod 4096 = 0" "unat v mod 4096 = 0" "p \<noteq> v" "k < 4096"
  shows "\<not> in_range v 4096 (p + of_nat k)"
proof
  assume "in_range v 4096 (p + of_nat k)"
  then have *: "unat (p + of_nat k - v) < 4096" by (simp add: in_range_def)
  obtain i j where ij: "unat p = 4096 * i" "unat v = 4096 * j" using assms(1,2) by (auto elim!: dvdE)
  have "unat p < 4294967296" "unat v < 4294967296"
    using unsigned_less [where 'a = nat, of p] unsigned_less [where 'a = nat, of v] by simp_all
  then have b: "i < 1048576" "j < 1048576" using ij by simp_all
  have "unat (p + of_nat k) = (unat p + k) mod 4294967296"
    using assms(4) by (simp add: unat_word_ariths unat_of_nat take_bit_eq_mod)
  then have "unat (p + of_nat k) = 4096 * i + k" using ij b assms(4) by simp
  then have "i = j" using * ij b assms(4) by (auto simp: unat_sub_if' split: if_splits)
  with ij assms(3) show False by (simp add: word_unat_eq_iff)
qed

lemma read32_outside_page:
  assumes "unat p mod 4096 = 0" "unat v mod 4096 = 0" "p \<noteq> v"
    and "\<And>a. \<not> in_range v 4096 a \<Longrightarrow> m' a = m a"
  shows "read32 m' p = read32 m p"
proof (rule read32_cong)
  fix k :: uint assume "k < 4"
  then have "unat k < 4" by (simp add: word_less_nat_alt)
  then show "m' (p + k) = m (p + k)"
    using aligned_offset_not_in_page [OF assms(1-3), of "unat k"] assms(4) by simp
qed

lemma chain_outside_page:
  assumes "\<And>a. \<not> in_range v 4096 a \<Longrightarrow> m' a = m a" "unat v mod 4096 = 0"
    and "\<forall>p\<in>set ps. unat p mod 4096 = 0" "v \<notin> set ps"
  shows "chain m' r ps = chain m r ps"
  using assms(3,4)
proof (induction ps arbitrary: r)
  case (Cons p ps)
  have "read32 m' p = read32 m p"
    by (rule read32_outside_page [OF _ assms(2) _ assms(1)]) (use Cons.prems in auto)
  with Cons show ?case by simp
qed simp

section \<open>What the operations do to the free list\<close>

lemma page_ok_update [frames]:
  "page_ok (s\<lparr>mem := m\<rparr>) = page_ok s" "page_ok (s\<lparr>freelist := r\<rparr>) = page_ok s"
  by (rule ext; simp add: page_ok_def)+

lemma kmem_ready_update [frames]:
  "kmem_ready c (s\<lparr>mem := m\<rparr>) = kmem_ready c s" "kmem_ready c (s\<lparr>freelist := r\<rparr>) = kmem_ready c s"
  by (simp_all add: kmem_ready_def lock_simps)

definition kfreed :: "uint \<Rightarrow> 'z kmem_state_scheme \<Rightarrow> 'z kmem_state_scheme" where
  "kfreed v s = s\<lparr>mem := write32 (memset (mem s) v 1 PGSIZE) v (freelist s), freelist := v\<rparr>"

lemma kfreed_mem_outside: "\<not> in_range v 4096 a \<Longrightarrow> mem (kfreed v s) a = mem s a"
  by (simp add: kfreed_def write32_other memset_eq in_range_def PGSIZE_def)

lemma kmem_ready_kfreed [frames]: "kmem_ready c (kfreed v s) = kmem_ready c s"
  by (simp add: kfreed_def frames)

lemma page_ok_kfreed [frames]: "page_ok (kfreed v s) = page_ok s"
  by (simp add: kfreed_def frames)

lemma free_chain_kfreed:
  assumes "free_chain s ps" "page_ok s v" "v \<notin> set ps"
  shows "free_chain (kfreed v s) (v # ps)"
proof -
  have al: "unat v mod 4096 = 0" "\<forall>p\<in>set ps. unat p mod 4096 = 0"
    using assms(1,2) by (auto simp: free_chain_def page_ok_def page_aligned)
  have "chain (mem (kfreed v s)) r ps = chain (mem s) r ps" for r
    by (rule chain_outside_page [OF _ al assms(3)]) (rule kfreed_mem_outside)
  then have "chain (mem (kfreed v s)) (freelist s) ps" using assms(1) by (simp add: free_chain_def)
  moreover have "read32 (mem (kfreed v s)) v = freelist s"
    by (simp add: kfreed_def read32_write32_same)
  ultimately show ?thesis using assms
    by (simp add: free_chain_def frames) (simp add: kfreed_def)
qed

lemma kfree_kfreed: "kmem_ready c s \<Longrightarrow> page_ok s v \<Longrightarrow> kfree v s = Inr (kfreed v s)"
  by (simp add: kfree_eq kfreed_def)

lemma kalloc_chain:
  assumes "kmem_ready c s" "free_chain s (p # ps)"
  shows "kalloc s = Inr (p, s\<lparr>freelist := read32 (mem s) p\<rparr>)"
    and "free_chain (s\<lparr>freelist := read32 (mem s) p\<rparr>) ps"
  using assms page_ok_nonzero [of s p] by (auto simp: kalloc_eq free_chain_def frames)

lemma kalloc_empty:
  assumes "kmem_ready c s" "free_chain s []"
  shows "kalloc s = Inr (0, s)"
  using assms by (simp add: kalloc_eq free_chain_def)

section \<open>The pages \<open>freerange\<close> frees\<close>

definition pages_from :: "uint \<Rightarrow> nat \<Rightarrow> uint list" where
  "pages_from p n = map (\<lambda>k. p + of_nat (k * 4096)) [0..<n]"

lemma pages_from_Suc: "pages_from p (Suc n) = p # pages_from (p + PGSIZE) n"
  by (simp add: pages_from_def PGSIZE_def upt_conv_Cons map_Suc_upt [symmetric] algebra_simps
      del: upt_Suc)

lemma in_pages_from:
  "unat p + n * 4096 < 2 ^ 32 \<Longrightarrow> q \<in> set (pages_from p n) \<Longrightarrow>
   \<exists>k<n. unat q = unat p + k * 4096 \<and> q = p + of_nat (k * 4096)"
proof -
  assume b: "unat p + n * 4096 < 2 ^ 32" and "q \<in> set (pages_from p n)"
  then obtain k where k: "k < n" "q = p + of_nat (k * 4096)" by (auto simp: pages_from_def)
  then have "unat p + k * 4096 < 2 ^ 32" using b by simp
  then have "unat q = unat p + k * 4096"
    using k(2) by (simp add: unat_word_ariths unat_of_nat take_bit_eq_mod)
  with k show ?thesis by blast
qed

lemma freerange_loop_chain:
  assumes "kmem_ready c s" "free_chain s ps"
    and "unat p + n * 4096 \<le> unat vend" "unat vend < unat p + (n + 1) * 4096"
    and "unat vend + 4096 < 2 ^ 32"
    and "\<And>q. q \<in> set (pages_from p n) \<Longrightarrow> page_ok s q \<and> q \<notin> set ps"
  shows "\<exists>t. freerange_loop p vend s = Inr t \<and> kmem_ready c t
           \<and> free_chain t (rev (pages_from p n) @ ps) \<and> page_ok t = page_ok s"
  using assms
proof (induction n arbitrary: p s ps)
  case 0
  then have "unat (p + PGSIZE) = unat p + 4096"
    by (simp add: unat_word_ariths PGSIZE_def)
  with 0 show ?case
    by (subst freerange_loop.simps) (simp add: word_le_nat_alt pages_from_def)
next
  case (Suc n)
  have next_p: "unat (p + PGSIZE) = unat p + 4096"
    using Suc.prems(3,5) by (simp add: unat_word_ariths PGSIZE_def)
  have le: "p + PGSIZE \<le> vend" using Suc.prems(3) next_p by (simp add: word_le_nat_alt)
  have p: "page_ok s p" "p \<notin> set ps" using Suc.prems(6) by (simp_all add: pages_from_Suc)
  have fresh: "p \<notin> set (pages_from (p + PGSIZE) n)"
    using in_pages_from [of "p + PGSIZE" n p] next_p Suc.prems(3,5) by auto
  have "\<exists>t. freerange_loop (p + PGSIZE) vend (kfreed p s) = Inr t \<and> kmem_ready c t
     \<and> free_chain t (rev (pages_from (p + PGSIZE) n) @ p # ps) \<and> page_ok t = page_ok (kfreed p s)"
  proof (rule Suc.IH)
    show "free_chain (kfreed p s) (p # ps)" by (rule free_chain_kfreed [OF Suc.prems(2) p])
    show "page_ok (kfreed p s) q \<and> q \<notin> set (p # ps)" if "q \<in> set (pages_from (p + PGSIZE) n)" for q
      using Suc.prems(6) [of q] that fresh by (auto simp: pages_from_Suc frames)
  qed (use Suc.prems next_p in \<open>simp_all add: frames\<close>)
  then show ?case
    by (subst freerange_loop.simps)
      (simp add: le kfree_kfreed [OF Suc.prems(1) p(1)] pages_from_Suc frames)
qed

section \<open>The allocator's contract\<close>

text \<open>\<open>n\<close> allocations one after the other.\<close>

fun alloc_many :: "('s \<Rightarrow> ('p \<times> 's) result) \<Rightarrow> nat \<Rightarrow> 's \<Rightarrow> ('p list \<times> 's) result" where
  "alloc_many alloc 0 s = Inr ([], s)"
| "alloc_many alloc (Suc n) s =
     bnd (alloc s) (\<lambda>(p, s). bnd (alloc_many alloc n s) (\<lambda>(ps, s). Inr (p # ps, s)))"

text \<open>
  What a client of an allocator relies on: \<open>alloc\<close> takes some free object out of the
  pool, or returns \<open>nil\<close> when the pool is empty; \<open>dealloc\<close> puts an object of the
  allocator that is not free back.
\<close>

locale allocator =
  fixes alloc :: "'s \<Rightarrow> ('p \<times> 's) result"
    and dealloc :: "'p \<Rightarrow> 's \<Rightarrow> 's result"
    and owns :: "'s \<Rightarrow> 'p set"
    and pool :: "'s \<Rightarrow> 'p set \<Rightarrow> bool"
    and nil :: 'p
  assumes pool_owned: "pool s F \<Longrightarrow> finite F \<and> F \<subseteq> owns s \<and> nil \<notin> F"
    and alloc_some: "pool s F \<Longrightarrow> F \<noteq> {} \<Longrightarrow>
      \<exists>p t. alloc s = Inr (p, t) \<and> p \<in> F \<and> pool t (F - {p}) \<and> owns t = owns s"
    and alloc_none: "pool s {} \<Longrightarrow> alloc s = Inr (nil, s)"
    and dealloc_pool: "pool s F \<Longrightarrow> p \<in> owns s \<Longrightarrow> p \<notin> F \<Longrightarrow>
      \<exists>t. dealloc p s = Inr t \<and> pool t (insert p F) \<and> owns t = owns s"
begin

lemma alloc_many_fresh:
  "pool s F \<Longrightarrow> n \<le> card F \<Longrightarrow>
   \<exists>ps t. alloc_many alloc n s = Inr (ps, t) \<and> length ps = n \<and> distinct ps \<and> set ps \<subseteq> F
     \<and> pool t (F - set ps) \<and> owns t = owns s"
proof (induction n arbitrary: s F)
  case 0
  then show ?case by auto
next
  case (Suc n)
  then have "F \<noteq> {}" by auto
  with Suc.prems obtain p u where p: "alloc s = Inr (p, u)" "p \<in> F" "pool u (F - {p})" "owns u = owns s"
    using alloc_some by blast
  have "n \<le> card (F - {p})" using Suc.prems p(2) pool_owned by (simp add: card_Diff_singleton)
  from Suc.IH [OF p(3) this] obtain ps t where
    "alloc_many alloc n u = Inr (ps, t)" "length ps = n" "distinct ps" "set ps \<subseteq> F - {p}"
    "pool t (F - {p} - set ps)" "owns t = owns u" by blast
  then show ?case using p
    by (intro exI [of _ "p # ps"] exI [of _ t]) (auto simp: Diff_insert2 [of F p "set ps", symmetric])
qed

lemma alloc_exhausts:
  assumes "pool s F"
  shows "\<exists>ps t. alloc_many alloc (card F) s = Inr (ps, t) \<and> set ps = F \<and> distinct ps \<and> alloc t = Inr (nil, t)"
proof -
  obtain ps t where *: "alloc_many alloc (card F) s = Inr (ps, t)" "length ps = card F" "distinct ps"
    "set ps \<subseteq> F" "pool t (F - set ps)"
    using alloc_many_fresh [OF assms order_refl] by blast
  moreover have "set ps = F"
    using * pool_owned [OF assms] by (metis card_subset_eq distinct_card)
  ultimately show ?thesis using alloc_none by auto
qed

lemma dealloc_alloc:
  assumes "pool s {}" "p \<in> owns s"
  shows "\<exists>t u. dealloc p s = Inr t \<and> alloc t = Inr (p, u) \<and> pool u {}"
proof -
  obtain t where t: "dealloc p s = Inr t" "pool t {p}" using dealloc_pool [OF assms(1,2)] by auto
  with alloc_some [OF t(2)] show ?thesis by auto
qed

end

definition kpool :: "nat \<Rightarrow> 'z kmem_state_scheme \<Rightarrow> uint set \<Rightarrow> bool" where
  "kpool c s F \<longleftrightarrow> kmem_ready c s \<and> (\<exists>ps. free_chain s ps \<and> set ps = F)"

definition kpages :: "'z kmem_state_scheme \<Rightarrow> uint set" where
  "kpages s = {v. page_ok s v}"

interpretation pages: allocator kalloc kfree kpages "kpool c" 0
proof
  fix s :: "'z kmem_state_scheme" and F
  assume "kpool c s F"
  then show "finite F \<and> F \<subseteq> kpages s \<and> 0 \<notin> F"
    using page_ok_nonzero by (auto simp: kpool_def kpages_def free_chain_def)
next
  fix s :: "'z kmem_state_scheme" and F
  assume "kpool c s F" "F \<noteq> {}"
  then obtain p ps where *: "kmem_ready c s" "free_chain s (p # ps)" "F = set (p # ps)"
    by (metis kpool_def list.set(1) neq_Nil_conv)
  then have "set ps = F - {p}" by (auto simp: free_chain_def)
  with * kalloc_chain [OF *(1,2)]
  show "\<exists>p t. kalloc s = Inr (p, t) \<and> p \<in> F \<and> kpool c t (F - {p}) \<and> kpages t = kpages s"
    by (auto simp: kpool_def kpages_def frames)
next
  fix s :: "'z kmem_state_scheme"
  assume "kpool c s {}"
  then show "kalloc s = Inr (0, s)" using kalloc_empty by (auto simp: kpool_def)
next
  fix s :: "'z kmem_state_scheme" and F v
  assume a: "kpool c s F" "v \<in> kpages s" "v \<notin> F"
  then have "kfree v s = Inr (kfreed v s)" using kfree_kfreed by (auto simp: kpool_def kpages_def)
  moreover have "kpool c (kfreed v s) (insert v F)"
    using a free_chain_kfreed by (fastforce simp: kpool_def kpages_def frames)
  moreover have "kpages (kfreed v s) = kpages s" by (simp add: kpages_def frames)
  ultimately show "\<exists>t. kfree v s = Inr t \<and> kpool c t (insert v F) \<and> kpages t = kpages s" by blast
qed

section \<open>Properties\<close>

lemma PGROUNDDOWN_aligned: "PGROUNDDOWN a mod PGSIZE = 0"
proof -
  have "PGROUNDDOWN a AND mask 12 = 0"
    by (simp add: PGROUNDDOWN_def PGSIZE_def mask_eq_exp_minus_1 and.assoc)
  then show ?thesis by (simp add: PGSIZE_def take_bit_eq_mask [symmetric] take_bit_eq_mod)
qed

lemma PGROUNDUP_aligned: "PGROUNDUP a mod PGSIZE = 0"
  using PGROUNDDOWN_aligned [of "a + PGSIZE - 1"] by (simp add: PGROUNDUP_def PGROUNDDOWN_def)

definition boot_memory :: kmem_state where
  "boot_memory = machine.extend one_cpu
     \<lparr>mem = (\<lambda>_. 0), kend = 0x80115000, kdata = 0x80108000, use_lock = False, freelist = 0\<rparr>"

lemma boot_memory_ready: "kmem_ready 0 boot_memory" "free_chain boot_memory []"
  by (simp_all add: boot_memory_def one_cpu_def machine.defs kmem_ready_def cpu_ok_def this_cpu_def
      free_chain_def)

text \<open>C14. The allocator hands out exactly the pages it was given, each once: after \<open>freerange\<close>
  on a range of \<open>n\<close> whole pages above the kernel and below \<open>PHYSTOP\<close>, \<open>n\<close> calls of \<open>kalloc\<close>
  return these pages in some order without repeating one, and the next call returns 0.\<close>
theorem freerange_kalloc_all:
  assumes "kmem_ready c s" "free_chain s []"
    and "kend s \<le> PGROUNDUP vstart" "KERNBASE \<le> PGROUNDUP vstart"
    and "unat (PGROUNDUP vstart) + n * 4096 \<le> unat vend"
    and "unat vend < unat (PGROUNDUP vstart) + (n + 1) * 4096"
    and "unat vend \<le> unat KERNBASE + unat PHYSTOP"
  shows "\<exists>t ps u. freerange vstart vend s = Inr t \<and> alloc_many kalloc n t = Inr (ps, u)
    \<and> distinct ps \<and> set ps = set (pages_from (PGROUNDUP vstart) n) \<and> kalloc u = Inr (0, u)"
proof -
  let ?p = "PGROUNDUP vstart"
  have pages: "page_ok s q" if q: "q \<in> set (pages_from ?p n)" for q
  proof -
    obtain k where k: "k < n" "unat q = unat ?p + k * 4096"
      using in_pages_from [OF _ q] assms(5,7) by (auto simp: layout_defs)
    then have "unat q + 4096 \<le> unat vend" using assms(5) by simp
    moreover have "q mod PGSIZE = 0" using k PGROUNDUP_aligned [of vstart] by (simp add: page_aligned)
    ultimately show ?thesis using k assms
      by (auto simp: page_ok_def word_le_nat_alt word_less_nat_alt V2P_def layout_defs
          unat_sub_if')
  qed
  obtain t where t: "freerange_loop ?p vend s = Inr t" "kmem_ready c t"
    "free_chain t (rev (pages_from ?p n))"
    using freerange_loop_chain [OF assms(1,2,5,6)] pages assms(7) by (auto simp: layout_defs)
  have pool: "kpool c t (set (pages_from ?p n))" using t by (auto simp: kpool_def)
  have "card (set (pages_from ?p n)) = n"
    using t(3) distinct_card [of "pages_from ?p n"] by (simp add: free_chain_def pages_from_def)
  with pages.alloc_exhausts [OF pool] t(1) show ?thesis by (simp add: freerange_def) blast
qed

theorem freerange_kalloc_all_witness:
  "\<exists>t ps u. freerange 0x80115004 0x80119000 boot_memory = Inr t \<and> alloc_many kalloc 3 t = Inr (ps, u)
    \<and> distinct ps \<and> set ps = set (pages_from (PGROUNDUP 0x80115004) 3) \<and> kalloc u = Inr (0, u)"
proof (rule freerange_kalloc_all [OF boot_memory_ready])
  have "PGROUNDUP 0x80115004 = 0x80116000" by (simp add: PGROUNDUP_def PGSIZE_def)
  then show "kend boot_memory \<le> PGROUNDUP 0x80115004" "KERNBASE \<le> PGROUNDUP 0x80115004"
    "unat (PGROUNDUP 0x80115004) + 3 * 4096 \<le> unat (0x80119000 :: uint)"
    "unat (0x80119000 :: uint) < unat (PGROUNDUP 0x80115004) + (3 + 1) * 4096"
    by (simp_all add: boot_memory_def machine.defs layout_defs)
  show "unat (0x80119000 :: uint) \<le> unat KERNBASE + unat PHYSTOP" by (simp add: layout_defs)
qed

text \<open>\<open>kfree\<close> rejects every address that is not a page of the allocator: not aligned, below
  the end of the kernel, or at or above \<open>PHYSTOP\<close>; on a page that is not already free it puts the
  page at the head of the free list, and memory outside the page is untouched.\<close>
theorem kfree_cases:
  assumes "kmem_ready c s" "free_chain s ps" "v \<notin> set ps"
  shows "if page_ok s v
     then \<exists>t. kfree v s = Inr t \<and> free_chain t (v # ps) \<and> (\<forall>a. in_range v 4096 a \<or> mem t a = mem s a)
     else kfree v s = Inl (Panic ''kfree'')"
  using kfree_kfreed [OF assms(1)] free_chain_kfreed [OF assms(2) _ assms(3)] kfreed_mem_outside
    kfree_panic by (cases "page_ok s v") (simp_all, blast)

theorem kfree_cases_witness:
  "(\<exists>t. kfree 0x80200000 boot_memory = Inr t \<and> free_chain t [0x80200000])
    \<and> kfree 0x80200010 boot_memory = Inl (Panic ''kfree'')"
proof -
  have "page_ok boot_memory 0x80200000" "\<not> page_ok boot_memory 0x80200010"
    by (simp_all add: page_ok_def boot_memory_def machine.defs layout_defs V2P_def)
  then show ?thesis
    using kfree_cases [OF boot_memory_ready, where v = "0x80200000"] kfree_cases [OF boot_memory_ready, where v = "0x80200010"]
    by auto
qed

end
