(* ===== verification/Vm.thy ===== *)
theory Vm
  imports Kalloc
begin

text \<open>
  Page tables, as \<open>vm.c\<close> builds them in the pages of the allocator. A page directory and
  its page tables are bytes of \<open>mem\<close>; memory is addressed by kernel virtual address, at
  which all physical memory is mapped. The segment descriptors and the task state that
  \<open>switchuvm\<close> fills per CPU are typed fields.
\<close>

section \<open>Segments and task state (\<open>mmu.h\<close>)\<close>

record segdesc =
  lim_15_0 :: uint
  base_15_0 :: uint
  base_23_16 :: uint
  type :: uint
  sysbit :: uint
  dpl :: uint
  present :: uint
  lim_19_16 :: uint
  avl :: uint
  rsv1 :: uint
  db :: uint
  gran :: uint
  base_31_24 :: uint

definition SEG :: "uint \<Rightarrow> uint \<Rightarrow> uint \<Rightarrow> uint \<Rightarrow> segdesc" where
  "SEG ty bs lim pl = \<lparr>lim_15_0 = drop_bit 12 lim AND 0xffff, base_15_0 = bs AND 0xffff,
     base_23_16 = drop_bit 16 bs AND 0xff, type = ty, sysbit = 1, dpl = pl, present = 1,
     lim_19_16 = drop_bit 28 lim, avl = 0, rsv1 = 0, db = 1, gran = 1, base_31_24 = drop_bit 24 bs\<rparr>"

definition SEG16 :: "uint \<Rightarrow> uint \<Rightarrow> uint \<Rightarrow> uint \<Rightarrow> segdesc" where
  "SEG16 ty bs lim pl = \<lparr>lim_15_0 = lim AND 0xffff, base_15_0 = bs AND 0xffff,
     base_23_16 = drop_bit 16 bs AND 0xff, type = ty, sysbit = 1, dpl = pl, present = 1,
     lim_19_16 = drop_bit 16 lim, avl = 0, rsv1 = 0, db = 1, gran = 0, base_31_24 = drop_bit 24 bs\<rparr>"

definition SEG_KCODE :: nat where "SEG_KCODE = 1"
definition SEG_KDATA :: nat where "SEG_KDATA = 2"
definition SEG_UCODE :: nat where "SEG_UCODE = 3"
definition SEG_UDATA :: nat where "SEG_UDATA = 4"
definition SEG_TSS :: nat where "SEG_TSS = 5"
definition NSEGS :: nat where "NSEGS = 6"
definition STA_X :: uint where "STA_X = 8"
definition STA_W :: uint where "STA_W = 2"
definition STA_R :: uint where "STA_R = 2"
definition STS_T32A :: uint where "STS_T32A = 9"
definition DPL_USER :: uint where "DPL_USER = 3"

record taskstate =
  ss0 :: uint
  esp0 :: uint
  iomb :: uint

text \<open>
  \<open>ts_addr\<close> is the address of the task state of a CPU in the kernel's data, \<open>cr3\<close>, \<open>tr\<close>
  and \<open>gdtr\<close> are registers of the executing CPU.
\<close>

record vm_state = kmem_state +
  kpgdir :: uint
  cr3 :: uint
  tr :: uint
  gdtr :: "nat \<times> uint"
  gdt :: "nat \<Rightarrow> nat \<Rightarrow> segdesc"
  ts :: "nat \<Rightarrow> taskstate"
  ts_addr :: "nat \<Rightarrow> uint"

definition KSTACKSIZE :: uint where "KSTACKSIZE = 4096"

definition lcr3 :: "uint \<Rightarrow> 'z vm_state_scheme \<Rightarrow> 'z vm_state_scheme" where
  "lcr3 v s = s\<lparr>cr3 := v\<rparr>"

definition ltr :: "uint \<Rightarrow> 'z vm_state_scheme \<Rightarrow> 'z vm_state_scheme" where
  "ltr sel s = s\<lparr>tr := sel\<rparr>"

text \<open>The register for the descriptor table: the CPU whose table it is, and the limit.\<close>

definition lgdt :: "nat \<Rightarrow> uint \<Rightarrow> 'z vm_state_scheme \<Rightarrow> 'z vm_state_scheme" where
  "lgdt c sz s = s\<lparr>gdtr := (c, sz - 1)\<rparr>"

definition set_gdt :: "nat \<Rightarrow> nat \<Rightarrow> segdesc \<Rightarrow> 'z vm_state_scheme \<Rightarrow> 'z vm_state_scheme" where
  "set_gdt c i d s = s\<lparr>gdt := (gdt s)(c := (gdt s c)(i := d))\<rparr>"

definition seginit :: "'z vm_state_scheme \<Rightarrow> 'z vm_state_scheme result" where
  "seginit s =
     bnd (cpuid s) (\<lambda>c.
     let s = set_gdt c SEG_KCODE (SEG (STA_X OR STA_R) 0 0xffffffff 0) s;
         s = set_gdt c SEG_KDATA (SEG STA_W 0 0xffffffff 0) s;
         s = set_gdt c SEG_UCODE (SEG (STA_X OR STA_R) 0 0xffffffff DPL_USER) s;
         s = set_gdt c SEG_UDATA (SEG STA_W 0 0xffffffff DPL_USER) s in
     Inr (lgdt c (8 * of_nat NSEGS) s))"

section \<open>Page table entries\<close>

definition PTE_P :: uint where "PTE_P = 1"
definition PTE_W :: uint where "PTE_W = 2"
definition PTE_U :: uint where "PTE_U = 4"
definition NPDENTRIES :: nat where "NPDENTRIES = 1024"

definition PDX :: "uint \<Rightarrow> uint" where "PDX va = drop_bit 22 va AND 0x3FF"
definition PTX :: "uint \<Rightarrow> uint" where "PTX va = drop_bit 12 va AND 0x3FF"
definition PGADDR :: "uint \<Rightarrow> uint \<Rightarrow> uint \<Rightarrow> uint" where
  "PGADDR d t oset = push_bit 22 d OR push_bit 12 t OR oset"
definition PTE_ADDR :: "uint \<Rightarrow> uint" where "PTE_ADDR pte = pte AND NOT 0xFFF"
definition PTE_FLAGS :: "uint \<Rightarrow> uint" where "PTE_FLAGS pte = pte AND 0xFFF"

text \<open>The address of entry \<open>i\<close> of an array of \<open>uint\<close> at \<open>a\<close>.\<close>

definition entry_at :: "uint \<Rightarrow> uint \<Rightarrow> uint" where
  "entry_at a i = a + 4 * i"

definition walkpgdir :: "uint \<Rightarrow> uint \<Rightarrow> bool \<Rightarrow> 'z kmem_state_scheme \<Rightarrow> (uint \<times> 'z kmem_state_scheme) result" where
  "walkpgdir pgdir va alloc s =
     (let pde = entry_at pgdir (PDX va) in
      if read32 (mem s) pde AND PTE_P \<noteq> 0 then
        let pgtab = P2V (PTE_ADDR (read32 (mem s) pde)) in Inr (entry_at pgtab (PTX va), s)
      else if \<not> alloc then Inr (0, s)
      else
        bnd (kalloc s) (\<lambda>(pgtab, s).
        if pgtab = 0 then Inr (0, s)
        else
          let s = s\<lparr>mem := memset (mem s) pgtab 0 PGSIZE\<rparr>;
              s = s\<lparr>mem := write32 (mem s) pde (V2P pgtab OR PTE_P OR PTE_W OR PTE_U)\<rparr> in
          Inr (entry_at pgtab (PTX va), s)))"

text \<open>
  The loop of \<open>mappages\<close> steps from page to page until it is at \<open>last\<close>. Both are page
  aligned, so it is there after \<open>(last_a - a) / PGSIZE\<close> steps, the fuel it is given.
\<close>

fun mappages_loop ::
  "nat \<Rightarrow> uint \<Rightarrow> uint \<Rightarrow> uint \<Rightarrow> uint \<Rightarrow> uint \<Rightarrow> 'z kmem_state_scheme \<Rightarrow> (int \<times> 'z kmem_state_scheme) result"
where
  "mappages_loop fuel pgdir a last_a pa perm s =
     bnd (walkpgdir pgdir a True s) (\<lambda>(pte, s).
     if pte = 0 then Inr (- 1, s)
     else if read32 (mem s) pte AND PTE_P \<noteq> 0 then Inl (Panic ''remap'')
     else
       let s = s\<lparr>mem := write32 (mem s) pte (pa OR perm OR PTE_P)\<rparr> in
       if a = last_a then Inr (0, s)
       else case fuel of
              0 \<Rightarrow> Inl Spin
            | Suc n \<Rightarrow> mappages_loop n pgdir (a + PGSIZE) last_a (pa + PGSIZE) perm s)"

declare mappages_loop.simps [simp del]

definition mappages ::
  "uint \<Rightarrow> uint \<Rightarrow> uint \<Rightarrow> uint \<Rightarrow> uint \<Rightarrow> 'z kmem_state_scheme \<Rightarrow> (int \<times> 'z kmem_state_scheme) result"
where
  "mappages pgdir va sz pa perm s =
     (let a = PGROUNDDOWN va; last_a = PGROUNDDOWN (va + sz - 1) in
      mappages_loop (unat ((last_a - a) div PGSIZE)) pgdir a last_a pa perm s)"

section \<open>Address spaces\<close>

text \<open>
  A loop \<open>for (; a < lim; a += PGSIZE)\<close> whose pointer passes the end of the address space
  starts over at 0 and does not end. No caller passes a limit above \<open>KERNBASE\<close>.
\<close>

lemma page_step: "a \<le> a + PGSIZE \<Longrightarrow> unat (a + PGSIZE) = unat a + 4096"
proof -
  assume "a \<le> a + PGSIZE"
  then have "unat (a + PGSIZE) = unat a + unat PGSIZE" by (simp add: unat_plus_simple)
  then show ?thesis by (simp add: PGSIZE_def)
qed

text \<open>
  When the page directory has no table for \<open>a\<close>, the pointer moves to the last page the table
  would map: the next step is the first address of the next directory entry.
\<close>

definition dealloc_next :: "uint \<Rightarrow> uint" where
  "dealloc_next a = PGADDR (PDX a + 1) 0 0 - PGSIZE"

function deallocuvm_loop ::
  "uint \<Rightarrow> uint \<Rightarrow> uint \<Rightarrow> 'z kmem_state_scheme \<Rightarrow> 'z kmem_state_scheme result"
where
  "deallocuvm_loop pgdir a oldsz s =
     (if a < oldsz then
        bnd (walkpgdir pgdir a False s) (\<lambda>(pte, s).
        let a' = (if pte = 0 then dealloc_next a else a) in
        bnd (if pte \<noteq> 0 \<and> read32 (mem s) pte AND PTE_P \<noteq> 0 then
               let pa = PTE_ADDR (read32 (mem s) pte) in
               if pa = 0 then Inl (Panic ''kfree'')
               else bnd (kfree (P2V pa) s) (\<lambda>s. Inr (s\<lparr>mem := write32 (mem s) pte 0\<rparr>))
             else Inr s) (\<lambda>s.
        if a' + PGSIZE \<le> a then Inl Spin else deallocuvm_loop pgdir (a' + PGSIZE) oldsz s))
      else Inr s)"
  by pat_completeness auto
termination
  by (relation "measure (\<lambda>(pgdir, a, oldsz, s). 2 ^ 32 - unat a)")
    (auto simp: word_le_nat_alt not_le intro!: diff_less_mono2 unat_uint_less [simplified])

declare deallocuvm_loop.simps [simp del]

definition deallocuvm ::
  "uint \<Rightarrow> uint \<Rightarrow> uint \<Rightarrow> 'z kmem_state_scheme \<Rightarrow> (uint \<times> 'z kmem_state_scheme) result"
where
  "deallocuvm pgdir oldsz newsz s =
     (if oldsz \<le> newsz then Inr (oldsz, s)
      else bnd (deallocuvm_loop pgdir (PGROUNDUP newsz) oldsz s) (\<lambda>s. Inr (newsz, s)))"

definition freevm_entry :: "uint \<Rightarrow> nat \<Rightarrow> 'z kmem_state_scheme \<Rightarrow> 'z kmem_state_scheme result" where
  "freevm_entry pgdir i s =
     (let e = read32 (mem s) (entry_at pgdir (of_nat i)) in
      if e AND PTE_P \<noteq> 0 then kfree (P2V (PTE_ADDR e)) s else Inr s)"

definition freevm :: "uint \<Rightarrow> 'z kmem_state_scheme \<Rightarrow> 'z kmem_state_scheme result" where
  "freevm pgdir s =
     (if pgdir = 0 then Inl (Panic ''freevm: no pgdir'')
      else
        bnd (deallocuvm pgdir KERNBASE 0 s) (\<lambda>(_, s).
        bnd (for_each (freevm_entry pgdir) [0..<NPDENTRIES] s) (\<lambda>s.
        kfree pgdir s)))"

text \<open>The kernel's mappings: virtual start, physical start and end, permissions.\<close>

definition kmap :: "'z kmem_state_scheme \<Rightarrow> (uint \<times> uint \<times> uint \<times> uint) list" where
  "kmap s = [
     (KERNBASE, 0, EXTMEM, PTE_W),
     (KERNLINK, V2P KERNLINK, V2P (kdata s), 0),
     (kdata s, V2P (kdata s), PHYSTOP, PTE_W),
     (DEVSPACE, DEVSPACE, 0, PTE_W)]"

fun setupkvm_loop ::
  "uint \<Rightarrow> (uint \<times> uint \<times> uint \<times> uint) list \<Rightarrow> 'z kmem_state_scheme \<Rightarrow> (uint \<times> 'z kmem_state_scheme) result"
where
  "setupkvm_loop pgdir [] s = Inr (pgdir, s)"
| "setupkvm_loop pgdir ((virt, phys_start, phys_end, perm) # ks) s =
     bnd (mappages pgdir virt (phys_end - phys_start) phys_start perm s) (\<lambda>(r, s).
     if r < 0 then bnd (freevm pgdir s) (\<lambda>s. Inr (0, s))
     else setupkvm_loop pgdir ks s)"

definition setupkvm :: "'z kmem_state_scheme \<Rightarrow> (uint \<times> 'z kmem_state_scheme) result" where
  "setupkvm s =
     bnd (kalloc s) (\<lambda>(pgdir, s).
     if pgdir = 0 then Inr (0, s)
     else
       let s = s\<lparr>mem := memset (mem s) pgdir 0 PGSIZE\<rparr> in
       if DEVSPACE < P2V PHYSTOP then Inl (Panic ''PHYSTOP too high'')
       else setupkvm_loop pgdir (kmap s) s)"

definition switchkvm :: "'z vm_state_scheme \<Rightarrow> 'z vm_state_scheme" where
  "switchkvm s = lcr3 (V2P (kpgdir s)) s"

definition kvmalloc :: "'z vm_state_scheme \<Rightarrow> 'z vm_state_scheme result" where
  "kvmalloc s = bnd (setupkvm s) (\<lambda>(d, s). Inr (switchkvm (s\<lparr>kpgdir := d\<rparr>)))"

text \<open>\<open>switchuvm\<close> reads two fields of the process, its kernel stack and its page directory.\<close>

definition switchuvm :: "(uint \<times> uint) option \<Rightarrow> 'z vm_state_scheme \<Rightarrow> 'z vm_state_scheme result" where
  "switchuvm p s =
     (case p of
        None \<Rightarrow> Inl (Panic ''switchuvm: no process'')
      | Some (kst, pgd) \<Rightarrow>
          if kst = 0 then Inl (Panic ''switchuvm: no kstack'')
          else if pgd = 0 then Inl (Panic ''switchuvm: no pgdir'')
          else
            bnd (pushcli s) (\<lambda>s.
            bnd (mycpu s) (\<lambda>c.
            let s = set_gdt c SEG_TSS (SEG16 STS_T32A (ts_addr s c) (104 - 1) 0) s;
                s = set_gdt c SEG_TSS ((gdt s c SEG_TSS)\<lparr>sysbit := 0\<rparr>) s;
                s = s\<lparr>ts := (ts s)(c := \<lparr>ss0 = push_bit 3 (of_nat SEG_KDATA), esp0 = kst + KSTACKSIZE,
                                         iomb = 0xFFFF\<rparr>)\<rparr>;
                s = ltr (push_bit 3 (of_nat SEG_TSS)) s;
                s = lcr3 (V2P pgd) s in
            popcli s)))"

text \<open>The bytes of an object the kernel copies from, laid down at an address.\<close>

fun put_bytes :: "memory \<Rightarrow> uint \<Rightarrow> uchar list \<Rightarrow> memory" where
  "put_bytes m a [] = m"
| "put_bytes m a (b # bs) = put_bytes (m(a := b)) (a + 1) bs"

definition inituvm :: "uint \<Rightarrow> uchar list \<Rightarrow> uint \<Rightarrow> 'z kmem_state_scheme \<Rightarrow> 'z kmem_state_scheme result" where
  "inituvm pgdir initcode sz s =
     (if PGSIZE \<le> sz then Inl (Panic ''inituvm: more than a page'')
      else
        bnd (kalloc s) (\<lambda>(m, s).
        if m = 0 then Inl (Fault ''memset(mem, 0, PGSIZE)'')
        else
        let s = s\<lparr>mem := memset (mem s) m 0 PGSIZE\<rparr> in
        bnd (mappages pgdir 0 PGSIZE (V2P m) (PTE_W OR PTE_U) s) (\<lambda>(_, s).
        Inr (s\<lparr>mem := put_bytes (mem s) m (take (unat sz) initcode)\<rparr>))))"

function allocuvm_loop ::
  "uint \<Rightarrow> uint \<Rightarrow> uint \<Rightarrow> uint \<Rightarrow> 'z kmem_state_scheme \<Rightarrow> (uint \<times> 'z kmem_state_scheme) result"
where
  "allocuvm_loop pgdir a oldsz newsz s =
     (if a < newsz then
        bnd (kalloc s) (\<lambda>(m, s).
        if m = 0 then bnd (deallocuvm pgdir newsz oldsz s) (\<lambda>(_, s). Inr (0, s))
        else
          let s = s\<lparr>mem := memset (mem s) m 0 PGSIZE\<rparr> in
          bnd (mappages pgdir a PGSIZE (V2P m) (PTE_W OR PTE_U) s) (\<lambda>(r, s).
          if r < 0 then
            bnd (deallocuvm pgdir newsz oldsz s) (\<lambda>(_, s).
            bnd (kfree m s) (\<lambda>s. Inr (0, s)))
          else if a + PGSIZE \<le> a then Inl Spin
          else allocuvm_loop pgdir (a + PGSIZE) oldsz newsz s))
      else Inr (newsz, s))"
  by pat_completeness auto
termination
  by (relation "measure (\<lambda>(pgdir, a, oldsz, newsz, s). 2 ^ 32 - unat a)")
    (auto simp: word_le_nat_alt not_le intro!: diff_less_mono2 unat_uint_less [simplified])

declare allocuvm_loop.simps [simp del]

definition allocuvm ::
  "uint \<Rightarrow> uint \<Rightarrow> uint \<Rightarrow> 'z kmem_state_scheme \<Rightarrow> (uint \<times> 'z kmem_state_scheme) result"
where
  "allocuvm pgdir oldsz newsz s =
     (if KERNBASE \<le> newsz then Inr (0, s)
      else if newsz < oldsz then Inr (oldsz, s)
      else allocuvm_loop pgdir (PGROUNDUP oldsz) oldsz newsz s)"

definition clearpteu :: "uint \<Rightarrow> uint \<Rightarrow> 'z kmem_state_scheme \<Rightarrow> 'z kmem_state_scheme result" where
  "clearpteu pgdir uva s =
     bnd (walkpgdir pgdir uva False s) (\<lambda>(pte, s).
     if pte = 0 then Inl (Panic ''clearpteu'')
     else Inr (s\<lparr>mem := write32 (mem s) pte (read32 (mem s) pte AND NOT PTE_U)\<rparr>))"

function copyuvm_loop ::
  "uint \<Rightarrow> uint \<Rightarrow> uint \<Rightarrow> uint \<Rightarrow> 'z kmem_state_scheme \<Rightarrow> (uint \<times> 'z kmem_state_scheme) result"
where
  "copyuvm_loop pgdir d i sz s =
     (if i < sz then
        bnd (walkpgdir pgdir i False s) (\<lambda>(pte, s).
        if pte = 0 then Inl (Panic ''copyuvm: pte should exist'')
        else if read32 (mem s) pte AND PTE_P = 0 then Inl (Panic ''copyuvm: page not present'')
        else
          let pa = PTE_ADDR (read32 (mem s) pte); flags = PTE_FLAGS (read32 (mem s) pte) in
          bnd (kalloc s) (\<lambda>(m, s).
          if m = 0 then bnd (freevm d s) (\<lambda>s. Inr (0, s))
          else
            let s = s\<lparr>mem := memmove (mem s) m (P2V pa) PGSIZE\<rparr> in
            bnd (mappages d i PGSIZE (V2P m) flags s) (\<lambda>(r, s).
            if r < 0 then bnd (freevm d s) (\<lambda>s. Inr (0, s))
            else if i + PGSIZE \<le> i then Inl Spin
            else copyuvm_loop pgdir d (i + PGSIZE) sz s)))
      else Inr (d, s))"
  by pat_completeness auto
termination
  by (relation "measure (\<lambda>(pgdir, d, i, sz, s). 2 ^ 32 - unat i)")
    (auto simp: word_le_nat_alt not_le intro!: diff_less_mono2 unat_uint_less [simplified])

declare copyuvm_loop.simps [simp del]

definition copyuvm :: "uint \<Rightarrow> uint \<Rightarrow> 'z kmem_state_scheme \<Rightarrow> (uint \<times> 'z kmem_state_scheme) result" where
  "copyuvm pgdir sz s =
     bnd (setupkvm s) (\<lambda>(d, s). if d = 0 then Inr (0, s) else copyuvm_loop pgdir d 0 sz s)"

text \<open>The entry is read without a test that \<open>walkpgdir\<close> found one.\<close>

definition uva2ka :: "uint \<Rightarrow> uint \<Rightarrow> 'z kmem_state_scheme \<Rightarrow> (uint \<times> 'z kmem_state_scheme) result" where
  "uva2ka pgdir uva s =
     bnd (walkpgdir pgdir uva False s) (\<lambda>(pte, s).
     if pte = 0 then Inl (Fault ''*pte'')
     else if read32 (mem s) pte AND PTE_P = 0 then Inr (0, s)
     else if read32 (mem s) pte AND PTE_U = 0 then Inr (0, s)
     else Inr (P2V (PTE_ADDR (read32 (mem s) pte)), s))"

lemma page_offset: "a - PGROUNDDOWN a = take_bit 12 a"
proof -
  have "(a AND NOT (mask 12)) + take_bit 12 a = (a AND NOT (mask 12)) OR take_bit 12 a"
    by (rule disjunctive_add_eq_or) (auto simp: bit_eq_iff bit_simps)
  also have "\<dots> = a" by (auto simp: bit_eq_iff bit_simps)
  finally show ?thesis
    by (simp add: PGROUNDDOWN_def PGSIZE_def mask_eq_exp_minus_1 algebra_simps)
qed

lemma page_offset_less: "unat (a - PGROUNDDOWN a) < 4096"
  by (simp add: page_offset take_bit_eq_mod unat_mod)

function copyout :: "uint \<Rightarrow> uint \<Rightarrow> uchar list \<Rightarrow> uint \<Rightarrow> 'z kmem_state_scheme \<Rightarrow> (int \<times> 'z kmem_state_scheme) result" where
  "copyout pgdir va buf len s =
     (if 0 < len then
        let va0 = PGROUNDDOWN va in
        bnd (uva2ka pgdir va0 s) (\<lambda>(pa0, s).
        if pa0 = 0 then Inr (- 1, s)
        else
          let n = PGSIZE - (va - va0); n = (if len < n then len else n);
              s = s\<lparr>mem := put_bytes (mem s) (pa0 + (va - va0)) (take (unat n) buf)\<rparr> in
          copyout pgdir (va0 + PGSIZE) (drop (unat n) buf) (len - n) s)
      else Inr (0, s))"
  by pat_completeness auto
termination
proof (relation "measure (\<lambda>(pgdir, va, buf, len, s). unat len)", simp, goal_cases)
  case (1 pgdir va buf len s va0 x pa0 s' n0 n s'')
  have "unat (va - PGROUNDDOWN va) < 4096" by (rule page_offset_less)
  then have "0 < PGSIZE - (va - PGROUNDDOWN va)"
    by (simp add: PGSIZE_def word_less_nat_alt unat_sub_if')
  then have "0 < n" "n \<le> len" using 1 by (auto split: if_splits)
  then show ?case by (simp add: word_less_nat_alt word_le_nat_alt unat_sub_if')
qed

declare copyout.simps [simp del]

section \<open>Loading an address space\<close>

definition uvm_loaded :: "nat \<Rightarrow> uint \<Rightarrow> uint \<Rightarrow> 'z vm_state_scheme \<Rightarrow> 'z vm_state_scheme" where
  "uvm_loaded c kst pgd s = s\<lparr>cr3 := V2P pgd, tr := push_bit 3 (of_nat SEG_TSS),
     gdt := (gdt s)(c := (gdt s c)(SEG_TSS := (SEG16 STS_T32A (ts_addr s c) (104 - 1) 0)\<lparr>sysbit := 0\<rparr>)),
     ts := (ts s)(c := \<lparr>ss0 = push_bit 3 (of_nat SEG_KDATA), esp0 = kst + KSTACKSIZE, iomb = 0xFFFF\<rparr>)\<rparr>"

lemma switchuvm_eq:
  assumes "cpu_ok c s" "kst \<noteq> 0" "pgd \<noteq> 0"
  shows "switchuvm (Some (kst, pgd)) s = Inr (uvm_loaded c kst pgd s)"
proof -
  have t: "this_cpu s = Some c" and n: "0 \<le> ncli (cpus s c)" using assms(1) by (simp_all add: cpu_ok_def)
  let ?v = "(cpus s c)\<lparr>intena := (if ncli (cpus s c) = 0 then int_flag s else intena (cpus s c)),
              ncli := ncli (cpus s c) + 1\<rparr>"
  let ?a = "s\<lparr>int_flag := False, cpus := (cpus s)(c := ?v)\<rparr>"
  have ta: "this_cpu ?a = Some c" using t by (subst this_cpu_cong [of _ s]) simp_all
  let ?b = "?a\<lparr>gdt := (gdt s)(c := (gdt s c)(SEG_TSS := (SEG16 STS_T32A (ts_addr s c) (104 - 1) 0)\<lparr>sysbit := 0\<rparr>)),
     ts := (ts s)(c := \<lparr>ss0 = push_bit 3 (of_nat SEG_KDATA), esp0 = kst + KSTACKSIZE, iomb = 0xFFFF\<rparr>),
     tr := push_bit 3 (of_nat SEG_TSS), cr3 := V2P pgd\<rparr>"
  have tb: "this_cpu ?b = Some c" using ta by (subst this_cpu_cong [of _ ?a]) simp_all
  have "switchuvm (Some (kst, pgd)) s = popcli ?b"
    using assms(2,3) mycpu_this [OF ta]
    by (simp add: switchuvm_def pushcli_eq [OF t] set_gdt_def ltr_def lcr3_def Let_def)
  also have "\<dots> = Inr (uvm_loaded c kst pgd s)"
  proof -
    have "(cpus s)(c := ?v\<lparr>ncli := ncli (cpus s c)\<rparr>) = cpus s" using assms(1) by (auto simp: cpu_ok_def)
    then show ?thesis using n assms(1)
      by (subst popcli_eq [OF tb]) (auto simp: uvm_loaded_def cpu_ok_def intro!: vm_state.equality)
  qed
  finally show ?thesis .
qed

end
