(* ===== verification/Pagetable.thy ===== *)
theory Pagetable
  imports Vm
begin

text \<open>
  What the page tables of \<open>vm.c\<close> mean. A page directory and its tables are bytes in pages of the
  allocator; \<open>ent\<close> reads the entry for a virtual address from them. Mapping pages changes exactly the
  entries of these pages, whatever tables have to be allocated for them, and copying an address
  space gives one with equal contents in pages of its own.
\<close>

section \<open>Pages of memory\<close>

abbreviation aligned :: "uint \<Rightarrow> bool" where "aligned p \<equiv> p mod PGSIZE = 0"

lemma in_page:
  assumes "aligned v"
  shows "in_range v 4096 a \<longleftrightarrow> PGROUNDDOWN a = v"
proof
  have self: "in_range (PGROUNDDOWN a) 4096 a" using page_offset_less by (simp add: in_range_def)
  show "in_range v 4096 a" if "PGROUNDDOWN a = v" using self that by simp
  assume r: "in_range v 4096 a"
  show "PGROUNDDOWN a = v"
  proof (rule ccontr)
    assume "PGROUNDDOWN a \<noteq> v"
    then have "\<not> in_range (PGROUNDDOWN a) 4096 (v + of_nat (unat (a - v)))"
      using assms r PGROUNDDOWN_aligned [of a] by (intro aligned_offset_not_in_page) (auto simp: page_aligned in_range_def)
    with self show False by simp
  qed
qed

lemma page_of_offset: "aligned d \<Longrightarrow> n < 4096 \<Longrightarrow> PGROUNDDOWN (d + of_nat n) = d"
  by (simp add: in_page [symmetric] in_range_def unat_of_nat take_bit_eq_mod)

lemma page_self: "aligned d \<Longrightarrow> PGROUNDDOWN d = d"
  using page_of_offset [of d 0] by simp

text \<open>Memory that is unchanged outside some pages.\<close>

definition same_outside :: "uint set \<Rightarrow> memory \<Rightarrow> memory \<Rightarrow> bool" where
  "same_outside S m m' \<longleftrightarrow> (\<forall>a. PGROUNDDOWN a \<notin> S \<longrightarrow> m' a = m a)"

lemma same_outside_refl [simp]: "same_outside S m m"
  by (simp add: same_outside_def)

lemma same_outside_trans: "same_outside S m m' \<Longrightarrow> same_outside T m' m'' \<Longrightarrow> S \<union> T \<subseteq> U \<Longrightarrow> same_outside U m m''"
  unfolding same_outside_def by (metis UnCI subsetD)

lemma same_outside_mono: "same_outside S m m' \<Longrightarrow> S \<subseteq> U \<Longrightarrow> same_outside U m m'"
  by (auto simp: same_outside_def)

section \<open>Entries\<close>

definition rd :: "memory \<Rightarrow> uint \<Rightarrow> uint \<Rightarrow> uint" where
  "rd m d i = read32 m (entry_at d i)"

lemma entry_byte: "i < 1024 \<Longrightarrow> k < 4 \<Longrightarrow> entry_at d i + k = d + of_nat (4 * unat i + unat k) \<and> 4 * unat i + unat k < 4096"
  by (simp add: entry_at_def word_less_nat_alt)

lemma entry_page: "aligned d \<Longrightarrow> i < 1024 \<Longrightarrow> k < 4 \<Longrightarrow> PGROUNDDOWN (entry_at d i + k) = d"
  by (metis entry_byte page_of_offset)

lemma rd_cong:
  assumes "aligned d" "i < 1024" "\<And>a. PGROUNDDOWN a = d \<Longrightarrow> m' a = m a"
  shows "rd m' d i = rd m d i"
  unfolding rd_def by (rule read32_cong) (use entry_page [OF assms(1,2)] assms(3) in auto)

lemma write_entry_outside:
  assumes "aligned d" "i < 1024"
  shows "same_outside {d} m (write32 m (entry_at d i) v)"
proof -
  have "write32 m (entry_at d i) v a = m a" if "PGROUNDDOWN a \<noteq> d" for a
  proof (rule write32_other, rule ccontr)
    assume "\<not> 4 \<le> unat (a - entry_at d i)"
    then have "a - entry_at d i < 4" by (simp add: word_less_nat_alt)
    from entry_page [OF assms this] that show False by simp
  qed
  then show ?thesis by (simp add: same_outside_def)
qed

lemma rd_write_same: "rd (write32 m (entry_at d i) v) d i = v"
  by (simp add: rd_def read32_write32_same)

lemma rd_write_other:
  assumes "i < 1024" "j < 1024" "i \<noteq> j"
  shows "rd (write32 m (entry_at d i) v) d j = rd m d j"
  unfolding rd_def
proof (rule read32_cong)
  fix k :: uint
  assume k: "k < 4"
  have ij: "unat i < 1024" "unat j < 1024" "unat k < 4" "unat i \<noteq> unat j"
    using assms k by (auto simp: word_less_nat_alt word_unat_eq_iff)
  have e: "entry_at d j + k - entry_at d i = 4 * j + k - 4 * i" by (simp add: entry_at_def)
  have u: "unat (4 * j + k) = 4 * unat j + unat k" "unat (4 * i) = 4 * unat i"
    using ij by (simp_all add: unat_word_ariths)
  have "4 \<le> unat (4 * j + k - 4 * i)"
    using ij by (cases "4 * i \<le> 4 * j + k") (auto simp: unat_sub_if' u word_le_nat_alt split: if_splits)
  then show "write32 m (entry_at d i) v (entry_at d j + k) = m (entry_at d j + k)"
    unfolding e [symmetric] by (rule write32_other)
qed

lemma memset_byte: "aligned p \<Longrightarrow> memset m p 0 PGSIZE a = (if PGROUNDDOWN a = p then 0 else m a)"
  using in_page [of p a] by (simp add: memset_eq PGSIZE_def)

lemma memset_page:
  assumes "aligned p"
  shows "same_outside {p} m (memset m p 0 PGSIZE)" "i < 1024 \<Longrightarrow> rd (memset m p 0 PGSIZE) p i = 0"
proof -
  note z = memset_byte [OF assms]
  then show "same_outside {p} m (memset m p 0 PGSIZE)" by (simp add: same_outside_def)
  assume i: "i < 1024"
  have "PGROUNDDOWN (entry_at p i + k) = p" if "k < 4" for k using entry_page [OF assms i that] .
  from this [of 0] this [of 1] this [of 2] this [of 3] show "rd (memset m p 0 PGSIZE) p i = 0"
    by (simp add: rd_def read32_def z)
qed

section \<open>Directories\<close>

definition has :: "memory \<Rightarrow> uint \<Rightarrow> uint \<Rightarrow> bool" where
  "has m d i \<longleftrightarrow> rd m d i AND PTE_P \<noteq> 0"

definition tab :: "memory \<Rightarrow> uint \<Rightarrow> uint \<Rightarrow> uint" where
  "tab m d i = P2V (PTE_ADDR (rd m d i))"

text \<open>The entry for a virtual address; 0 where there is no table for it.\<close>

definition ent :: "memory \<Rightarrow> uint \<Rightarrow> uint \<Rightarrow> uint" where
  "ent m d v = (if has m d (PDX v) then rd m (tab m d (PDX v)) (PTX v) else 0)"

definition tabs :: "memory \<Rightarrow> uint \<Rightarrow> uint set" where
  "tabs m d = {i. i < 1024 \<and> has m d i}"

definition ptpages :: "memory \<Rightarrow> uint \<Rightarrow> uint set" where
  "ptpages m d = insert d (tab m d ` tabs m d)"

lemma dir_page [simp]: "d \<in> ptpages m d"
  by (simp add: ptpages_def)

definition pgdir_ok :: "memory \<Rightarrow> uint \<Rightarrow> bool" where
  "pgdir_ok m d \<longleftrightarrow> aligned d \<and> inj_on (tab m d) (tabs m d)
     \<and> (\<forall>i\<in>tabs m d. aligned (tab m d i) \<and> tab m d i \<noteq> d \<and> tab m d i \<noteq> 0)"

definition same_page :: "uint \<Rightarrow> uint \<Rightarrow> bool" where
  "same_page v w \<longleftrightarrow> PDX v = PDX w \<and> PTX v = PTX w"

lemma low_ten: "w AND 0x3FF = take_bit 10 (w :: uint)"
  by (simp add: take_bit_eq_mask mask_eq_exp_minus_1)

lemma index_less: "PDX v < 1024" "PTX v < 1024"
proof -
  have "w AND 0x3FF < (1024 :: uint)" for w :: uint
    using word_mod_less_divisor [of 1024 w] by (simp add: low_ten take_bit_eq_mod)
  then show "PDX v < 1024" "PTX v < 1024" by (simp_all add: PDX_def PTX_def)
qed

lemma same_page_iff: "same_page v w \<longleftrightarrow> PGROUNDDOWN v = PGROUNDDOWN w"
proof
  have r: "PGROUNDDOWN x = x AND NOT (mask 12)" for x
    by (simp add: PGROUNDDOWN_def PGSIZE_def mask_eq_exp_minus_1)
  assume s: "same_page v w"
  have "bit v n = bit w n" if "12 \<le> n" "n < 32" for n
  proof (cases "n < 22")
    case True
    then have "bit (PTX v) (n - 12) = bit v n" "bit (PTX w) (n - 12) = bit w n"
      using that by (simp_all add: PTX_def low_ten bit_simps, linarith+)
    then show ?thesis using s by (simp add: same_page_def)
  next
    case False
    then have "bit (PDX v) (n - 22) = bit v n" "bit (PDX w) (n - 22) = bit w n"
      using that by (simp_all add: PDX_def low_ten bit_simps, linarith+)
    then show ?thesis using s by (simp add: same_page_def)
  qed
  then show "PGROUNDDOWN v = PGROUNDDOWN w" unfolding r by (intro bit_word_eqI) (auto simp: bit_simps)
next
  have r: "PGROUNDDOWN x = x AND NOT (mask 12)" for x
    by (simp add: PGROUNDDOWN_def PGSIZE_def mask_eq_exp_minus_1)
  assume e: "PGROUNDDOWN v = PGROUNDDOWN w"
  have q: "bit (PGROUNDDOWN x) n = bit x n" if "12 \<le> n" for x n
    using that bit_imp_le_length [of x n] unfolding r by (auto simp: bit_simps)
  have vw: "bit v n = bit w n" if "12 \<le> n" for n
    using q [OF that, of v] q [OF that, of w] e by simp
  have "PDX v = PDX w"
    by (rule bit_eqI) (use vw in \<open>simp add: PDX_def low_ten bit_take_bit_iff bit_drop_bit_eq\<close>)
  moreover have "PTX v = PTX w"
    by (rule bit_eqI) (use vw in \<open>simp add: PTX_def low_ten bit_take_bit_iff bit_drop_bit_eq\<close>)
  ultimately show "same_page v w" by (simp add: same_page_def)
qed

lemma same_page_ent: "same_page v w \<Longrightarrow> ent m d v = ent m d w"
  by (simp add: same_page_def ent_def)

text \<open>The directory and its tables are read from their pages only.\<close>

lemma dir_cong:
  assumes "pgdir_ok m d" "\<forall>i<1024. rd m' d i = rd m d i"
  shows "i < 1024 \<Longrightarrow> tab m' d i = tab m d i" "i < 1024 \<Longrightarrow> has m' d i = has m d i"
    "tabs m' d = tabs m d" "ptpages m' d = ptpages m d" "pgdir_ok m' d"
proof -
  show t: "tab m' d i = tab m d i" "has m' d i = has m d i" if "i < 1024" for i
    using that assms(2) by (simp_all add: tab_def has_def)
  then show tabs: "tabs m' d = tabs m d" by (auto simp: tabs_def)
  have tt: "tab m' d i = tab m d i" if "i \<in> tabs m d" for i using that t(1) by (simp add: tabs_def)
  then show "ptpages m' d = ptpages m d" unfolding ptpages_def tabs by (simp cong: image_cong)
  have "inj_on (tab m' d) (tabs m d) = inj_on (tab m d) (tabs m d)" by (rule inj_on_cong) (rule tt)
  then show "pgdir_ok m' d" using assms(1) tt by (simp add: pgdir_ok_def tabs)
qed

lemma pgdir_cong:
  assumes "pgdir_ok m d" "same_outside S m m'" "S \<inter> ptpages m d = {}"
  shows "ent m' d = ent m d" "pgdir_ok m' d" "ptpages m' d = ptpages m d" "tabs m' d = tabs m d"
proof -
  have keep: "m' a = m a" if "PGROUNDDOWN a \<in> ptpages m d" for a using assms(2,3) that by (auto simp: same_outside_def)
  have d: "aligned d" using assms(1) by (simp add: pgdir_ok_def)
  have "rd m' d i = rd m d i" if "i < 1024" for i
    by (rule rd_cong [OF d that]) (rule keep, simp add: ptpages_def)
  then have "\<forall>i<1024. rd m' d i = rd m d i" by simp
  note c = dir_cong [OF assms(1) this]
  show "pgdir_ok m' d" "ptpages m' d = ptpages m d" "tabs m' d = tabs m d" using c(3-5) by simp_all
  show "ent m' d = ent m d"
  proof
    fix v
    note i = index_less [of v]
    show "ent m' d v = ent m d v"
    proof (cases "has m d (PDX v)")
      case True
      then have p: "PDX v \<in> tabs m d" using i by (simp add: tabs_def)
      have "rd m' (tab m d (PDX v)) (PTX v) = rd m (tab m d (PDX v)) (PTX v)"
        by (rule rd_cong [OF _ i(2)]) (use assms(1) p keep in \<open>auto simp: pgdir_ok_def ptpages_def\<close>)
      then show ?thesis using True c(1,2) [OF i(1)] by (simp add: ent_def)
    qed (use c(2) [OF i(1)] in \<open>simp add: ent_def\<close>)
  qed
qed

text \<open>Writing one entry of an existing table.\<close>

lemma write_ent:
  assumes "pgdir_ok m d" "has m d (PDX v)"
    and m'_def: "m' = write32 m (entry_at (tab m d (PDX v)) (PTX v)) x"
  shows "ent m' d w = (if same_page v w then x else ent m d w)" "pgdir_ok m' d" "ptpages m' d = ptpages m d" "tabs m' d = tabs m d"
    "same_outside {tab m d (PDX v)} m m'"
proof -
  let ?t = "tab m d (PDX v)"
  have v: "PDX v \<in> tabs m d" using assms(2) index_less by (simp add: tabs_def)
  then have p: "aligned ?t" "?t \<noteq> d" "aligned d" using assms(1) by (auto simp: pgdir_ok_def)
  show out: "same_outside {?t} m m'" unfolding m'_def by (rule write_entry_outside [OF p(1) index_less(2)])
  have "rd m' d i = rd m d i" if "i < 1024" for i
    by (rule rd_cong [OF p(3) that]) (use out p(2) in \<open>auto simp: same_outside_def\<close>)
  then have "\<forall>i<1024. rd m' d i = rd m d i" by simp
  note c = dir_cong [OF assms(1) this]
  show "pgdir_ok m' d" "ptpages m' d = ptpages m d" "tabs m' d = tabs m d" using c(3-5) by simp_all
  note i = index_less [of w]
  show "ent m' d w = (if same_page v w then x else ent m d w)"
  proof (cases "PDX w = PDX v")
    case True
    then show ?thesis
      using assms(2) c(1,2) [OF i(1)] rd_write_same [of m ?t "PTX v" x] rd_write_other [of "PTX v" "PTX w" m ?t x] index_less
      by (auto simp: ent_def same_page_def m'_def)
  next
    case False
    have "rd m' (tab m d (PDX w)) (PTX w) = rd m (tab m d (PDX w)) (PTX w)" if "has m d (PDX w)"
    proof -
      have w: "PDX w \<in> tabs m d" using that i by (simp add: tabs_def)
      then have "tab m d (PDX w) \<noteq> ?t" "aligned (tab m d (PDX w))" using assms(1) v False by (auto simp: pgdir_ok_def inj_on_def)
      then show ?thesis by (intro rd_cong [OF _ i(2)]) (use out in \<open>auto simp: same_outside_def\<close>)
    qed
    then show ?thesis using False c(1,2) [OF i(1)] by (auto simp: ent_def same_page_def)
  qed
qed

section \<open>Values of entries\<close>

lemma aligned_iff: "aligned a \<longleftrightarrow> take_bit 12 a = 0"
  by (simp add: PGSIZE_def take_bit_eq_mod)

lemma low_twelve: "w AND 0xFFF = take_bit 12 (w :: uint)"
  by (simp add: take_bit_eq_mask mask_eq_exp_minus_1)

lemma pte_parts:
  assumes "aligned a" "PTE_FLAGS f = f"
  shows "PTE_ADDR (a OR f) = a" "PTE_FLAGS (a OR f) = f"
proof -
  have a: "\<not> bit a n" if "n < 12" for n
    using assms(1) that bit_take_bit_iff [of 12 a n] unfolding aligned_iff by simp
  have f: "\<not> bit f n" if "12 \<le> n" for n
    using arg_cong [OF assms(2), of "\<lambda>x. bit x n"] that by (simp add: PTE_FLAGS_def low_twelve bit_simps)
  have nt: "x AND NOT 0xFFF = x AND NOT (mask 12)" for x :: uint by (simp add: mask_eq_exp_minus_1)
  have "bit (PTE_FLAGS (a OR f)) n = bit f n" for n
    unfolding PTE_FLAGS_def low_twelve using a [of n] f [of n] by (cases "n < 12") (simp_all add: bit_simps)
  then show "PTE_FLAGS (a OR f) = f" by (intro bit_eqI) simp
  have "bit (PTE_ADDR (a OR f)) n = bit a n" if "n < 32" for n
    unfolding PTE_ADDR_def nt using a [of n] f [of n] that by (cases "n < 12") (simp_all add: bit_simps)
  then show "PTE_ADDR (a OR f) = a" by (intro bit_word_eqI) simp
qed

lemma present_iff: "e AND PTE_P \<noteq> 0 \<longleftrightarrow> bit e 0"
  by (simp add: PTE_P_def and_one_eq odd_iff_mod_2_eq_one bit_0)

lemma page_sum: "unat (a + b :: uint) mod 4096 = (unat a + unat b) mod 4096"
  unfolding unat_word_ariths(1) by (rule mod_mod_cancel) simp

lemma aligned_add: "aligned a \<Longrightarrow> aligned b \<Longrightarrow> aligned (a + b)"
  unfolding page_aligned page_sum by (simp add: mod_add_eq [symmetric] del: mod_add_eq)

lemma aligned_diff: "aligned a \<Longrightarrow> aligned b \<Longrightarrow> aligned (a - b)"
  unfolding page_aligned using page_sum [of "a - b" b] by (metis diff_add_cancel mod_0 mod_add_right_eq add.right_neutral)

lemma kernbase_aligned: "aligned KERNBASE"
  by (simp add: layout_defs)

lemma V2P_P2V [simp]: "P2V (V2P p) = p" "V2P (P2V p) = p"
  by (simp_all add: P2V_def V2P_def)

lemma V2P_aligned: "aligned p \<Longrightarrow> aligned (V2P p)" "aligned p \<Longrightarrow> aligned (P2V p)"
  using aligned_diff aligned_add kernbase_aligned by (simp_all add: V2P_def P2V_def)

text \<open>A new table for an address that has none: every entry reads as before.\<close>

lemma new_table:
  assumes "pgdir_ok m d" "\<not> has m d (PDX v)" "aligned p" "p \<notin> ptpages m d" "p \<noteq> 0"
    and m'_def: "m' = write32 (memset m p 0 PGSIZE) (entry_at d (PDX v)) (V2P p OR PTE_P OR PTE_W OR PTE_U)"
  shows "has m' d (PDX v)" "tab m' d (PDX v) = p" "ent m' d = ent m d" "pgdir_ok m' d" "ptpages m' d = insert p (ptpages m d)"
    "tabs m' d = insert (PDX v) (tabs m d)" "same_outside {d, p} m m'"
proof -
  let ?z = "memset m p 0 PGSIZE" and ?e = "V2P p OR (PTE_P OR PTE_W OR PTE_U)"
  have d: "aligned d" "p \<noteq> d" using assms(1,4) by (auto simp: pgdir_ok_def ptpages_def)
  note z = memset_page [OF assms(3), where m = m]
  have "{p} \<inter> ptpages m d = {}" using assms(4) by auto
  note zc = pgdir_cong [OF assms(1) z(1) this]
  have e: "m' = write32 ?z (entry_at d (PDX v)) ?e" by (simp add: m'_def or.assoc)
  have w: "same_outside {d} ?z m'" unfolding e by (rule write_entry_outside [OF d(1) index_less(1)])
  show "same_outside {d, p} m m'" by (rule same_outside_trans [OF z(1) w]) auto
  have pe: "PTE_ADDR ?e = V2P p" by (rule pte_parts(1)) (use V2P_aligned assms(3) in \<open>simp_all add: PTE_FLAGS_def PTE_P_def PTE_W_def PTE_U_def\<close>)
  have one: "rd m' d (PDX v) = ?e" unfolding e by (rule rd_write_same)
  show hv: "has m' d (PDX v)" unfolding has_def one present_iff by (simp add: bit_simps PTE_P_def)
  show tv: "tab m' d (PDX v) = p" unfolding tab_def one pe by simp
  have oth: "rd m' d i = rd ?z d i" if "i < 1024" "i \<noteq> PDX v" for i
    unfolding e using rd_write_other [of "PDX v" i] that index_less by simp
  have zi: "tab ?z d i = tab m d i" "has ?z d i = has m d i" if "i < 1024" for i
    using rd_cong [OF d(1) that, of ?z m] z(1) d(2) by (auto simp: tab_def has_def same_outside_def)
  then have oth': "tab m' d i = tab m d i" "has m' d i = has m d i" if "i < 1024" "i \<noteq> PDX v" for i
    using that oth by (simp_all add: tab_def has_def)
  show tabs: "tabs m' d = insert (PDX v) (tabs m d)" using hv oth'(2) index_less by (auto simp: tabs_def)
  have ne: "i \<noteq> PDX v" if "i \<in> tabs m d" for i using that assms(2) by (auto simp: tabs_def)
  have tt: "tab m' d i = tab m d i" if "i \<in> tabs m d" for i using oth'(1) [of i] ne [OF that] that by (simp add: tabs_def)
  then have im: "tab m' d ` tabs m d = tab m d ` tabs m d" by (simp cong: image_cong)
  show "ptpages m' d = insert p (ptpages m d)" unfolding ptpages_def tabs using im tv by auto
  have "inj_on (tab m' d) (tabs m d) = inj_on (tab m d) (tabs m d)" by (rule inj_on_cong) (rule tt)
  then show "pgdir_ok m' d" using assms(1,3,4,5) d tt tv im by (auto simp: pgdir_ok_def tabs ptpages_def)
  show "ent m' d = ent m d"
  proof
    fix u
    note i = index_less [of u]
    show "ent m' d u = ent m d u"
    proof (cases "PDX u = PDX v")
      case True
      have "rd m' p (PTX u) = rd ?z p (PTX u)"
        by (rule rd_cong [OF assms(3) i(2)]) (use w d(2) in \<open>auto simp: same_outside_def\<close>)
      then show ?thesis using True hv tv assms(2) z(2) [OF i(2)] by (simp add: ent_def)
    next
      case False
      have "rd m' (tab m d (PDX u)) (PTX u) = rd m (tab m d (PDX u)) (PTX u)" if "has m d (PDX u)"
      proof -
        have "PDX u \<in> tabs m d" using that i by (simp add: tabs_def)
        then have "tab m d (PDX u) \<noteq> d" "tab m d (PDX u) \<noteq> p" "aligned (tab m d (PDX u))"
          using assms(1,4) by (auto simp: pgdir_ok_def ptpages_def)
        then show ?thesis by (intro rd_cong [OF _ i(2)]) (use z(1) w in \<open>auto simp: same_outside_def\<close>)
      qed
      then show ?thesis using oth' [OF i(1) False] by (simp add: ent_def)
    qed
  qed
qed

section \<open>Taking pages for tables\<close>

definition only_mem :: "'z kmem_state_scheme \<Rightarrow> 'z kmem_state_scheme \<Rightarrow> bool" where
  "only_mem s t \<longleftrightarrow> t = s\<lparr>mem := mem t, freelist := freelist t\<rparr>"

lemma only_mem_refl [simp]: "only_mem s s"
  by (simp add: only_mem_def)

lemma only_mem_update [simp]:
  "only_mem s (s\<lparr>mem := m\<rparr>)" "only_mem s (s\<lparr>freelist := f\<rparr>)" "only_mem s (s\<lparr>freelist := f, mem := m\<rparr>)"
  by (simp_all add: only_mem_def)

lemma only_mem_trans: "only_mem s t \<Longrightarrow> only_mem t u \<Longrightarrow> only_mem s u"
  unfolding only_mem_def
proof -
  assume t: "t = s\<lparr>mem := mem t, freelist := freelist t\<rparr>" and u: "u = t\<lparr>mem := mem u, freelist := freelist u\<rparr>"
  have "u = s\<lparr>mem := mem t, freelist := freelist t\<rparr>\<lparr>mem := mem u, freelist := freelist u\<rparr>" using u t by argo
  then show "u = s\<lparr>mem := mem u, freelist := freelist u\<rparr>" by simp
qed

lemma only_mem_keeps:
  assumes "only_mem s t"
  shows "kmem_ready c t = kmem_ready c s" "page_ok t = page_ok s" "kdata t = kdata s"
  by (subst assms [unfolded only_mem_def], simp add: frames)+

lemma chain_keep:
  assumes "same_outside S m m'" "S \<inter> set ps = {}" "\<forall>p\<in>set ps. aligned p"
  shows "chain m' r ps = chain m r ps"
  using assms(2,3)
proof (induction ps arbitrary: r)
  case (Cons p ps)
  have "rd m' p 0 = rd m p 0" by (rule rd_cong) (use Cons.prems assms(1) in \<open>auto simp: same_outside_def\<close>)
  with Cons show ?case by (simp add: rd_def entry_at_def)
qed simp

lemma free_chain_keep:
  assumes "free_chain s fs" "same_outside S (mem s) m" "S \<inter> set fs = {}"
  shows "free_chain (s\<lparr>mem := m\<rparr>) fs"
  using assms(1) chain_keep [OF assms(2,3)] by (simp add: free_chain_def frames page_ok_def)

definition vm_ok :: "nat \<Rightarrow> 'z kmem_state_scheme \<Rightarrow> uint \<Rightarrow> uint list \<Rightarrow> bool" where
  "vm_ok c s d fs \<longleftrightarrow> kmem_ready c s \<and> free_chain s fs \<and> pgdir_ok (mem s) d \<and> ptpages (mem s) d \<inter> set fs = {}"

lemma vm_okD:
  assumes "vm_ok c s d fs"
  shows "kmem_ready c s" "free_chain s fs" "pgdir_ok (mem s) d" "ptpages (mem s) d \<inter> set fs = {}" "distinct fs"
    "p \<in> set fs \<Longrightarrow> aligned p" "p \<in> set fs \<Longrightarrow> p \<noteq> 0" "p \<in> set fs \<Longrightarrow> p \<notin> ptpages (mem s) d"
  using assms page_ok_nonzero by (auto simp: vm_ok_def free_chain_def page_ok_def)

text \<open>
  From \<open>s\<close> to \<open>t\<close> the pages \<open>us\<close> went from the front of the free list into tables of \<open>d\<close>; nothing
  else of the memory changed than these pages and the tables.
\<close>

definition grows :: "nat \<Rightarrow> uint \<Rightarrow> 'z kmem_state_scheme \<Rightarrow> uint list \<Rightarrow> uint list \<Rightarrow> 'z kmem_state_scheme \<Rightarrow> bool" where
  "grows c d s us gs t \<longleftrightarrow> vm_ok c t d gs \<and> only_mem s t \<and> ptpages (mem t) d = ptpages (mem s) d \<union> set us
     \<and> same_outside (ptpages (mem t) d) (mem s) (mem t) \<and> card (tabs (mem t) d) = card (tabs (mem s) d) + length us"

lemma growsD:
  assumes "grows c d s us gs t"
  shows "vm_ok c t d gs" "only_mem s t" "ptpages (mem t) d = ptpages (mem s) d \<union> set us"
    "same_outside (ptpages (mem t) d) (mem s) (mem t)" "card (tabs (mem t) d) = card (tabs (mem s) d) + length us"
  using assms by (auto simp: grows_def)

lemma grows_trans:
  assumes "grows c d s us gs t" "grows c d t vs hs u"
  shows "grows c d s (us @ vs) hs u"
proof -
  note a = growsD [OF assms(1)] and b = growsD [OF assms(2)]
  have "same_outside (ptpages (mem u) d) (mem s) (mem u)" by (rule same_outside_trans [OF a(4) b(4)]) (use b(3) in auto)
  moreover have "only_mem s u" by (rule only_mem_trans [OF a(2) b(2)])
  ultimately show ?thesis using a b by (auto simp: grows_def)
qed

lemma finite_tabs [simp]: "finite (tabs m d)"
  by (simp add: tabs_def)

lemma card_tabs: "card (tabs m d) \<le> 1024" "i < 1024 \<Longrightarrow> \<not> has m d i \<Longrightarrow> card (tabs m d) < 1024"
proof -
  have n: "card {i :: uint. i < 1024} = 1024"
  proof -
    have "bij_betw unat {i :: uint. i < 1024} {..<1024}"
      by (rule bij_betw_byWitness [where f' = of_nat])
        (auto simp: word_less_nat_alt unat_of_nat take_bit_eq_mod)
    from bij_betw_same_card [OF this] show ?thesis by simp
  qed
  have "tabs m d \<subseteq> {i. i < 1024}" by (auto simp: tabs_def)
  from card_mono [OF _ this] n show "card (tabs m d) \<le> 1024" by simp
  assume "i < 1024" "\<not> has m d i"
  then have "tabs m d \<subset> {i. i < 1024}" by (auto simp: tabs_def)
  from psubset_card_mono [OF _ this] n show "card (tabs m d) < 1024" by simp
qed

lemma entry_nonzero: "aligned t \<Longrightarrow> t \<noteq> 0 \<Longrightarrow> i < 1024 \<Longrightarrow> entry_at t i \<noteq> 0"
  using entry_page [of t i 0] page_self [of 0] by (auto simp: PGSIZE_def)

lemma walk_alloc:
  assumes ok: "vm_ok c s d fs" and room: "has (mem s) d (PDX v) \<or> fs \<noteq> []"
  shows "\<exists>us gs t. fs = us @ gs \<and> walkpgdir d v True s = Inr (entry_at (tab (mem t) d (PDX v)) (PTX v), t)
    \<and> grows c d s us gs t \<and> has (mem t) d (PDX v) \<and> ent (mem t) d = ent (mem s) d
    \<and> entry_at (tab (mem t) d (PDX v)) (PTX v) \<noteq> 0"
proof (cases "has (mem s) d (PDX v)")
  case True
  then have "PDX v \<in> tabs (mem s) d" using index_less by (simp add: tabs_def)
  then have "entry_at (tab (mem s) d (PDX v)) (PTX v) \<noteq> 0"
    using vm_okD(3) [OF ok] index_less by (intro entry_nonzero) (auto simp: pgdir_ok_def)
  then show ?thesis using True ok
    by (intro exI [of _ "[]"] exI [of _ fs] exI [of _ s]) (auto simp: walkpgdir_def grows_def has_def tab_def rd_def)
next
  case False
  with room obtain p gs where fs: "fs = p # gs" by (cases fs) auto
  note k = kalloc_chain [OF vm_okD(1) [OF ok] vm_okD(2) [OF ok, unfolded fs]]
  have p: "aligned p" "p \<noteq> 0" "p \<notin> ptpages (mem s) d" "p \<notin> set gs" using vm_okD [OF ok] by (auto simp: fs)
  define m where "m = write32 (memset (mem s) p 0 PGSIZE) (entry_at d (PDX v)) (V2P p OR PTE_P OR PTE_W OR PTE_U)"
  note n = new_table [OF vm_okD(3) [OF ok] False p(1,3,2) m_def]
  define t where "t = s\<lparr>freelist := read32 (mem s) p, mem := m\<rparr>"
  have mt: "mem t = m" by (simp add: t_def)
  have dis: "ptpages m d \<inter> set gs = {}" using n(5) vm_okD(4) [OF ok] p(4) by (auto simp: fs)
  have "free_chain t gs"
    using free_chain_keep [OF k(2), of "{d, p}" m] n(5,7) dis by (auto simp: t_def ptpages_def)
  then have ok': "vm_ok c t d gs" using vm_okD(1) [OF ok] n(4) dis by (simp add: vm_ok_def mt) (simp add: t_def frames)
  have w: "walkpgdir d v True s = Inr (entry_at (tab m d (PDX v)) (PTX v), t)"
    using False p(2) k(1) n(2) by (simp add: walkpgdir_def has_def rd_def Let_def m_def t_def)
  have "same_outside (ptpages m d) (mem s) m" by (rule same_outside_mono [OF n(7)]) (simp add: n(5))
  moreover have "PDX v \<notin> tabs (mem s) d" using False by (simp add: tabs_def)
  ultimately have "grows c d s [p] gs t" using ok' n(5,6) by (simp add: grows_def mt) (simp add: t_def)
  moreover have "entry_at (tab m d (PDX v)) (PTX v) \<noteq> 0" unfolding n(2) by (rule entry_nonzero [OF p(1,2) index_less(2)])
  ultimately show ?thesis using w n(1,3) by (intro exI [of _ "[p]"] exI [of _ gs] exI [of _ t]) (simp add: fs mt)
qed

section \<open>Mapping pages\<close>

text \<open>The page table as a function, and what \<open>mappages\<close> does to it.\<close>

definition mapped :: "(uint \<Rightarrow> uint) \<Rightarrow> uint \<Rightarrow> uint \<Rightarrow> uint \<Rightarrow> uint \<Rightarrow> uint \<Rightarrow> uint" where
  "mapped e a last_a pa perm w =
     (if PGROUNDDOWN w - a \<le> last_a - a then (pa + (PGROUNDDOWN w - a)) OR perm OR PTE_P else e w)"

lemma map_one:
  assumes ok: "vm_ok c s d fs" and room: "1024 \<le> length fs + card (tabs (mem s) d)"
    and free: "ent (mem s) d a AND PTE_P = 0" and al: "aligned a"
  shows "\<exists>us gs t. fs = us @ gs \<and> grows c d s us gs t \<and> ent (mem t) d = mapped (ent (mem s) d) a a pa perm
    \<and> mappages_loop n d a l pa perm s = (if a = l then Inr (0, t) else case n of 0 \<Rightarrow> Inl Spin
         | Suc k \<Rightarrow> mappages_loop k d (a + PGSIZE) l (pa + PGSIZE) perm t)"
proof -
  have "has (mem s) d (PDX a) \<or> fs \<noteq> []" using card_tabs(2) [OF index_less(1)] room by fastforce
  from walk_alloc [OF ok this] obtain us gs u where fs: "fs = us @ gs"
    and w: "walkpgdir d a True s = Inr (entry_at (tab (mem u) d (PDX a)) (PTX a), u)"
    and g: "grows c d s us gs u" and h: "has (mem u) d (PDX a)" and e: "ent (mem u) d = ent (mem s) d"
    and nz: "entry_at (tab (mem u) d (PDX a)) (PTX a) \<noteq> 0" by blast
  define m where "m = write32 (mem u) (entry_at (tab (mem u) d (PDX a)) (PTX a)) (pa OR perm OR PTE_P)"
  define t where "t = u\<lparr>mem := m\<rparr>"
  have mt: "mem t = m" by (simp add: t_def)
  note gu = growsD [OF g] and vu = vm_okD [OF growsD(1) [OF g]]
  note x = write_ent [OF vu(3) h m_def]
  have "PDX a \<in> tabs (mem u) d" using h index_less by (simp add: tabs_def)
  then have sub: "{tab (mem u) d (PDX a)} \<subseteq> ptpages (mem u) d" by (simp add: ptpages_def)
  have so: "same_outside (ptpages (mem u) d) (mem u) m" by (rule same_outside_mono [OF x(5) sub])
  have "free_chain t gs" unfolding t_def by (rule free_chain_keep [OF vu(2) so vu(4)])
  then have "vm_ok c t d gs" using vu(1,4) x(2,3) by (simp add: vm_ok_def mt) (simp add: t_def frames)
  moreover have "only_mem s t" by (rule only_mem_trans [OF gu(2)]) (simp add: t_def)
  ultimately have "grows c d s us gs t"
    using gu(3,5) x(3,4) same_outside_trans [OF gu(4) so, of "ptpages m d"] by (simp add: grows_def mt)
  moreover have "ent m d w = mapped (ent (mem s) d) a a pa perm w" for w
    using x(1) [of w] page_self [OF al] by (auto simp: e mapped_def same_page_iff)
  moreover have "read32 (mem u) (entry_at (tab (mem u) d (PDX a)) (PTX a)) AND PTE_P = 0"
    using free h unfolding e [symmetric] by (simp add: ent_def rd_def)
  then have "mappages_loop n d a l pa perm s = (if a = l then Inr (0, t) else case n of 0 \<Rightarrow> Inl Spin
         | Suc k \<Rightarrow> mappages_loop k d (a + PGSIZE) l (pa + PGSIZE) perm t)"
    by (subst mappages_loop.simps) (simp add: w nz t_def m_def Let_def split: nat.split)
  ultimately show ?thesis using fs mt by blast
qed

lemma page_distance:
  fixes x :: uint
  assumes "aligned x" "x \<noteq> 0" shows "unat (x - PGSIZE) = unat x - 4096" "4096 \<le> unat x"
proof -
  have "4096 dvd unat x" using assms(1) by (simp add: page_aligned dvd_eq_mod_eq_0)
  moreover have "unat x \<noteq> 0" using assms(2) by (simp add: unat_eq_zero)
  ultimately show x: "4096 \<le> unat x" by (simp add: dvd_imp_le)
  then show "unat (x - PGSIZE) = unat x - 4096" by (simp add: PGSIZE_def unat_sub word_le_nat_alt)
qed

lemma range_step:
  assumes "aligned a" "aligned l" "l \<noteq> a"
  shows "PGROUNDDOWN w - (a + PGSIZE) \<le> l - (a + PGSIZE) \<longleftrightarrow> PGROUNDDOWN w \<noteq> a \<and> PGROUNDDOWN w - a \<le> l - a"
proof -
  let ?x = "PGROUNDDOWN w - a"
  have x: "aligned ?x" by (rule aligned_diff [OF PGROUNDDOWN_aligned assms(1)])
  have l: "aligned (l - a)" "l - a \<noteq> 0" using assms aligned_diff by auto
  have s: "PGROUNDDOWN w - (a + PGSIZE) = ?x - PGSIZE" "l - (a + PGSIZE) = (l - a) - PGSIZE" by simp_all
  show ?thesis
  proof (cases "?x = 0")
    case True
    have "unat (l - a) < 2 ^ 32" using unsigned_less [of "l - a"] by simp
    moreover have "unat (0 - PGSIZE) = 2 ^ 32 - 4096" by (simp add: PGSIZE_def)
    ultimately have "\<not> 0 - PGSIZE \<le> (l - a) - PGSIZE"
      unfolding word_le_nat_alt page_distance(1) [OF l] using page_distance(2) [OF l] by simp
    with True show ?thesis unfolding s by simp
  next
    case False
    then show ?thesis unfolding s word_le_nat_alt page_distance(1) [OF l] page_distance(1) [OF x False]
      using page_distance(2) [OF l] page_distance(2) [OF x False] by auto
  qed
qed

lemma mapped_step:
  assumes "aligned a" "aligned l" "l \<noteq> a"
  shows "mapped (mapped e a a pa perm) (a + PGSIZE) l (pa + PGSIZE) perm = mapped e a l pa perm"
  unfolding mapped_def range_step [OF assms] by (rule ext) auto

lemma mappages_loop_maps:
  assumes "vm_ok c s d fs" "1024 \<le> length fs + card (tabs (mem s) d)" "aligned a" "aligned l" "unat (l - a) = 4096 * n"
    and "\<forall>w. PGROUNDDOWN w - a \<le> l - a \<longrightarrow> ent (mem s) d w AND PTE_P = 0"
  shows "\<exists>us gs t. fs = us @ gs \<and> grows c d s us gs t \<and> ent (mem t) d = mapped (ent (mem s) d) a l pa perm
    \<and> mappages_loop n d a l pa perm s = Inr (0, t)"
  using assms
proof (induction n arbitrary: s fs a pa)
  case 0
  then have "l = a" by (simp add: unat_eq_zero)
  moreover have "ent (mem s) d a AND PTE_P = 0" using 0(6) page_self [OF 0(3)] \<open>l = a\<close> by simp
  ultimately show ?case using map_one [OF 0(1,2) _ 0(3), of pa perm 0 l] by auto
next
  case (Suc n)
  have ne: "l \<noteq> a" using Suc.prems(5) by auto
  have la: "aligned (l - a)" "l - a \<noteq> 0" using Suc.prems(3,4) ne aligned_diff by auto
  have "ent (mem s) d a AND PTE_P = 0" using Suc.prems(6) page_self [OF Suc.prems(3)] by simp
  from map_one [OF Suc.prems(1,2) this Suc.prems(3), of pa perm "Suc n" l] ne
  obtain us gs t where fs: "fs = us @ gs" and g: "grows c d s us gs t" and e: "ent (mem t) d = mapped (ent (mem s) d) a a pa perm"
    and run: "mappages_loop (Suc n) d a l pa perm s = mappages_loop n d (a + PGSIZE) l (pa + PGSIZE) perm t" by auto
  have a': "aligned (a + PGSIZE)" by (rule aligned_add [OF Suc.prems(3)]) simp
  have d: "unat (l - (a + PGSIZE)) = 4096 * n" using page_distance(1) [OF la] Suc.prems(5) by (simp add: diff_diff_add [symmetric] del: diff_diff_add)
  have free: "ent (mem t) d w AND PTE_P = 0" if "PGROUNDDOWN w - (a + PGSIZE) \<le> l - (a + PGSIZE)" for w
    using that Suc.prems(6) unfolding range_step [OF Suc.prems(3,4) ne] e mapped_def by simp
  have room: "1024 \<le> length gs + card (tabs (mem t) d)" using Suc.prems(2) growsD(5) [OF g] by (simp add: fs)
  from Suc.IH [OF growsD(1) [OF g] room a' Suc.prems(4) d] free
  obtain vs hs u where "gs = vs @ hs" "grows c d t vs hs u" "ent (mem u) d = mapped (ent (mem t) d) (a + PGSIZE) l (pa + PGSIZE) perm"
    "mappages_loop n d (a + PGSIZE) l (pa + PGSIZE) perm t = Inr (0, u)" by blast
  then show ?case using fs run grows_trans [OF g] mapped_step [OF Suc.prems(3,4) ne] e
    by (intro exI [of _ "us @ vs"] exI [of _ hs] exI [of _ u]) simp
qed

lemma mappages_maps_ranges:
  assumes "vm_ok c s d fs" "1024 \<le> length fs + card (tabs (mem s) d)"
    and "\<forall>w. PGROUNDDOWN w - PGROUNDDOWN va \<le> PGROUNDDOWN (va + sz - 1) - PGROUNDDOWN va \<longrightarrow> ent (mem s) d w AND PTE_P = 0"
  shows "\<exists>us gs t. fs = us @ gs \<and> mappages d va sz pa perm s = Inr (0, t) \<and> grows c d s us gs t
    \<and> ent (mem t) d = mapped (ent (mem s) d) (PGROUNDDOWN va) (PGROUNDDOWN (va + sz - 1)) pa perm"
proof -
  let ?a = "PGROUNDDOWN va" and ?l = "PGROUNDDOWN (va + sz - 1)"
  have "aligned (?l - ?a)" by (rule aligned_diff [OF PGROUNDDOWN_aligned PGROUNDDOWN_aligned])
  then have "4096 dvd unat (?l - ?a)" by (simp add: page_aligned dvd_eq_mod_eq_0)
  then have "unat (?l - ?a) = 4096 * unat ((?l - ?a) div PGSIZE)" by (simp add: unat_div PGSIZE_def)
  from mappages_loop_maps [OF assms(1,2) PGROUNDDOWN_aligned PGROUNDDOWN_aligned this assms(3), of pa perm]
  show ?thesis by (simp add: mappages_def Let_def) blast
qed

section \<open>The kernel's half of an address space\<close>

lemma unat_page: "unat (PGROUNDDOWN a) = 4096 * (unat a div 4096)"
proof -
  have "unat (a - PGROUNDDOWN a) = unat a mod 4096" by (simp add: page_offset take_bit_eq_mod unat_mod)
  moreover have "unat (PGROUNDDOWN a) \<le> unat a"
    unfolding PGROUNDDOWN_def by (rule word_and_le2 [THEN word_le_nat_alt [THEN iffD1]])
  ultimately have "unat a - unat (PGROUNDDOWN a) = unat a mod 4096" "unat (PGROUNDDOWN a) \<le> unat a"
    by (simp_all add: unat_sub word_le_nat_alt)
  then show ?thesis using div_mult_mod_eq [of "unat a" 4096] by linarith
qed

lemma byte_range:
  assumes "aligned a" "aligned (b + 1)" "a \<le> b"
  shows "PGROUNDDOWN w - PGROUNDDOWN a \<le> PGROUNDDOWN b - PGROUNDDOWN a \<longleftrightarrow> a \<le> w \<and> w \<le> b"
proof -
  obtain A where A: "unat a = 4096 * A" using assms(1) by (auto simp: page_aligned)
  have "Suc (unat b) mod 4096 = 0" using assms(2) page_sum [of b 1] by (simp add: page_aligned)
  then have "unat b mod 4096 = 4095" by (simp add: mod_Suc split: if_splits)
  then obtain B where B: "unat b = 4096 * B + 4095" by (metis mult_div_mod_eq)
  define W r where "W = unat w div 4096" and "r = unat w mod 4096"
  have W: "unat w = 4096 * W + r" "r < 4096" by (simp_all add: W_def r_def)
  have lim: "unat w < 2 ^ 32" "unat b < 2 ^ 32" using unsigned_less [of w] unsigned_less [of b] by simp_all
  have pages: "unat (PGROUNDDOWN a) = 4096 * A" "unat (PGROUNDDOWN b) = 4096 * B" "unat (PGROUNDDOWN w) = 4096 * W"
    unfolding unat_page using A B by (simp_all add: W_def)
  have "A \<le> B" using assms(3) A B unfolding word_le_nat_alt by linarith
  moreover have "a \<le> w \<longleftrightarrow> A \<le> W" "w \<le> b \<longleftrightarrow> W \<le> B" using A B W unfolding word_le_nat_alt by linarith+
  ultimately show ?thesis
    using lim W B unfolding word_le_nat_alt unat_sub_if' pages by auto
qed

text \<open>What the four rows of \<open>kmap\<close> map, for a given end of the read-only part.\<close>

definition kernel_entry :: "uint \<Rightarrow> uint \<Rightarrow> uint" where
  "kernel_entry kd w =
     (if w < KERNBASE then 0
      else if KERNLINK \<le> w \<and> w < kd then V2P (PGROUNDDOWN w) OR PTE_P
      else if w < P2V PHYSTOP then V2P (PGROUNDDOWN w) OR PTE_W OR PTE_P
      else if w < DEVSPACE then 0
      else PGROUNDDOWN w OR PTE_W OR PTE_P)"

definition region :: "uint \<Rightarrow> uint \<Rightarrow> uint \<Rightarrow> uint \<Rightarrow> (uint \<Rightarrow> uint) \<Rightarrow> uint \<Rightarrow> uint" where
  "region a b ps perm e w = (if a \<le> w \<and> w \<le> b then (ps + (PGROUNDDOWN w - a)) OR perm OR PTE_P else e w)"

lemma setup_region:
  assumes ok: "vm_ok c s d fs" "1024 \<le> length fs + card (tabs (mem s) d)"
    and b: "a + (pe - ps) - 1 = b" "aligned a" "aligned (b + 1)" "a \<le> b"
    and free: "\<forall>w. a \<le> w \<and> w \<le> b \<longrightarrow> ent (mem s) d w = 0"
  shows "\<exists>us gs t. fs = us @ gs \<and> grows c d s us gs t
    \<and> ent (mem t) d = region a b ps perm (ent (mem s) d)
    \<and> setupkvm_loop d ((a, ps, pe, perm) # ks) s = setupkvm_loop d ks t"
proof -
  note r = byte_range [OF b(2-4)]
  have "\<forall>w. PGROUNDDOWN w - PGROUNDDOWN a \<le> PGROUNDDOWN (a + (pe - ps) - 1) - PGROUNDDOWN a \<longrightarrow> ent (mem s) d w AND PTE_P = 0"
    using free by (simp add: b(1) r)
  from mappages_maps_ranges [OF ok this, of ps perm] obtain us gs t where "fs = us @ gs" "grows c d s us gs t"
    "mappages d a (pe - ps) ps perm s = Inr (0, t)"
    "ent (mem t) d = mapped (ent (mem s) d) (PGROUNDDOWN a) (PGROUNDDOWN b) ps perm" unfolding b(1) by blast
  then show ?thesis using r page_self [OF b(2)]
    by (intro exI [of _ us] exI [of _ gs] exI [of _ t]) (simp add: mapped_def region_def fun_eq_iff)
qed

definition builds :: "nat \<Rightarrow> 'z kmem_state_scheme \<Rightarrow> uint list \<Rightarrow> uint list \<Rightarrow> uint \<Rightarrow> 'z kmem_state_scheme \<Rightarrow> bool" where
  "builds c s us gs d t \<longleftrightarrow> vm_ok c t d gs \<and> only_mem s t \<and> d \<noteq> 0 \<and> ptpages (mem t) d = set us
     \<and> same_outside (set us) (mem s) (mem t) \<and> length us = Suc (card (tabs (mem t) d))"

lemma new_directory:
  assumes "kmem_ready c s" "free_chain s (d # fs)"
  shows "\<exists>t. kalloc s = Inr (d, s\<lparr>freelist := read32 (mem s) d\<rparr>) \<and> t = s\<lparr>freelist := read32 (mem s) d, mem := memset (mem s) d 0 PGSIZE\<rparr>
    \<and> builds c s [d] fs d t \<and> ent (mem t) d = (\<lambda>_. 0) \<and> tabs (mem t) d = {}"
proof -
  define m where "m = memset (mem s) d 0 PGSIZE"
  define t where "t = s\<lparr>freelist := read32 (mem s) d, mem := m\<rparr>"
  have mt: "mem t = m" by (simp add: t_def)
  note k = kalloc_chain [OF assms]
  have d: "aligned d" "d \<noteq> 0" "d \<notin> set fs" using assms(2) page_ok_nonzero [of s d] by (auto simp: free_chain_def page_ok_def)
  note z = memset_page [OF d(1), where m = "mem s", folded m_def]
  have nh: "\<not> has m d i" if "i < 1024" for i using z(2) [OF that] by (simp add: has_def)
  then have tb: "tabs m d = {}" by (auto simp: tabs_def)
  have e: "ent m d = (\<lambda>_. 0)" using nh [OF index_less(1)] by (auto simp: ent_def)
  have p: "ptpages m d = {d}" "pgdir_ok m d" using tb d(1) by (simp_all add: ptpages_def pgdir_ok_def)
  have "free_chain t fs" using free_chain_keep [OF k(2), of "{d}" m] z(1) d(3) by (simp add: t_def)
  then have "vm_ok c t d fs" using assms(1) p d(3) by (simp add: vm_ok_def mt) (simp add: t_def frames)
  then have "builds c s [d] fs d t" using d p tb z(1) by (simp add: builds_def mt) (simp add: t_def)
  then show ?thesis using k(1) e tb by (intro exI [of _ t]) (simp add: mt, simp add: t_def m_def)
qed

lemma builds_grows:
  assumes "builds c s us gs d t" "grows c d t vs hs u"
  shows "builds c s (us @ vs) hs d u"
proof -
  note g = growsD [OF assms(2)]
  have b: "only_mem s t" "d \<noteq> 0" "ptpages (mem t) d = set us" "same_outside (set us) (mem s) (mem t)"
    "length us = Suc (card (tabs (mem t) d))" using assms(1) by (simp_all add: builds_def)
  have "same_outside (set (us @ vs)) (mem s) (mem u)" by (rule same_outside_trans [OF b(4) g(4)]) (use g(3) b(3) in auto)
  then show ?thesis using b g only_mem_trans [OF b(1) g(2)] by (simp add: builds_def)
qed


lemma build_region:
  assumes b: "F = us @ gs" "builds c s us gs d t" "1025 \<le> length F"
    and r: "a + (pe - ps) - 1 = b" "aligned a" "aligned (b + 1)" "a \<le> b"
    and free: "\<forall>w. a \<le> w \<and> w \<le> b \<longrightarrow> ent (mem t) d w = 0"
  shows "\<exists>vs hs u. F = vs @ hs \<and> builds c s vs hs d u
    \<and> ent (mem u) d = region a b ps perm (ent (mem t) d)
    \<and> setupkvm_loop d ((a, ps, pe, perm) # ks) t = setupkvm_loop d ks u"
proof -
  have ok: "vm_ok c t d gs" "1024 \<le> length gs + card (tabs (mem t) d)" using b by (simp_all add: builds_def)
  from setup_region [OF ok r free, of perm ks] obtain vs hs u where gs: "gs = vs @ hs" and g: "grows c d t vs hs u"
    and u: "ent (mem u) d = region a b ps perm (ent (mem t) d)"
      "setupkvm_loop d ((a, ps, pe, perm) # ks) t = setupkvm_loop d ks u" by blast
  have "F = (us @ vs) @ hs" using b(1) gs by simp
  then show ?thesis using builds_grows [OF b(2) g] u by blast
qed

lemma le_pred: "0 < y \<Longrightarrow> x \<le> y - 1 \<longleftrightarrow> x < (y :: uint)"
  by (simp add: word_less_nat_alt word_le_nat_alt unat_sub) linarith

definition kernel_placed :: "uint \<Rightarrow> bool" where
  "kernel_placed kd \<longleftrightarrow> aligned kd \<and> KERNLINK < kd \<and> kd < P2V PHYSTOP"

definition kregion :: "uint \<Rightarrow> nat \<Rightarrow> uint \<Rightarrow> uint" where
  "kregion kd n = [\<lambda>_. 0,
     region KERNBASE (KERNLINK - 1) 0 PTE_W (\<lambda>_. 0),
     region KERNLINK (kd - 1) (V2P KERNLINK) 0 (region KERNBASE (KERNLINK - 1) 0 PTE_W (\<lambda>_. 0)),
     region kd (P2V PHYSTOP - 1) (V2P kd) PTE_W (region KERNLINK (kd - 1) (V2P KERNLINK) 0 (region KERNBASE (KERNLINK - 1) 0 PTE_W (\<lambda>_. 0)))] ! n"

lemma kregion_step:
  "kregion kd 1 = region KERNBASE (KERNLINK - 1) 0 PTE_W (kregion kd 0)"
  "kregion kd 2 = region KERNLINK (kd - 1) (V2P KERNLINK) 0 (kregion kd 1)"
  "kregion kd 3 = region kd (P2V PHYSTOP - 1) (V2P kd) PTE_W (kregion kd 2)"
  by (simp_all add: kregion_def)

lemma kernel_regions:
  assumes "kernel_placed kd"
  shows "\<forall>w. KERNBASE \<le> w \<and> w \<le> KERNLINK - 1 \<longrightarrow> kregion kd 0 w = 0"
    "\<forall>w. KERNLINK \<le> w \<and> w \<le> kd - 1 \<longrightarrow> kregion kd 1 w = 0"
    "\<forall>w. kd \<le> w \<and> w \<le> P2V PHYSTOP - 1 \<longrightarrow> kregion kd 2 w = 0"
    "\<forall>w. DEVSPACE \<le> w \<and> w \<le> - 1 \<longrightarrow> kregion kd 3 w = 0"
    "region DEVSPACE (- 1) DEVSPACE PTE_W (kregion kd 3) = kernel_entry kd"
proof -
  have o: "KERNBASE < KERNLINK" "P2V PHYSTOP < DEVSPACE" "KERNLINK < kd" "kd < P2V PHYSTOP"
    using assms(1) by (auto simp: kernel_placed_def layout_defs P2V_def)
  then have "0 < KERNLINK" "0 < kd" "0 < P2V PHYSTOP" by (auto intro: le_less_trans [OF word_zero_le])
  note p = this [THEN le_pred]
  have n: "[a, b, x, y] ! 1 = b" "[a, b, x, y] ! 2 = x" "[a, b, x, y] ! 3 = y" for a b x y :: "uint \<Rightarrow> uint" by simp_all
  show "\<forall>w. KERNBASE \<le> w \<and> w \<le> KERNLINK - 1 \<longrightarrow> kregion kd 0 w = 0" by (simp add: kregion_def)
  show "\<forall>w. KERNLINK \<le> w \<and> w \<le> kd - 1 \<longrightarrow> kregion kd 1 w = 0"
    "\<forall>w. kd \<le> w \<and> w \<le> P2V PHYSTOP - 1 \<longrightarrow> kregion kd 2 w = 0"
    "\<forall>w. DEVSPACE \<le> w \<and> w \<le> - 1 \<longrightarrow> kregion kd 3 w = 0"
    using o unfolding kregion_def n region_def by (auto simp: p)
  show "region DEVSPACE (- 1) DEVSPACE PTE_W (kregion kd 3) = kernel_entry kd"
  proof
    fix w :: uint
    have c: "KERNBASE < KERNLINK" "KERNLINK < kd" "kd < P2V PHYSTOP" "P2V PHYSTOP < DEVSPACE" "w \<le> - 1"
      using o by (simp_all add: word_order.extremum)
    consider "w < KERNBASE" | "KERNBASE \<le> w" "w < KERNLINK" | "KERNLINK \<le> w" "w < kd" | "kd \<le> w" "w < P2V PHYSTOP"
      | "P2V PHYSTOP \<le> w" "w < DEVSPACE" | "DEVSPACE \<le> w" by fastforce
    then show "region DEVSPACE (- 1) DEVSPACE PTE_W (kregion kd 3) w = kernel_entry kd w"
      using c unfolding kregion_def n region_def kernel_entry_def V2P_def p by cases auto
  qed
qed

lemma setupkvm_builds:
  assumes "kmem_ready c s" "free_chain s fs" "1025 \<le> length fs" "kernel_placed (kdata s)"
  shows "\<exists>us gs t. fs = us @ gs \<and> setupkvm s = Inr (hd fs, t) \<and> builds c s us gs (hd fs) t
    \<and> ent (mem t) (hd fs) = kernel_entry (kdata s)"
proof -
  obtain d fs0 where fs: "fs = d # fs0" using assms(3) by (cases fs) auto
  from new_directory [OF assms(1) assms(2) [unfolded fs]] obtain t0 where
    k: "kalloc s = Inr (d, s\<lparr>freelist := read32 (mem s) d\<rparr>)"
    and t0: "t0 = s\<lparr>freelist := read32 (mem s) d, mem := memset (mem s) d 0 PGSIZE\<rparr>"
    and b0: "builds c s [d] fs0 d t0" and e0: "ent (mem t0) d = (\<lambda>_. 0)" and n0: "tabs (mem t0) d = {}" by blast
  let ?K = "kdata s"
  have start: "setupkvm s = setupkvm_loop d [(KERNBASE, 0, EXTMEM, PTE_W), (KERNLINK, V2P KERNLINK, V2P ?K, 0),
      (?K, V2P ?K, PHYSTOP, PTE_W), (DEVSPACE, DEVSPACE, 0, PTE_W)] t0"
    using b0 by (simp add: setupkvm_def k t0 builds_def kmap_def Let_def) (simp add: layout_defs P2V_def)
  have al: "aligned KERNBASE" "aligned KERNLINK" "aligned ?K" "aligned (P2V PHYSTOP)" "aligned DEVSPACE"
    and o: "KERNLINK < ?K" "?K < P2V PHYSTOP"
    using assms(4) by (simp_all add: kernel_placed_def) (simp_all add: layout_defs P2V_def)
  have le: "KERNBASE \<le> KERNLINK - 1" "KERNLINK \<le> ?K - 1" "?K \<le> P2V PHYSTOP - 1" "DEVSPACE \<le> - 1"
    using o le_pred [of ?K KERNLINK] le_pred [of "P2V PHYSTOP" ?K] by (auto simp: layout_defs P2V_def intro: le_less_trans [OF word_zero_le])
  have F0: "fs = [d] @ fs0" by (simp add: fs)
  have ends: "KERNBASE + (EXTMEM - 0) - 1 = KERNLINK - 1" "KERNLINK + (V2P ?K - V2P KERNLINK) - 1 = ?K - 1"
    "?K + (PHYSTOP - V2P ?K) - 1 = P2V PHYSTOP - 1" "DEVSPACE + (0 - DEVSPACE) - 1 = - 1" by (simp_all add: V2P_def P2V_def KERNLINK_def)
  have al': "aligned (KERNLINK - 1 + 1)" "aligned (?K - 1 + 1)" "aligned (P2V PHYSTOP - 1 + 1)" "aligned ((- 1 :: uint) + 1)" using al by simp_all
  note free = kernel_regions [OF assms(4)]
  have k0: "ent (mem t0) d = kregion ?K 0" by (simp add: e0 kregion_def)
  from build_region [OF F0 b0 assms(3) ends(1) al(1) al'(1) le(1), unfolded k0, OF free(1), of PTE_W, folded kregion_step(1)]
  obtain u1 g1 t1 where 1: "fs = u1 @ g1" "builds c s u1 g1 d t1" and k1: "ent (mem t1) d = kregion ?K 1"
    and s1: "setupkvm s = setupkvm_loop d [(KERNLINK, V2P KERNLINK, V2P ?K, 0), (?K, V2P ?K, PHYSTOP, PTE_W), (DEVSPACE, DEVSPACE, 0, PTE_W)] t1"
    unfolding start by blast
  from build_region [OF 1 assms(3) ends(2) al(2) al'(2) le(2), unfolded k1, OF free(2), of 0, folded kregion_step(2)]
  obtain u2 g2 t2 where 2: "fs = u2 @ g2" "builds c s u2 g2 d t2" and k2: "ent (mem t2) d = kregion ?K 2"
    and s2: "setupkvm s = setupkvm_loop d [(?K, V2P ?K, PHYSTOP, PTE_W), (DEVSPACE, DEVSPACE, 0, PTE_W)] t2"
    unfolding s1 by blast
  from build_region [OF 2 assms(3) ends(3) al(3) al'(3) le(3), unfolded k2, OF free(3), of PTE_W, folded kregion_step(3)]
  obtain u3 g3 t3 where 3: "fs = u3 @ g3" "builds c s u3 g3 d t3" and k3: "ent (mem t3) d = kregion ?K 3"
    and s3: "setupkvm s = setupkvm_loop d [(DEVSPACE, DEVSPACE, 0, PTE_W)] t3"
    unfolding s2 by blast
  from build_region [OF 3 assms(3) ends(4) al(5) al'(4) le(4), unfolded k3, OF free(4), of PTE_W]
  obtain u4 g4 t4 where 4: "fs = u4 @ g4" "builds c s u4 g4 d t4" "ent (mem t4) d = kernel_entry ?K" "setupkvm s = setupkvm_loop d [] t4"
    unfolding s3 free(5) by blast
  moreover have "hd fs = d" by (simp add: fs)
  ultimately show ?thesis using 4 by auto
qed

section \<open>Copying an address space\<close>

text \<open>The page a user address is in and the byte at it, as the directory maps them.\<close>

definition upage :: "memory \<Rightarrow> uint \<Rightarrow> uint \<Rightarrow> uint" where
  "upage m d v = P2V (PTE_ADDR (ent m d v))"

definition user_byte :: "memory \<Rightarrow> uint \<Rightarrow> uint \<Rightarrow> uchar" where
  "user_byte m d v = m (upage m d v + (v - PGROUNDDOWN v))"

lemma upage_aligned: "aligned (upage m d v)"
proof -
  have "PTE_ADDR e = PGROUNDDOWN e" for e by (simp add: PTE_ADDR_def PGROUNDDOWN_def PGSIZE_def)
  then show ?thesis using V2P_aligned(2) PGROUNDDOWN_aligned by (simp add: upage_def)
qed

lemma byte_page: "aligned p \<Longrightarrow> PGROUNDDOWN (p + (v - PGROUNDDOWN v)) = p"
  using page_of_offset [of p "unat (v - PGROUNDDOWN v)"] page_offset_less [of v] by simp

lemma same_byte:
  assumes "same_outside S m m'" "ent m' d v = ent m d v" "upage m d v \<notin> S"
  shows "upage m' d v = upage m d v" "user_byte m' d v = user_byte m d v"
  using assms byte_page [OF upage_aligned, of m d v v] by (auto simp: same_outside_def user_byte_def upage_def)

lemma copy_page:
  assumes "page_ok s p" "page_ok s q"
  shows "memmove m p q PGSIZE a = (if PGROUNDDOWN a = p then m (q + (a - p)) else m a)"
proof -
  have low: "unat x < 0x8E000000" if "page_ok s x" for x
  proof -
    have "V2P x < PHYSTOP" using that by (simp add: page_ok_def)
    then have "unat (V2P x) < 0xE000000" by (simp add: word_less_nat_alt PHYSTOP_def)
    moreover have "unat (V2P x + KERNBASE) \<le> unat (V2P x) + unat KERNBASE"
      unfolding unat_word_ariths(1) by (rule mod_less_eq_dividend)
    ultimately show ?thesis by (simp add: KERNBASE_def V2P_def)
  qed
  have "aligned p" using assms(1) by (simp add: page_ok_def)
  then show ?thesis using memmove_eq [of p PGSIZE q m a] low [OF assms(1)] low [OF assms(2)] in_page [of p a] by (simp add: PGSIZE_def)
qed

lemma page_split:
  assumes "aligned i" "i \<le> KERNBASE"
  shows "w < i + PGSIZE \<longleftrightarrow> w < i \<or> PGROUNDDOWN w = i" "unat (i + PGSIZE) = unat i + 4096" "aligned (i + PGSIZE)"
    "i < w \<Longrightarrow> PGROUNDDOWN w \<noteq> i \<Longrightarrow> i + PGSIZE \<le> w" "PGROUNDDOWN w = i \<Longrightarrow> i \<le> w"
proof -
  show al: "aligned (i + PGSIZE)" by (rule aligned_add [OF assms(1)]) simp
  have "unat i \<le> 0x80000000" using assms(2) by (simp add: word_le_nat_alt KERNBASE_def)
  then show u: "unat (i + PGSIZE) = unat i + 4096" by (simp add: PGSIZE_def unat_word_ariths)
  obtain k where k: "unat i = 4096 * k" using assms(1) by (auto simp: page_aligned)
  define W r where "W = unat w div 4096" and "r = unat w mod 4096"
  have W: "unat w = 4096 * W + r" "r < 4096" "unat (PGROUNDDOWN w) = 4096 * W" by (simp_all add: W_def r_def unat_page)
  have e: "PGROUNDDOWN w = i \<longleftrightarrow> W = k" using W(3) k by (simp add: word_unat_eq_iff)
  show "w < i + PGSIZE \<longleftrightarrow> w < i \<or> PGROUNDDOWN w = i" using W(1,2) k unfolding e word_less_nat_alt u by linarith
  show "i < w \<Longrightarrow> PGROUNDDOWN w \<noteq> i \<Longrightarrow> i + PGSIZE \<le> w" using W(1,2) k unfolding e word_less_nat_alt word_le_nat_alt u by linarith
  show "PGROUNDDOWN w = i \<Longrightarrow> i \<le> w" using W(1,2) k unfolding e word_le_nat_alt by linarith
qed

text \<open>
  The parent: every page below \<open>sz\<close> is mapped, present, a page of the allocator, and neither its
  pages nor its tables are free.
\<close>

definition parent_ok :: "'z kmem_state_scheme \<Rightarrow> uint \<Rightarrow> uint \<Rightarrow> uint list \<Rightarrow> bool" where
  "parent_ok s pd sz fs \<longleftrightarrow> free_chain s fs \<and> sz \<le> KERNBASE \<and> pgdir_ok (mem s) pd \<and> ptpages (mem s) pd \<inter> set fs = {}
     \<and> (\<forall>v. v < sz \<longrightarrow> ent (mem s) pd v AND PTE_P \<noteq> 0 \<and> page_ok s (upage (mem s) pd v) \<and> upage (mem s) pd v \<notin> set fs)"

text \<open>At \<open>v\<close> the directory maps a page taken from \<open>us\<close>, with a given byte and permissions.\<close>

definition filled :: "(uint \<Rightarrow> uchar \<times> uint) \<Rightarrow> uint list \<Rightarrow> memory \<Rightarrow> uint \<Rightarrow> uint \<Rightarrow> bool" where
  "filled want us m d v \<longleftrightarrow> upage m d v \<in> set us - ptpages m d \<and> PTE_FLAGS (ent m d v) = snd (want v)
     \<and> user_byte m d v = fst (want v)"

text \<open>
  The state of a loop that fills and maps the pages from \<open>a\<close> on and has come to \<open>i\<close>. It started in \<open>s\<close> with the
  pages \<open>B\<close> in tables of \<open>d\<close> and the entries \<open>E\<close>, and has taken \<open>us\<close> from the free list.
\<close>

definition fill_inv ::
  "nat \<Rightarrow> 'z kmem_state_scheme \<Rightarrow> uint set \<Rightarrow> (uint \<Rightarrow> uint) \<Rightarrow> uint \<Rightarrow> (uint \<Rightarrow> uchar \<times> uint) \<Rightarrow> uint \<Rightarrow> uint list \<Rightarrow> uint list \<Rightarrow> uint \<Rightarrow> 'z kmem_state_scheme \<Rightarrow> bool"
where
  "fill_inv c s B E a want d us fs i t \<longleftrightarrow> vm_ok c t d fs \<and> only_mem s t \<and> ptpages (mem t) d \<subseteq> B \<union> set us
     \<and> same_outside (B \<union> set us) (mem s) (mem t) \<and> a \<le> i \<and> (\<forall>w. w < a \<or> i \<le> w \<longrightarrow> ent (mem t) d w = E w)
     \<and> (\<forall>w. a \<le> w \<and> w < i \<longrightarrow> filled want us (mem t) d w)
     \<and> (\<forall>v w. a \<le> v \<and> v < i \<and> a \<le> w \<and> w < i \<and> upage (mem t) d v = upage (mem t) d w \<longrightarrow> PGROUNDDOWN v = PGROUNDDOWN w)"

lemma walk_present:
  assumes "pgdir_ok m pd" "ent m pd v AND PTE_P \<noteq> 0" "m = mem s"
  shows "\<exists>pte. walkpgdir pd v False s = Inr (pte, s) \<and> pte \<noteq> 0 \<and> read32 (mem s) pte = ent m pd v"
proof -
  have h: "has m pd (PDX v)" using assms(2) by (auto simp: ent_def split: if_splits)
  then have "PDX v \<in> tabs m pd" using index_less by (simp add: tabs_def)
  then have "entry_at (tab m pd (PDX v)) (PTX v) \<noteq> 0"
    using assms(1) index_less by (intro entry_nonzero) (auto simp: pgdir_ok_def)
  then show ?thesis using h assms(3)
    by (intro exI [of _ "entry_at (tab m pd (PDX v)) (PTX v)"]) (auto simp: walkpgdir_def has_def tab_def rd_def ent_def)
qed

lemma flags_present:
  assumes "e AND PTE_P \<noteq> 0" shows "PTE_FLAGS e OR PTE_P = PTE_FLAGS e" "PTE_FLAGS (PTE_FLAGS e) = PTE_FLAGS e"
proof -
  have "bit e 0" using assms by (simp add: present_iff)
  then show "PTE_FLAGS e OR PTE_P = PTE_FLAGS e"
    unfolding PTE_FLAGS_def low_twelve PTE_P_def by (intro bit_word_eqI) (auto simp: bit_simps)
  show "PTE_FLAGS (PTE_FLAGS e) = PTE_FLAGS e" unfolding PTE_FLAGS_def low_twelve by simp
qed

text \<open>Taking a page and filling it.\<close>

lemma take_page:
  assumes ok: "vm_ok c s d (p # fs)" and so: "same_outside {p} (mem s) m"
  shows "\<exists>t. kalloc s = Inr (p, s\<lparr>freelist := read32 (mem s) p\<rparr>) \<and> t = s\<lparr>freelist := read32 (mem s) p, mem := m\<rparr>
    \<and> vm_ok c t d fs \<and> only_mem s t \<and> mem t = m \<and> ent m d = ent (mem s) d
    \<and> ptpages m d = ptpages (mem s) d \<and> tabs m d = tabs (mem s) d"
proof -
  define t where "t = s\<lparr>freelist := read32 (mem s) p, mem := m\<rparr>"
  have mt: "mem t = m" by (simp add: t_def)
  note v = vm_okD [OF ok]
  note k = kalloc_chain [OF v(1,2)]
  have p: "p \<notin> set fs" "p \<notin> ptpages (mem s) d" using v by auto
  have "{p} \<inter> ptpages (mem s) d = {}" using p(2) by simp
  note g = pgdir_cong [OF v(3) so this]
  have "free_chain t fs" using free_chain_keep [OF k(2), of "{p}" m] so p(1) by (simp add: t_def)
  then have "vm_ok c t d fs" using v(1,4) g by (simp add: vm_ok_def mt) (simp add: t_def frames)
  then show ?thesis using k(1) g
    by (intro exI [of _ t]) (simp add: mt, simp add: t_def)
qed

text \<open>Mapping one page of the user half.\<close>

lemma map_page:
  assumes "vm_ok c u d fs" "1024 \<le> length fs + card (tabs (mem u) d)" "aligned i" "ent (mem u) d i AND PTE_P = 0"
  shows "\<exists>vs gs t. fs = vs @ gs \<and> mappages d i PGSIZE pa f u = Inr (0, t) \<and> grows c d u vs gs t
    \<and> ent (mem t) d = mapped (ent (mem u) d) i i pa f"
proof -
  have last: "PGROUNDDOWN (i + PGSIZE - 1) = i" using page_of_offset [OF assms(3), of 4095] by (simp add: PGSIZE_def add.commute)
  have "ent (mem u) d w AND PTE_P = 0" if "PGROUNDDOWN w = i" for w
    using that page_self [OF assms(3)] same_page_ent [of w i "mem u" d] assms(4) by (simp add: same_page_iff)
  then have "\<forall>w. PGROUNDDOWN w - PGROUNDDOWN i \<le> PGROUNDDOWN (i + PGSIZE - 1) - PGROUNDDOWN i \<longrightarrow> ent (mem u) d w AND PTE_P = 0"
    unfolding last page_self [OF assms(3)] by simp
  from mappages_maps_ranges [OF assms(1,2) this, of pa f] show ?thesis unfolding last page_self [OF assms(3)] by blast
qed

lemma parent_unchanged:
  assumes "parent_ok s pd sz F" "same_outside (set us) (mem s) m" "set us \<subseteq> set F"
  shows "pgdir_ok m pd" "ent m pd = ent (mem s) pd" "v < sz \<Longrightarrow> upage m pd v = upage (mem s) pd v"
    "v < sz \<Longrightarrow> user_byte m pd v = user_byte (mem s) pd v"
proof -
  have "set us \<inter> ptpages (mem s) pd = {}" "pgdir_ok (mem s) pd" using assms(1,3) by (auto simp: parent_ok_def)
  then show g: "pgdir_ok m pd" "ent m pd = ent (mem s) pd" using pgdir_cong [OF _ assms(2)] by auto
  show "upage m pd v = upage (mem s) pd v" "user_byte m pd v = user_byte (mem s) pd v" if "v < sz"
  proof -
    have "upage (mem s) pd v \<notin> set us" using assms(1,3) that by (auto simp: parent_ok_def)
    from same_byte [OF assms(2) _ this] g(2) show "upage m pd v = upage (mem s) pd v" "user_byte m pd v = user_byte (mem s) pd v" by simp_all
  qed
qed

text \<open>
  One round, from \<open>v\<close> over the state \<open>u\<close> in which page \<open>p\<close> has been taken and filled, to \<open>t\<close> in which it is mapped. First what
  it does to the addresses before \<open>i\<close>.
\<close>

lemma fill_round_old:
  assumes inv: "fill_inv c s B E a want d us (p # fs) i v" and F: "distinct (us @ p # fs)" "B \<inter> set us = {}" "p \<notin> B"
    and so: "same_outside (insert p (ptpages (mem t) d)) (mem v) (mem t)" and pt: "ptpages (mem t) d = ptpages (mem v) d \<union> set vs"
    and vs: "set vs \<subseteq> set fs" and e: "ent (mem t) d w = ent (mem v) d w" and w: "a \<le> w" "w < i"
  shows "upage (mem t) d w = upage (mem v) d w" "upage (mem v) d w \<in> set us" "filled want (us @ p # vs) (mem t) d w"
proof -
  have f: "filled want us (mem v) d w" using inv w unfolding fill_inv_def by blast
  then have c: "upage (mem v) d w \<in> set us" "upage (mem v) d w \<notin> ptpages (mem v) d" by (auto simp: filled_def)
  have n: "upage (mem v) d w \<notin> insert p (ptpages (mem t) d)" using pt F c vs by auto
  note k = same_byte [OF so e n]
  show "upage (mem t) d w = upage (mem v) d w" "upage (mem v) d w \<in> set us" by (fact k(1), fact c(1))
  show "filled want (us @ p # vs) (mem t) d w" using f k n e by (simp add: filled_def)
qed

lemma fill_round:
  assumes inv: "fill_inv c s B E a want d us (p # fs) i v" and F: "distinct (us @ p # fs)" "B \<inter> set (us @ p # fs) = {}"
    and u: "only_mem v u" "same_outside {p} (mem v) (mem u)" "ent (mem u) d = ent (mem v) d" "ptpages (mem u) d = ptpages (mem v) d"
    and t: "fs = vs @ gs" "grows c d u vs gs t" "ent (mem t) d = mapped (ent (mem u) d) i i (V2P p) f"
    and i: "aligned i" "i < KERNBASE" and al: "aligned p" and f: "PTE_FLAGS (f OR PTE_P) = f OR PTE_P"
    and new: "\<forall>w. PGROUNDDOWN w = i \<longrightarrow> want w = (mem u (p + (w - PGROUNDDOWN w)), f OR PTE_P)"
  shows "fill_inv c s B E a want d (us @ p # vs) gs (i + PGSIZE) t"
proof -
  note g = growsD [OF t(2)]
  have iv: "only_mem s v" "ptpages (mem v) d \<subseteq> B \<union> set us" "same_outside (B \<union> set us) (mem s) (mem v)" "a \<le> i"
    "\<And>w. w < a \<or> i \<le> w \<Longrightarrow> ent (mem v) d w = E w"
    "\<And>x w. a \<le> x \<and> x < i \<and> a \<le> w \<and> w < i \<and> upage (mem v) d x = upage (mem v) d w \<Longrightarrow> PGROUNDDOWN x = PGROUNDDOWN w"
    using inv unfolding fill_inv_def by blast+
  note split = page_split [OF i(1) less_imp_le [OF i(2)]]
  have pt: "ptpages (mem t) d = ptpages (mem v) d \<union> set vs" using g(3) u(4) by simp
  have so: "same_outside (insert p (ptpages (mem t) d)) (mem v) (mem t)" by (rule same_outside_trans [OF u(2) g(4)]) auto
  have old: "ent (mem t) d w = ent (mem v) d w" if "PGROUNDDOWN w \<noteq> i" for w using that by (simp add: t(3) mapped_def u(3))
  have pn: "p \<notin> ptpages (mem t) d" using pt iv(2) F t(1) by auto
  have en: "upage (mem t) d w = p" "PTE_FLAGS (ent (mem t) d w) = f OR PTE_P" if "PGROUNDDOWN w = i" for w
    using that pte_parts [OF V2P_aligned(1) [OF al] f] by (simp_all add: t(3) mapped_def upage_def or.assoc)
  have new': "filled want (us @ p # vs) (mem t) d w" if w: "PGROUNDDOWN w = i" for w
  proof -
    have "mem t (p + (w - PGROUNDDOWN w)) = mem u (p + (w - PGROUNDDOWN w))"
      using g(4) pn byte_page [OF al] by (simp add: same_outside_def)
    then show ?thesis using en [OF w] new w pn by (simp add: filled_def user_byte_def)
  qed
  have before: "PGROUNDDOWN w \<noteq> i" if "w < i" for w using split(5) [of w] that by (metis not_le)
  have keep: "upage (mem t) d w = upage (mem v) d w" "upage (mem v) d w \<in> set us" "filled want (us @ p # vs) (mem t) d w"
    if "a \<le> w" "w < i" for w
    by (rule fill_round_old [OF inv F(1) _ _ so pt _ old [OF before [OF that(2)]] that]; use F(2) t(1) in auto)+
  have z: "w < i \<or> PGROUNDDOWN w = i" if "w < i + PGSIZE" for w using split(1) that by simp
  have rest: "ent (mem t) d w = E w" if "w < a \<or> i + PGSIZE \<le> w" for w
  proof (cases "w < a")
    case True
    then show ?thesis using old [OF before] iv(4,5) by (metis less_le_trans)
  next
    case False
    then have "i \<le> w" "PGROUNDDOWN w \<noteq> i" using that split(1) [of w] by (auto simp: not_less [symmetric])
    then show ?thesis using old iv(5) by simp
  qed
  have dist: "PGROUNDDOWN x = PGROUNDDOWN w"
    if q: "a \<le> x \<and> x < i + PGSIZE \<and> a \<le> w \<and> w < i + PGSIZE \<and> upage (mem t) d x = upage (mem t) d w" for x w
  proof -
    have o: "upage (mem t) d y \<noteq> p" if "a \<le> y" "y < i" for y using keep(1,2) [OF that] F(1) by auto
    show ?thesis
    proof (cases "x < i \<and> w < i")
      case True
      then show ?thesis using iv(6) [of x w] keep(1) [of x] keep(1) [of w] q by simp
    next
      case False
      then show ?thesis using z [of x] z [of w] o [of x] o [of w] en(1) [of x] en(1) [of w] q by auto
    qed
  qed
  have "only_mem s t" by (rule only_mem_trans [OF iv(1) only_mem_trans [OF u(1) g(2)]])
  moreover have "same_outside (B \<union> set (us @ p # vs)) (mem s) (mem t)"
    by (rule same_outside_trans [OF iv(3) so]) (use pt iv(2) in auto)
  moreover have "ptpages (mem t) d \<subseteq> B \<union> set (us @ p # vs)" using pt iv(2) by auto
  moreover have "filled want (us @ p # vs) (mem t) d w" if "a \<le> w \<and> w < i + PGSIZE" for w
    using that new' keep(3) z by blast
  moreover have "i < i + PGSIZE" using split(2) by (simp add: word_less_nat_alt)
  then have "a \<le> i + PGSIZE" using iv(4) by (meson less_imp_le order_trans)
  ultimately show ?thesis unfolding fill_inv_def using g(1) rest dist by blast
qed

definition parent_view :: "memory \<Rightarrow> uint \<Rightarrow> uint \<Rightarrow> uchar \<times> uint" where
  "parent_view m pd v = (user_byte m pd v, PTE_FLAGS (ent m pd v))"

lemma copy_step:
  assumes par: "parent_ok s pd sz F" and F: "F = us @ fs" and inv: "fill_inv c s {} E 0 (parent_view (mem s) pd) d us fs i v"
    and E: "\<forall>w<KERNBASE. E w = 0" and i: "aligned i" "i < sz" and room: "1025 \<le> length fs + card (tabs (mem v) d)"
  shows "\<exists>ws gs t. F = ws @ gs \<and> fill_inv c s {} E 0 (parent_view (mem s) pd) d ws gs (i + PGSIZE) t
    \<and> length fs + card (tabs (mem v) d) = Suc (length gs + card (tabs (mem t) d))
    \<and> copyuvm_loop pd d i sz v = copyuvm_loop pd d (i + PGSIZE) sz t"
proof -
  have iv: "vm_ok c v d fs" "only_mem s v" "same_outside (set us) (mem s) (mem v)" "ent (mem v) d i = E i"
    using inv by (auto simp: fill_inv_def)
  have ib: "i < KERNBASE" using par i(2) by (auto simp: parent_ok_def)
  have "fs \<noteq> []" using room card_tabs(1) [of "mem v" d] by auto
  then obtain p fs1 where fs: "fs = p # fs1" by (cases fs) auto
  have sub: "set us \<subseteq> set F" by (simp add: F)
  note pu = parent_unchanged [OF par iv(3) sub]
  have e: "ent (mem s) pd i AND PTE_P \<noteq> 0" "page_ok s (upage (mem s) pd i)" "distinct F"
    using par i(2) by (auto simp: parent_ok_def free_chain_def)
  have ev: "ent (mem v) pd i AND PTE_P \<noteq> 0" using e(1) pu(2) by simp
  from walk_present [OF pu(1) ev refl] obtain pte where
    w: "walkpgdir pd i False v = Inr (pte, v)" "pte \<noteq> 0" "read32 (mem v) pte = ent (mem v) pd i" by blast
  have q: "page_ok v (upage (mem v) pd i)" using e(2) pu(3) [OF i(2)] only_mem_keeps(2) [OF iv(2)] by simp
  have p: "page_ok v p" "aligned p" "p \<noteq> 0" using vm_okD [OF iv(1)] by (auto simp: fs free_chain_def)
  define m where "m = memmove (mem v) p (upage (mem v) pd i) PGSIZE"
  note cp = copy_page [OF p(1) q, where m = "mem v", folded m_def]
  have so: "same_outside {p} (mem v) m" using cp by (simp add: same_outside_def)
  from take_page [OF iv(1) [unfolded fs] so] obtain u where
    k: "kalloc v = Inr (p, v\<lparr>freelist := read32 (mem v) p\<rparr>)" and ud: "u = v\<lparr>freelist := read32 (mem v) p, mem := m\<rparr>"
    and u: "vm_ok c u d fs1" "only_mem v u" "mem u = m" "ent m d = ent (mem v) d" "ptpages m d = ptpages (mem v) d" "tabs m d = tabs (mem v) d" by blast
  let ?f = "PTE_FLAGS (ent (mem s) pd i)"
  note fl = flags_present [OF e(1)]
  have room': "1024 \<le> length fs1 + card (tabs (mem u) d)" using room by (simp add: fs u(3,6))
  have free: "ent (mem u) d i AND PTE_P = 0" using E ib iv(4) by (simp add: u(3,4))
  from map_page [OF u(1) room' i(1) free, of "V2P p" ?f] obtain vs gs t where
    t: "fs1 = vs @ gs" "grows c d u vs gs t" "ent (mem t) d = mapped (ent (mem u) d) i i (V2P p) ?f"
    and mp: "mappages d i PGSIZE (V2P p) ?f u = Inr (0, t)" by blast
  have new: "parent_view (mem s) pd w = (mem u (p + (w - PGROUNDDOWN w)), ?f OR PTE_P)" if w: "PGROUNDDOWN w = i" for w
  proof -
    have sp: "ent (mem s) pd w = ent (mem s) pd i" using w page_self [OF i(1)] same_page_ent [of w i] by (simp add: same_page_iff)
    then have n: "upage (mem s) pd w = upage (mem s) pd i" by (simp add: upage_def)
    then have "upage (mem s) pd w \<notin> set us" using par i(2) sub by (auto simp: parent_ok_def)
    from same_byte [OF iv(3) _ this] pu(2) have b: "upage (mem v) pd w = upage (mem s) pd w" "user_byte (mem v) pd w = user_byte (mem s) pd w" by simp_all
    have "m (p + (w - PGROUNDDOWN w)) = user_byte (mem v) pd w"
      using cp byte_page [OF p(2), of w] b(1) n pu(3) [OF i(2)] by (simp add: user_byte_def)
    then show ?thesis using b(2) sp fl(1) by (simp add: parent_view_def u(3))
  qed
  have "fill_inv c s {} E 0 (parent_view (mem s) pd) d (us @ p # vs) gs (i + PGSIZE) t"
    by (rule fill_round [OF inv [unfolded fs] _ _ u(2) _ _ _ t i(1) ib p(2)]) (use e(3) F fs new so u fl in auto)
  moreover have "i < i + PGSIZE" using page_split(2) [OF i(1) less_imp_le [OF ib]] by (simp add: word_less_nat_alt)
  then have "copyuvm_loop pd d i sz v = copyuvm_loop pd d (i + PGSIZE) sz t"
    using i(2) ev w k p(3) mp pu(2)
    by (subst copyuvm_loop.simps) (simp add: Let_def ud m_def upage_def not_le [symmetric])
  moreover have "length fs + card (tabs (mem v) d) = Suc (length gs + card (tabs (mem t) d))"
    using growsD(5) [OF t(2)] by (simp add: fs t(1) u(3,6))
  moreover have "F = (us @ p # vs) @ gs" by (simp add: F fs t(1))
  ultimately show ?thesis by blast
qed

lemma copy_done: "sz \<le> i \<Longrightarrow> copyuvm_loop pd d i sz v = Inr (d, v)"
  by (subst copyuvm_loop.simps) (metis not_less)

lemma copy_loop:
  assumes "parent_ok s pd sz F" "F = us @ fs" "fill_inv c s {} E 0 (parent_view (mem s) pd) d us fs i v" "\<forall>w<KERNBASE. E w = 0" "aligned i"
    and "unat sz \<le> unat i + 4096 * n" "1024 + n \<le> length fs + card (tabs (mem v) d)"
  shows "\<exists>ws gs j t. F = ws @ gs \<and> fill_inv c s {} E 0 (parent_view (mem s) pd) d ws gs j t \<and> sz \<le> j \<and> copyuvm_loop pd d i sz v = Inr (d, t)"
  using assms
proof (induction n arbitrary: us fs i v)
  case 0
  then have "sz \<le> i" by (simp add: word_le_nat_alt)
  with 0 copy_done show ?case by blast
next
  case (Suc n)
  show ?case
  proof (cases "i < sz")
    case False
    then have "sz \<le> i" by simp
    with Suc.prems copy_done show ?thesis by blast
  next
    case True
    have "i \<le> KERNBASE" using True Suc.prems(1) by (auto simp: parent_ok_def)
    note split = page_split [OF Suc.prems(5) this]
    have "1025 \<le> length fs + card (tabs (mem v) d)" using Suc.prems(7) by simp
    from copy_step [OF Suc.prems(1-5) True this] obtain ws gs t where
      t: "F = ws @ gs" "fill_inv c s {} E 0 (parent_view (mem s) pd) d ws gs (i + PGSIZE) t"
      "length fs + card (tabs (mem v) d) = Suc (length gs + card (tabs (mem t) d))"
      "copyuvm_loop pd d i sz v = copyuvm_loop pd d (i + PGSIZE) sz t" by blast
    show ?thesis unfolding t(4) by (rule Suc.IH [OF Suc.prems(1) t(1,2) Suc.prems(4) split(3)]) (use Suc.prems(6,7) t(3) split(2) in simp_all)
  qed
qed

text \<open>
  The child of \<open>copyuvm\<close>: at every address below \<open>sz\<close> it has the parent's byte and the parent's
  permissions; its pages came off the free list, and two addresses share a page only where they are
  in the same page of the address space. The parent's address space is as before.
\<close>

definition child_ok :: "'z kmem_state_scheme \<Rightarrow> uint \<Rightarrow> uint \<Rightarrow> uint list \<Rightarrow> uint list \<Rightarrow> uint \<Rightarrow> 'z kmem_state_scheme \<Rightarrow> bool" where
  "child_ok s pd sz us gs d t \<longleftrightarrow> free_chain t gs
     \<and> (\<forall>v. v < sz \<longrightarrow> filled (parent_view (mem s) pd) us (mem t) d v \<and> parent_view (mem t) pd v = parent_view (mem s) pd v)
     \<and> (\<forall>v w. v < sz \<and> w < sz \<and> upage (mem t) d v = upage (mem t) d w \<longrightarrow> PGROUNDDOWN v = PGROUNDDOWN w)"

lemma copyuvm_child:
  assumes "kmem_ready c s" "parent_ok s pd sz fs" "kernel_placed (kdata s)" "unat sz \<le> 4096 * n" "1025 + n \<le> length fs"
  shows "\<exists>us gs d t. fs = us @ gs \<and> copyuvm pd sz s = Inr (d, t) \<and> d \<noteq> 0 \<and> child_ok s pd sz us gs d t"
proof -
  let ?d = "hd fs" and ?E = "kernel_entry (kdata s)"
  have ch: "free_chain s fs" using assms(2) by (simp add: parent_ok_def)
  have "1025 \<le> length fs" using assms(5) by simp
  from setupkvm_builds [OF assms(1) ch this assms(3)] obtain us gs v where fs: "fs = us @ gs" and sv: "setupkvm s = Inr (?d, v)"
    and b: "builds c s us gs ?d v" and e: "ent (mem v) ?d = ?E" by blast
  have bb: "vm_ok c v ?d gs" "only_mem s v" "?d \<noteq> 0" "ptpages (mem v) ?d = set us" "same_outside (set us) (mem s) (mem v)"
    "length us = Suc (card (tabs (mem v) ?d))" using b by (simp_all add: builds_def)
  have "fill_inv c s {} ?E 0 (parent_view (mem s) pd) ?d us gs 0 v" using bb by (simp add: fill_inv_def e)
  moreover have "1024 + n \<le> length gs + card (tabs (mem v) ?d)" using assms(5) bb(6) arg_cong [OF fs, of length] by simp
  moreover have "\<forall>w<KERNBASE. ?E w = 0" by (simp add: kernel_entry_def)
  ultimately obtain ws hs j t where t: "fs = ws @ hs" "fill_inv c s {} ?E 0 (parent_view (mem s) pd) ?d ws hs j t" "sz \<le> j"
    "copyuvm_loop pd ?d 0 sz v = Inr (?d, t)"
    using copy_loop [OF assms(2) fs, of c ?E ?d 0 v n] assms(4) by auto
  have tt: "vm_ok c t ?d hs" "same_outside ({} \<union> set ws) (mem s) (mem t)"
    "\<And>w. 0 \<le> w \<and> w < j \<Longrightarrow> filled (parent_view (mem s) pd) ws (mem t) ?d w"
    "\<And>v w. 0 \<le> v \<and> v < j \<and> 0 \<le> w \<and> w < j \<and> upage (mem t) ?d v = upage (mem t) ?d w \<Longrightarrow> PGROUNDDOWN v = PGROUNDDOWN w"
    using t(2) unfolding fill_inv_def by blast+
  have "set ws \<subseteq> set fs" using arg_cong [OF t(1), of set] by auto
  note pu = parent_unchanged [OF assms(2) tt(2) [unfolded Un_empty_left] this]
  have "filled (parent_view (mem s) pd) ws (mem t) ?d v \<and> parent_view (mem t) pd v = parent_view (mem s) pd v" if "v < sz" for v
    using tt(3) [of v] pu(2) pu(4) [OF that] less_le_trans [OF that t(3)] by (simp add: parent_view_def)
  moreover have "PGROUNDDOWN v = PGROUNDDOWN w" if "v < sz \<and> w < sz \<and> upage (mem t) ?d v = upage (mem t) ?d w" for v w
    using tt(4) [of v w] that less_le_trans [OF _ t(3)] by simp
  ultimately have "child_ok s pd sz ws hs ?d t" unfolding child_ok_def using vm_okD(2) [OF tt(1)] by blast
  moreover have "copyuvm pd sz s = Inr (?d, t)" using sv bb(3) t(4) by (simp add: copyuvm_def)
  ultimately show ?thesis using t(1) bb(3) by blast
qed

section \<open>Growing an address space\<close>

definition fresh_view :: "uint \<Rightarrow> uchar \<times> uint" where
  "fresh_view v = (0, PTE_W OR PTE_U OR PTE_P)"

lemma alloc_step:
  assumes inv: "fill_inv c s B E a fresh_view d us fs i v" and F: "distinct (us @ fs)" "B \<inter> set (us @ fs) = {}" and E: "E i AND PTE_P = 0"
    and i: "aligned i" "i < newsz" "newsz < KERNBASE" and room: "1025 \<le> length fs + card (tabs (mem v) d)"
  shows "\<exists>ws gs t. us @ fs = ws @ gs \<and> fill_inv c s B E a fresh_view d ws gs (i + PGSIZE) t
    \<and> length fs + card (tabs (mem v) d) = Suc (length gs + card (tabs (mem t) d))
    \<and> allocuvm_loop d i oldsz newsz v = allocuvm_loop d (i + PGSIZE) oldsz newsz t"
proof -
  have iv: "vm_ok c v d fs" "ent (mem v) d i = E i" using inv by (auto simp: fill_inv_def)
  have ib: "i < KERNBASE" using i by (meson less_trans)
  have "fs \<noteq> []" using room card_tabs(1) [of "mem v" d] by auto
  then obtain p fs1 where fs: "fs = p # fs1" by (cases fs) auto
  have p: "aligned p" "p \<noteq> 0" using vm_okD [OF iv(1)] by (auto simp: fs)
  define m where "m = memset (mem v) p 0 PGSIZE"
  note z = memset_byte [OF p(1), of "mem v", folded m_def]
  have so: "same_outside {p} (mem v) m" using z by (simp add: same_outside_def)
  from take_page [OF iv(1) [unfolded fs] so] obtain u where
    k: "kalloc v = Inr (p, v\<lparr>freelist := read32 (mem v) p\<rparr>)" and ud: "u = v\<lparr>freelist := read32 (mem v) p, mem := m\<rparr>"
    and u: "vm_ok c u d fs1" "only_mem v u" "mem u = m" "ent m d = ent (mem v) d" "ptpages m d = ptpages (mem v) d" "tabs m d = tabs (mem v) d" by blast
  let ?f = "PTE_W OR PTE_U"
  have fl: "PTE_FLAGS (?f OR PTE_P) = ?f OR PTE_P" by (simp add: PTE_FLAGS_def PTE_W_def PTE_U_def PTE_P_def)
  have room': "1024 \<le> length fs1 + card (tabs (mem u) d)" using room by (simp add: fs u(3,6))
  have free: "ent (mem u) d i AND PTE_P = 0" using E iv(2) by (simp add: u(3,4))
  from map_page [OF u(1) room' i(1) free, of "V2P p" ?f] obtain vs gs t where
    t: "fs1 = vs @ gs" "grows c d u vs gs t" "ent (mem t) d = mapped (ent (mem u) d) i i (V2P p) ?f"
    and mp: "mappages d i PGSIZE (V2P p) ?f u = Inr (0, t)" by blast
  have new: "\<forall>w. PGROUNDDOWN w = i \<longrightarrow> fresh_view w = (mem u (p + (w - PGROUNDDOWN w)), ?f OR PTE_P)"
  proof (intro allI impI)
    show "fresh_view w = (mem u (p + (w - PGROUNDDOWN w)), ?f OR PTE_P)" for w
      using z byte_page [OF p(1), of w] by (simp add: fresh_view_def u(3) or.assoc)
  qed
  have "fill_inv c s B E a fresh_view d (us @ p # vs) gs (i + PGSIZE) t"
    by (rule fill_round [OF inv [unfolded fs] _ _ u(2) _ _ _ t i(1) ib p(1) fl new]) (use F so u fs in simp_all)
  moreover have "i < i + PGSIZE" using page_split(2) [OF i(1) less_imp_le [OF ib]] by (simp add: word_less_nat_alt)
  then have "allocuvm_loop d i oldsz newsz v = allocuvm_loop d (i + PGSIZE) oldsz newsz t"
    using i(2) k p(2) mp by (subst allocuvm_loop.simps) (simp add: Let_def ud m_def not_le [symmetric])
  moreover have "length fs + card (tabs (mem v) d) = Suc (length gs + card (tabs (mem t) d))"
    using growsD(5) [OF t(2)] by (simp add: fs t(1) u(3,6))
  moreover have "us @ fs = (us @ p # vs) @ gs" by (simp add: fs t(1))
  ultimately show ?thesis by blast
qed

lemma alloc_done: "newsz \<le> i \<Longrightarrow> allocuvm_loop d i oldsz newsz v = Inr (newsz, v)"
  by (subst allocuvm_loop.simps) (metis not_less)

lemma alloc_loop:
  assumes "fill_inv c s B E a fresh_view d us fs i v" "distinct F" "B \<inter> set F = {}" "F = us @ fs"
    and "\<forall>w. a \<le> w \<and> w < KERNBASE \<longrightarrow> E w AND PTE_P = 0" "aligned i" "newsz < KERNBASE"
    and "unat newsz \<le> unat i + 4096 * n" "1024 + n \<le> length fs + card (tabs (mem v) d)"
  shows "\<exists>ws gs j t. F = ws @ gs \<and> fill_inv c s B E a fresh_view d ws gs j t \<and> newsz \<le> j \<and> allocuvm_loop d i oldsz newsz v = Inr (newsz, t)"
  using assms
proof (induction n arbitrary: us fs i v)
  case 0
  then have "newsz \<le> i" by (simp add: word_le_nat_alt)
  with 0 alloc_done show ?case by blast
next
  case (Suc n)
  show ?case
  proof (cases "i < newsz")
    case False
    then have "newsz \<le> i" by simp
    with Suc.prems alloc_done show ?thesis by blast
  next
    case True
    have ib: "i < KERNBASE" using True Suc.prems(7) by (meson less_trans)
    have "a \<le> i" using Suc.prems(1) by (simp add: fill_inv_def)
    then have E: "E i AND PTE_P = 0" using Suc.prems(5) ib by blast
    note split = page_split [OF Suc.prems(6) less_imp_le [OF ib]]
    have "1025 \<le> length fs + card (tabs (mem v) d)" using Suc.prems(9) by simp
    from alloc_step [OF Suc.prems(1) Suc.prems(2,3) [unfolded Suc.prems(4)] E Suc.prems(6) True Suc.prems(7) this] obtain ws gs t where
      t: "us @ fs = ws @ gs" "fill_inv c s B E a fresh_view d ws gs (i + PGSIZE) t"
      "length fs + card (tabs (mem v) d) = Suc (length gs + card (tabs (mem t) d))"
      "allocuvm_loop d i oldsz newsz v = allocuvm_loop d (i + PGSIZE) oldsz newsz t" by blast
    show ?thesis unfolding t(4)
      by (rule Suc.IH [OF t(2) Suc.prems(2,3) _ Suc.prems(5) split(3) Suc.prems(7)]) (use Suc.prems(4,8,9) t(1,3) split(2) in simp_all)
  qed
qed

lemma roundup_ge: "a < KERNBASE \<Longrightarrow> unat a \<le> unat (PGROUNDUP a)"
proof -
  assume "a < KERNBASE"
  then have "unat a < 0x80000000" by (simp add: word_less_nat_alt KERNBASE_def)
  then have "unat (a + PGSIZE - 1) = unat a + 4095" by (simp add: PGSIZE_def unat_word_ariths)
  moreover have "PGROUNDUP a = PGROUNDDOWN (a + PGSIZE - 1)" by (simp add: PGROUNDUP_def PGROUNDDOWN_def)
  ultimately have "unat (PGROUNDUP a) = 4096 * ((unat a + 4095) div 4096)" by (simp add: unat_page)
  then show ?thesis by linarith
qed

lemma allocuvm_fresh:
  assumes ok: "vm_ok c s d fs" and sz: "oldsz \<le> newsz" "newsz < KERNBASE"
    and free: "\<forall>w. PGROUNDUP oldsz \<le> w \<and> w < KERNBASE \<longrightarrow> ent (mem s) d w AND PTE_P = 0"
    and old: "\<forall>v. v < PGROUNDUP oldsz \<longrightarrow> upage (mem s) d v \<notin> set fs \<union> ptpages (mem s) d"
    and n: "unat newsz \<le> unat oldsz + 4096 * n" "1024 + n \<le> length fs + card (tabs (mem s) d)"
  shows "\<exists>us gs t. fs = us @ gs \<and> allocuvm d oldsz newsz s = Inr (newsz, t) \<and> vm_ok c t d gs
    \<and> (\<forall>v. PGROUNDUP oldsz \<le> v \<and> v < newsz \<longrightarrow> filled fresh_view us (mem t) d v)
    \<and> (\<forall>v. v < PGROUNDUP oldsz \<longrightarrow> parent_view (mem t) d v = parent_view (mem s) d v)"
proof -
  let ?a = "PGROUNDUP oldsz" and ?B = "ptpages (mem s) d" and ?E = "ent (mem s) d"
  have inv: "fill_inv c s ?B ?E ?a fresh_view d [] fs ?a s"
    unfolding fill_inv_def using ok by (auto dest: leD)
  have le: "unat newsz \<le> unat ?a + 4096 * n" using n(1) roundup_ge [of oldsz] sz by (meson add_le_mono1 le_less_trans order_trans)
  have F: "distinct fs" "?B \<inter> set fs = {}" "fs = [] @ fs" using vm_okD [OF ok] by simp_all
  from alloc_loop [OF inv F free PGROUNDUP_aligned sz(2) le n(2)] obtain us gs j t where
    t: "fs = us @ gs" "fill_inv c s ?B ?E ?a fresh_view d us gs j t" "newsz \<le> j" "allocuvm_loop d ?a oldsz newsz s = Inr (newsz, t)" by blast
  have tt: "vm_ok c t d gs" "same_outside (?B \<union> set us) (mem s) (mem t)" "\<And>w. w < ?a \<or> j \<le> w \<Longrightarrow> ent (mem t) d w = ?E w"
    "\<And>w. ?a \<le> w \<and> w < j \<Longrightarrow> filled fresh_view us (mem t) d w" using t(2) unfolding fill_inv_def by blast+
  have "parent_view (mem t) d v = parent_view (mem s) d v" if "v < ?a" for v
  proof -
    have "upage (mem s) d v \<notin> ?B \<union> set us" using old that t(1) by auto
    from same_byte(2) [OF tt(2) _ this] tt(3) [of v] that show ?thesis by (simp add: parent_view_def)
  qed
  moreover have "filled fresh_view us (mem t) d v" if "?a \<le> v \<and> v < newsz" for v
    using tt(4) [of v] that less_le_trans [OF _ t(3)] by simp
  moreover have "allocuvm d oldsz newsz s = Inr (newsz, t)" using t(4) sz by (auto simp: allocuvm_def)
  ultimately show ?thesis using t(1) tt(1) by blast
qed

section \<open>Properties\<close>

text \<open>The machine with \<open>n\<close> free pages above the kernel, and a process of one page on it.\<close>

definition free_pages :: "nat \<Rightarrow> kmem_state" where
  "free_pages n = fold kfreed (pages_from 0x80200000 n) boot_memory"

lemma fold_kfreed:
  assumes "free_chain s ps" "distinct qs" "\<forall>q\<in>set qs. page_ok s q \<and> q \<notin> set ps"
  shows "free_chain (fold kfreed qs s) (rev qs @ ps) \<and> only_mem s (fold kfreed qs s)"
  using assms
proof (induction qs arbitrary: s ps)
  case (Cons q qs)
  have "free_chain (kfreed q s) (q # ps)" using Cons.prems by (intro free_chain_kfreed) simp_all
  moreover have "\<forall>r\<in>set qs. page_ok (kfreed q s) r \<and> r \<notin> set (q # ps)" using Cons.prems by (auto simp: frames)
  ultimately have "free_chain (fold kfreed qs (kfreed q s)) (rev qs @ q # ps) \<and> only_mem (kfreed q s) (fold kfreed qs (kfreed q s))"
    using Cons.prems(2) by (intro Cons.IH) simp_all
  moreover have "only_mem s (kfreed q s)" by (simp add: only_mem_def kfreed_def)
  ultimately show ?case using only_mem_trans by auto
qed simp

lemma free_pages_ready:
  assumes "n \<le> 4096"
  shows "free_chain (free_pages n) (rev (pages_from 0x80200000 n))" "kmem_ready 0 (free_pages n)" "kernel_placed (kdata (free_pages n))" "kdata (free_pages n) = 0x80108000"
proof -
  let ?p = "pages_from 0x80200000 n"
  have d: "distinct ?p"
  proof -
    have "inj_on (\<lambda>k. (0x80200000 :: uint) + of_nat (k * 4096)) {0..<n}"
    proof (rule inj_onI)
      fix j k assume jk: "j \<in> {0..<n}" "k \<in> {0..<n}" "(0x80200000 :: uint) + of_nat (j * 4096) = 0x80200000 + of_nat (k * 4096)"
      have u: "unat (of_nat (i * 4096) :: uint) = i * 4096" if "i < n" for i
        unfolding unat_of_nat by (rule mod_less) (use that assms in simp)
      have "of_nat (j * 4096) = (of_nat (k * 4096) :: uint)" using jk(3) by (rule add_left_imp_eq)
      then have "j * 4096 = k * 4096" using u [of j] u [of k] jk(1,2) by (metis atLeastLessThan_iff)
      then show "j = k" by simp
    qed
    then show ?thesis by (simp add: pages_from_def distinct_map)
  qed
  have "page_ok boot_memory q" if q: "q \<in> set ?p" for q
  proof -
    obtain k where k: "k < n" "unat q = 0x80200000 + k * 4096" using in_pages_from [OF _ q] assms by auto
    have "unat q mod 4096 = 0" unfolding k(2) by simp
    then show ?thesis using k assms
      by (simp add: page_ok_def page_aligned) (simp add: boot_memory_def machine.defs word_le_nat_alt word_less_nat_alt V2P_def layout_defs unat_sub_if')
  qed
  then have f: "free_chain (free_pages n) (rev ?p @ []) \<and> only_mem boot_memory (free_pages n)"
    unfolding free_pages_def using boot_memory_ready(2) d by (intro fold_kfreed) simp_all
  then show "free_chain (free_pages n) (rev ?p)" by simp
  note k = only_mem_keeps [OF conjunct2 [OF f]]
  show "kmem_ready 0 (free_pages n)" using k(1) boot_memory_ready(1) by simp
  show "kdata (free_pages n) = 0x80108000" unfolding k(3) by (simp add: boot_memory_def machine.defs)
  show "kernel_placed (kdata (free_pages n))" unfolding k(3) by (simp add: kernel_placed_def boot_memory_def machine.defs layout_defs P2V_def)
qed

text \<open>C8. \<open>mappages\<close> refines an update of a function from addresses to entries. Given a directory whose
  pages are not free and enough free pages for the tables it may lack, it succeeds when no page of the
  range is present, whatever tables it has to allocate on the way; afterwards the entry of every page
  from the first to the last of the range maps it to the next physical page with the permissions
  asked for, every other entry is as before, and outside the tables no memory has changed.\<close>
theorem mappages_maps:
  assumes "vm_ok c s d fs" "1024 \<le> length fs + card (tabs (mem s) d)"
    and "\<forall>w. PGROUNDDOWN w - PGROUNDDOWN va \<le> PGROUNDDOWN (va + sz - 1) - PGROUNDDOWN va \<longrightarrow> ent (mem s) d w AND PTE_P = 0"
  shows "\<exists>us gs t. fs = us @ gs \<and> mappages d va sz pa perm s = Inr (0, t) \<and> grows c d s us gs t
    \<and> ent (mem t) d = mapped (ent (mem s) d) (PGROUNDDOWN va) (PGROUNDDOWN (va + sz - 1)) pa perm"
  by (rule mappages_maps_ranges [OF assms])

lemma fresh_directory:
  "\<exists>d fs t. setupkvm (free_pages 4096) = Inr (d, t) \<and> vm_ok 0 t d fs \<and> 3000 \<le> length fs
     \<and> only_mem (free_pages 4096) t \<and> ent (mem t) d = kernel_entry 0x80108000"
proof -
  let ?s = "free_pages 4096" and ?f = "rev (pages_from 0x80200000 4096)"
  note r = free_pages_ready [of 4096, simplified]
  have n: "length ?f = 4096" by (simp add: pages_from_def)
  then have "1025 \<le> length ?f" by simp
  from setupkvm_builds [OF r(2,1) this r(3)] obtain us gs t where t: "?f = us @ gs" "setupkvm ?s = Inr (hd ?f, t)"
    "builds 0 ?s us gs (hd ?f) t" "ent (mem t) (hd ?f) = kernel_entry (kdata ?s)" by blast
  have "length us + length gs = 4096" using n arg_cong [OF t(1), of length] by simp
  moreover have "length us \<le> 1025" using t(3) card_tabs(1) [of "mem t" "hd ?f"] by (simp add: builds_def)
  ultimately have "3000 \<le> length gs" by simp
  then show ?thesis using t(2,3,4) r(4) by (auto simp: builds_def)
qed

theorem mappages_maps_witness:
  "\<exists>d fs s us gs t. setupkvm (free_pages 4096) = Inr (d, s) \<and> fs = us @ gs
    \<and> mappages d 0x3800 0x2000 0x500000 PTE_U s = Inr (0, t) \<and> grows 0 d s us gs t
    \<and> ent (mem t) d = mapped (ent (mem s) d) (PGROUNDDOWN 0x3800) (PGROUNDDOWN (0x3800 + 0x2000 - 1)) 0x500000 PTE_U"
proof -
  obtain d fs s where s: "setupkvm (free_pages 4096) = Inr (d, s)" "vm_ok 0 s d fs" "3000 \<le> length fs"
    "ent (mem s) d = kernel_entry 0x80108000" using fresh_directory by blast
  have r: "PGROUNDDOWN 0x3800 = 0x3000" "PGROUNDDOWN (0x3800 + 0x2000 - 1) = 0x5000" by (simp_all add: PGROUNDDOWN_def PGSIZE_def)
  have "ent (mem s) d w AND PTE_P = 0" if "PGROUNDDOWN w - 0x3000 \<le> 0x5000 - 0x3000" for w
  proof -
    have "w \<le> 0x5FFF" using byte_range [of "0x3000" "0x5FFF" w] that by (simp add: PGSIZE_def PGROUNDDOWN_def)
    then have "w < KERNBASE" by (rule le_less_trans) (simp add: KERNBASE_def)
    then show ?thesis by (simp add: s(4) kernel_entry_def)
  qed
  then have "\<forall>w. PGROUNDDOWN w - PGROUNDDOWN 0x3800 \<le> PGROUNDDOWN (0x3800 + 0x2000 - 1) - PGROUNDDOWN 0x3800 \<longrightarrow> ent (mem s) d w AND PTE_P = 0"
    unfolding r by blast
  moreover have "1024 \<le> length fs + card (tabs (mem s) d)" using s(3) by simp
  ultimately have "\<exists>us gs t. fs = us @ gs \<and> mappages d 0x3800 0x2000 0x500000 PTE_U s = Inr (0, t) \<and> grows 0 d s us gs t
    \<and> ent (mem t) d = mapped (ent (mem s) d) (PGROUNDDOWN 0x3800) (PGROUNDDOWN (0x3800 + 0x2000 - 1)) 0x500000 PTE_U"
    by (intro mappages_maps [OF s(2)])
  with s(1) show ?thesis by blast
qed

text \<open>C10. Every address space has the same kernel half. \<open>setupkvm\<close>, with 1025 free pages, returns a
  directory in which no user address is mapped, the kernel's addresses below \<open>PHYSTOP\<close> map to the
  physical memory at the same distance from \<open>KERNBASE\<close>, the text up to \<open>data\<close> without write
  permission, the devices to themselves, and none of it is accessible to the user.\<close>
theorem setupkvm_maps:
  assumes "kmem_ready c s" "free_chain s fs" "1025 \<le> length fs" "kernel_placed (kdata s)"
  shows "\<exists>d t. setupkvm s = Inr (d, t) \<and> d \<noteq> 0 \<and> pgdir_ok (mem t) d \<and> (\<forall>w. ent (mem t) d w = kernel_entry (kdata s) w)"
proof -
  obtain us gs t where "setupkvm s = Inr (hd fs, t)" "builds c s us gs (hd fs) t" "ent (mem t) (hd fs) = kernel_entry (kdata s)"
    using setupkvm_builds [OF assms] by blast
  then show ?thesis by (auto simp: builds_def vm_ok_def)
qed

theorem setupkvm_maps_witness:
  "\<exists>d t. setupkvm (free_pages 4096) = Inr (d, t) \<and> d \<noteq> 0 \<and> pgdir_ok (mem t) d \<and> (\<forall>w. ent (mem t) d w = kernel_entry 0x80108000 w)"
proof -
  note r = free_pages_ready [of 4096, simplified]
  have "1025 \<le> length (rev (pages_from 0x80200000 4096))" by (simp add: pages_from_def)
  from setupkvm_maps [OF r(2,1) this r(3)] show ?thesis by (simp add: r(4))
qed

text \<open>C3. \<open>fork\<close> gives the child a private copy of its parent's memory. If the parent's pages below
  \<open>sz\<close> are present pages of the allocator and \<open>n\<close> of them, and 1025 + n pages are free, \<open>copyuvm\<close>
  returns a new directory under which every address below \<open>sz\<close> has the byte and the permissions it
  has under the parent's; the child's pages are pages that were free, distinct from its tables and
  from each other, and what the parent sees is unchanged.\<close>
theorem copyuvm_copies:
  assumes "kmem_ready c s" "parent_ok s pd sz fs" "kernel_placed (kdata s)" "unat sz \<le> 4096 * n" "1025 + n \<le> length fs"
  shows "\<exists>us gs d t. fs = us @ gs \<and> copyuvm pd sz s = Inr (d, t) \<and> d \<noteq> 0 \<and> child_ok s pd sz us gs d t"
  by (rule copyuvm_child [OF assms])

lemma one_page_process:
  "\<exists>(s :: kmem_state) pd fs. kmem_ready 0 s \<and> parent_ok s pd 4096 fs \<and> kernel_placed (kdata s) \<and> 1026 \<le> length fs"
proof -
  obtain d fs v where v: "vm_ok 0 v d fs" "3000 \<le> length fs" "only_mem (free_pages 4096) v" "ent (mem v) d = kernel_entry 0x80108000"
    using fresh_directory by blast
  obtain p fs1 where fs: "fs = p # fs1" using v(2) by (cases fs) auto
  note ok = vm_okD [OF v(1)]
  define s where "s = v\<lparr>freelist := read32 (mem v) p\<rparr>"
  have ms: "mem s = mem v" by (simp add: s_def)
  have p: "aligned p" "page_ok v p" "p \<notin> set fs1" using ok by (auto simp: free_chain_def fs)
  have "free_chain s fs1" unfolding s_def by (rule kalloc_chain(2) [OF ok(1) ok(2) [unfolded fs]])
  then have s: "vm_ok 0 s d fs1" using ok(1,3,4) by (simp add: vm_ok_def ms fs) (simp add: s_def frames)
  have r: "PGROUNDDOWN 0 = 0" "PGROUNDDOWN (0 + PGSIZE - 1) = 0" by (simp_all add: PGROUNDDOWN_def PGSIZE_def)
  have pg: "w < PGSIZE" if "PGROUNDDOWN w = 0" for w using page_split(1) [of 0 w] that by simp
  have "ent (mem s) d w AND PTE_P = 0" if "PGROUNDDOWN w = 0" for w
  proof -
    have "w < KERNBASE" by (rule less_trans [OF pg [OF that]]) (simp add: layout_defs)
    then show ?thesis by (simp add: ms v(4) kernel_entry_def)
  qed
  then have free: "\<forall>w. PGROUNDDOWN w - PGROUNDDOWN 0 \<le> PGROUNDDOWN (0 + PGSIZE - 1) - PGROUNDDOWN 0 \<longrightarrow> ent (mem s) d w AND PTE_P = 0"
    unfolding r by simp
  have "1024 \<le> length fs1 + card (tabs (mem s) d)" using v(2) by (simp add: fs)
  from mappages_maps_ranges [OF s this free, of "V2P p" 6, unfolded r] obtain us gs t where t: "fs1 = us @ gs" "grows 0 d s us gs t"
    "ent (mem t) d = mapped (ent (mem s) d) 0 0 (V2P p) 6" by blast
  note g = growsD [OF t(2)] and okt = vm_okD [OF growsD(1) [OF t(2)]]
  have keep: "only_mem v t" by (rule only_mem_trans [OF _ g(2)]) (simp add: s_def)
  have e: "ent (mem t) d w = V2P p OR 7" if "w < 4096" for w
    using that page_split(1) [of 0 w] by (simp add: t(3) mapped_def PGSIZE_def PTE_P_def or.assoc)
  have up: "upage (mem t) d w = p" "ent (mem t) d w AND PTE_P \<noteq> 0" if "w < 4096" for w
  proof -
    have f: "PTE_FLAGS 7 = 7" by (simp add: PTE_FLAGS_def)
    show "upage (mem t) d w = p" using pte_parts(1) [OF V2P_aligned(1) [OF p(1)] f] e [OF that] by (simp add: upage_def)
    show "ent (mem t) d w AND PTE_P \<noteq> 0" unfolding e [OF that] present_iff by (simp add: bit_simps)
  qed
  have "page_ok t p" using p(2) only_mem_keeps(2) [OF keep] by simp
  moreover have "p \<notin> set gs" using p(3) t(1) by auto
  ultimately have "parent_ok t d 4096 gs" using okt up by (simp add: parent_ok_def KERNBASE_def)
  moreover have "length us \<le> 1024" using g(5) card_tabs(1) [of "mem t" d] by simp
  then have "1026 \<le> length gs" using v(2) by (simp add: fs t(1))
  moreover have "kernel_placed (kdata t)" using free_pages_ready(3) [of 4096] only_mem_keeps(3) [OF only_mem_trans [OF v(3) keep]] by simp
  ultimately show ?thesis using okt(1) by blast
qed

theorem copyuvm_copies_witness:
  "\<exists>(s :: kmem_state) pd fs us gs d t. parent_ok s pd 4096 fs \<and> fs = us @ gs \<and> copyuvm pd 4096 s = Inr (d, t) \<and> d \<noteq> 0 \<and> child_ok s pd 4096 us gs d t"
proof -
  obtain s :: kmem_state and pd fs where s: "kmem_ready 0 s" "parent_ok s pd 4096 fs" "kernel_placed (kdata s)" "1026 \<le> length fs"
    using one_page_process by blast
  have "\<exists>us gs d t. fs = us @ gs \<and> copyuvm pd 4096 s = Inr (d, t) \<and> d \<noteq> 0 \<and> child_ok s pd 4096 us gs d t"
    by (rule copyuvm_copies [OF s(1-3), where n = 1]) (use s(4) in simp_all)
  with s(2) show ?thesis by blast
qed

text \<open>C9. \<open>sbrk\<close> and \<open>exec\<close> get fresh memory. When a process grows from \<open>oldsz\<close> to \<open>newsz\<close>, below \<open>KERNBASE\<close> and with enough
  free pages, \<open>allocuvm\<close> returns \<open>newsz\<close>; every new address reads zero, is present, writable and accessible to the user, in a page that
  was free and serves no table, and every address the process had keeps its byte and its permissions.\<close>
theorem allocuvm_grows:
  assumes "vm_ok c s d fs" "oldsz \<le> newsz" "newsz < KERNBASE"
    and "\<forall>w. PGROUNDUP oldsz \<le> w \<and> w < KERNBASE \<longrightarrow> ent (mem s) d w AND PTE_P = 0"
    and "\<forall>v. v < PGROUNDUP oldsz \<longrightarrow> upage (mem s) d v \<notin> set fs \<union> ptpages (mem s) d"
    and "unat newsz \<le> unat oldsz + 4096 * n" "1024 + n \<le> length fs + card (tabs (mem s) d)"
  shows "\<exists>us gs t. fs = us @ gs \<and> allocuvm d oldsz newsz s = Inr (newsz, t) \<and> vm_ok c t d gs
    \<and> (\<forall>v. PGROUNDUP oldsz \<le> v \<and> v < newsz \<longrightarrow> filled fresh_view us (mem t) d v)
    \<and> (\<forall>v. v < PGROUNDUP oldsz \<longrightarrow> parent_view (mem t) d v = parent_view (mem s) d v)"
  by (rule allocuvm_fresh [OF assms])

theorem allocuvm_grows_witness:
  "\<exists>d fs s us gs t. setupkvm (free_pages 4096) = Inr (d, s) \<and> fs = us @ gs \<and> allocuvm d 0 0x5000 s = Inr (0x5000, t)
    \<and> filled fresh_view us (mem t) d 0x4FFF"
proof -
  obtain d fs s where s: "setupkvm (free_pages 4096) = Inr (d, s)" "vm_ok 0 s d fs" "3000 \<le> length fs"
    "ent (mem s) d = kernel_entry 0x80108000" using fresh_directory by blast
  have z: "PGROUNDUP 0 = 0" by (simp add: PGROUNDUP_def PGSIZE_def)
  have "\<exists>us gs t. fs = us @ gs \<and> allocuvm d 0 0x5000 s = Inr (0x5000, t) \<and> vm_ok 0 t d gs
    \<and> (\<forall>v. PGROUNDUP 0 \<le> v \<and> v < 0x5000 \<longrightarrow> filled fresh_view us (mem t) d v)
    \<and> (\<forall>v. v < PGROUNDUP 0 \<longrightarrow> parent_view (mem t) d v = parent_view (mem s) d v)"
    by (rule allocuvm_grows [OF s(2), where n = 5]) (use s(3) in \<open>simp_all add: z s(4) kernel_entry_def KERNBASE_def\<close>)
  then obtain us gs t where t: "fs = us @ gs" "allocuvm d 0 0x5000 s = Inr (0x5000, t)"
    "\<forall>v. PGROUNDUP 0 \<le> v \<and> v < 0x5000 \<longrightarrow> filled fresh_view us (mem t) d v" by blast
  have "filled fresh_view us (mem t) d 0x4FFF" using t(3) by (simp add: z)
  then show ?thesis using s(1) t(1,2) by blast
qed

end
