(* ===== verification/Ring_Queues.thy ===== *)
theory Ring_Queues
  imports Prelude "HOL-Library.Multiset"
begin

text \<open>
  Rings: arrays of \<open>n\<close> entries used as queues between a head and a tail index, and the
  contract of a queue that the kernel's rings and shifting arrays keep.
\<close>

section \<open>The queue a ring holds\<close>

definition ring_list :: "int \<Rightarrow> (int \<Rightarrow> 'a) \<Rightarrow> int \<Rightarrow> int \<Rightarrow> 'a list" where
  "ring_list n q h t = map (\<lambda>k. q ((h + int k) mod n)) [0..<nat ((t - h) mod n)]"

lemma ring_length: "length (ring_list n q h t) = nat ((t - h) mod n)"
  by (simp add: ring_list_def)

lemma ring_empty:
  assumes "0 \<le> h" "h < n" "0 \<le> t" "t < n"
  shows "ring_list n q h t = [] \<longleftrightarrow> h = t"
proof
  assume "ring_list n q h t = []"
  then have "(t - h) mod n \<le> 0" by (simp add: ring_list_def)
  then have "(t - h) mod n = 0" using assms by (simp add: order_antisym)
  then have "t mod n = h mod n" using mod_eq_dvd_iff [of t n h] by (simp add: mod_eq_0_iff_dvd)
  then show "h = t" using assms by simp
qed (simp add: ring_list_def)

lemma diff_Suc_mod:
  assumes "0 < (n :: int)" "(t + 1 - h) mod n \<noteq> 0"
  shows "(t + 1 - h) mod n = (t - h) mod n + 1"
proof -
  let ?d = "(t - h) mod n"
  have "(t + 1 - h) mod n = (?d + 1) mod n" by (simp add: mod_simps algebra_simps)
  moreover have "0 \<le> ?d" "?d < n" using assms(1) by simp_all
  moreover have "?d + 1 \<noteq> n" using assms calculation(1) by auto
  ultimately show ?thesis by simp
qed

lemma ring_put:
  assumes "0 \<le> h" "h < n" "0 \<le> t" "t < n" "(t + 1) mod n \<noteq> h"
  shows "ring_list n (q(t := x)) h ((t + 1) mod n) = ring_list n q h t @ [x]"
proof -
  have n: "0 < n" using assms by simp
  let ?d = "(t - h) mod n"
  have "(t + 1 - h) mod n \<noteq> 0"
    using assms(5) assms(1,2) mod_eq_dvd_iff [of "t + 1" n h] by (simp add: mod_eq_0_iff_dvd)
  then have step: "((t + 1) mod n - h) mod n = ?d + 1"
    using diff_Suc_mod [OF n] by (simp add: mod_simps)
  have d: "0 \<le> ?d" "?d < n" using n by simp_all
  have at: "(h + ?d) mod n = t" using assms by (simp add: mod_simps)
  have other: "(h + int k) mod n \<noteq> t" if "k < nat ?d" for k
  proof
    assume "(h + int k) mod n = t"
    then have "(h + int k - h) mod n = (t - h) mod n" by (metis mod_diff_left_eq)
    then have "int k mod n = ?d" by simp
    moreover have "int k mod n = int k" using that d by simp
    ultimately show False using that d(1) by simp
  qed
  have "nat (?d + 1) = Suc (nat ?d)" using d by simp
  then show ?thesis using at d other by (simp add: ring_list_def step)
qed

lemma ring_get:
  assumes "0 \<le> h" "h < n" "0 \<le> t" "t < n" "h \<noteq> t"
  shows "ring_list n q h t = q h # ring_list n q ((h + 1) mod n) t"
proof -
  have n: "0 < n" using assms by simp
  have ne: "(t - h) mod n \<noteq> 0"
    using assms mod_eq_dvd_iff [of t n h] by (simp add: mod_eq_0_iff_dvd)
  have "(t - (h + 1) mod n) mod n = (t - 1 - h) mod n" by (simp add: mod_simps algebra_simps)
  moreover have "(t - h) mod n = (t - 1 - h) mod n + 1"
    using diff_Suc_mod [OF n, of "t - 1" h] ne by simp
  moreover have "0 \<le> (t - 1 - h) mod n" using n by simp
  ultimately have len: "nat ((t - h) mod n) = Suc (nat ((t - (h + 1) mod n) mod n))" by simp
  have "(h + int (Suc k)) mod n = ((h + 1) mod n + int k) mod n" for k
    by (simp add: mod_simps algebra_simps)
  then show ?thesis using assms
    by (simp add: ring_list_def len upt_conv_Cons map_Suc_upt [symmetric] del: upt_Suc)
qed

lemma ring_full:
  assumes "0 \<le> h" "h < n" "0 \<le> t" "t < n" "1 < n"
  shows "length (ring_list n q h t) = nat (n - 1) \<longleftrightarrow> (t + 1) mod n = h"
proof -
  have n: "0 < n" using assms by simp
  have z: "(t + 1) mod n = h \<longleftrightarrow> (t + 1 - h) mod n = 0"
    using assms(1,2) mod_eq_dvd_iff [of "t + 1" n h] by (simp add: mod_eq_0_iff_dvd)
  have d: "0 \<le> (t - h) mod n" "(t - h) mod n < n" using n by simp_all
  have eq: "(t + 1 - h) mod n = ((t - h) mod n + 1) mod n" by (simp add: mod_simps algebra_simps)
  show ?thesis
  proof (cases "(t - h) mod n + 1 = n")
    case True
    then show ?thesis using eq z d by (simp add: ring_length)
  next
    case False
    then have "(t + 1 - h) mod n = (t - h) mod n + 1" using eq d by simp
    then show ?thesis using False z d assms(5) by (simp add: ring_length)
  qed
qed

lemma ring_length_less: "0 < n \<Longrightarrow> length (ring_list n q h t) < nat n"
  by (simp add: ring_length)

section \<open>Entries of several queues\<close>

lemma mset_concat_update:
  assumes "k \<in> set xs" "distinct xs"
  shows "mset (concat (map (f(k := ys)) xs)) + mset (f k) = mset (concat (map f xs)) + mset ys"
  using assms
proof (induction xs)
  case (Cons x xs)
  show ?case
  proof (cases "x = k")
    case True
    with Cons.prems have "map (f(k := ys)) xs = map f xs" by auto
    with True show ?thesis by (simp only: list.map concat.simps mset_append fun_upd_same union_ac)
  next
    case False
    with Cons show ?thesis by simp
  qed
qed simp

lemma distinct_mset_add: "mset ys = add_mset x (mset xs) \<Longrightarrow> distinct ys \<longleftrightarrow> x \<notin> set xs \<and> distinct xs"
  using mset_eq_imp_distinct_iff [of ys "x # xs"] by simp

lemma set_mset_add: "mset ys = add_mset x (mset xs) \<Longrightarrow> set ys = insert x (set xs)"
  by (metis list.simps(15) mset.simps(2) mset_eq_setD)

section \<open>The contract of a queue\<close>

text \<open>
  \<open>put x s\<close> is \<open>None\<close> when the queue refuses \<open>x\<close>, and \<open>get s\<close> is \<open>None\<close> when it is empty.
  \<open>may xs s\<close> says that the items \<open>xs\<close> may be put into this queue one after the other.
\<close>

fun put_many :: "('a \<Rightarrow> 's \<Rightarrow> 's option) \<Rightarrow> 'a list \<Rightarrow> 's \<Rightarrow> 's option" where
  "put_many put [] s = Some s"
| "put_many put (x # xs) s = (case put x s of None \<Rightarrow> None | Some t \<Rightarrow> put_many put xs t)"

fun get_many :: "('s \<Rightarrow> ('a \<times> 's) option) \<Rightarrow> nat \<Rightarrow> 's \<Rightarrow> ('a list \<times> 's) option" where
  "get_many get 0 s = Some ([], s)"
| "get_many get (Suc n) s = (case get s of None \<Rightarrow> None | Some (x, t) \<Rightarrow>
     (case get_many get n t of None \<Rightarrow> None | Some (xs, u) \<Rightarrow> Some (x # xs, u)))"

locale fifo =
  fixes put :: "'a \<Rightarrow> 's \<Rightarrow> 's option"
    and get :: "'s \<Rightarrow> ('a \<times> 's) option"
    and items :: "'s \<Rightarrow> 'a list"
    and ok :: "'s \<Rightarrow> bool"
    and may :: "'a list \<Rightarrow> 's \<Rightarrow> bool"
    and cap :: nat
  assumes put_room: "ok s \<Longrightarrow> may (x # xs) s \<Longrightarrow> length (items s) < cap \<Longrightarrow>
      \<exists>t. put x s = Some t \<and> ok t \<and> items t = items s @ [x] \<and> may xs t"
    and get_item: "ok s \<Longrightarrow> items s = x # xs \<Longrightarrow> \<exists>t. get s = Some (x, t) \<and> ok t \<and> items t = xs"
    and get_empty: "ok s \<Longrightarrow> items s = [] \<Longrightarrow> get s = None"
begin

lemma put_many_items:
  "ok s \<Longrightarrow> may xs s \<Longrightarrow> length (items s) + length xs \<le> cap \<Longrightarrow>
   \<exists>t. put_many put xs s = Some t \<and> ok t \<and> items t = items s @ xs"
proof (induction xs arbitrary: s)
  case (Cons x xs)
  obtain t where t: "put x s = Some t" "ok t" "items t = items s @ [x]" "may xs t"
    using put_room [OF Cons.prems(1,2)] Cons.prems(3) by auto
  then show ?case using Cons.IH [of t] Cons.prems by auto
qed simp

lemma get_many_items:
  "ok s \<Longrightarrow> n \<le> length (items s) \<Longrightarrow>
   \<exists>t. get_many get n s = Some (take n (items s), t) \<and> ok t \<and> items t = drop n (items s)"
proof (induction n arbitrary: s)
  case (Suc n)
  then obtain x xs where x: "items s = x # xs" by (cases "items s") auto
  with get_item [OF Suc.prems(1)] obtain t where "get s = Some (x, t)" "ok t" "items t = xs" by blast
  then show ?case using Suc.IH [of t] Suc.prems(2) x by auto
qed simp

lemma fifo_order:
  assumes "ok s" "items s = []" "may xs s" "length xs \<le> cap"
  shows "\<exists>t u. put_many put xs s = Some t \<and> get_many get (length xs) t = Some (xs, u)
           \<and> items u = [] \<and> get u = None"
proof -
  obtain t where t: "put_many put xs s = Some t" "ok t" "items t = xs"
    using put_many_items [OF assms(1,3)] assms(2,4) by auto
  with get_many_items [of t "length xs"] get_empty show ?thesis by auto
qed

end

text \<open>A queue that also refuses an item when it is full.\<close>

locale bounded_fifo = fifo +
  assumes put_full: "ok s \<Longrightarrow> may (x # xs) s \<Longrightarrow> length (items s) = cap \<Longrightarrow> put x s = None"
    and within: "ok s \<Longrightarrow> length (items s) \<le> cap"
begin

lemma put_iff: "ok s \<Longrightarrow> may [x] s \<Longrightarrow> put x s \<noteq> None \<longleftrightarrow> length (items s) < cap"
  using put_room [of s x "[]"] put_full [of s x "[]"] within [of s]
  by (cases "length (items s) < cap") auto

end

end
