(* ===== verification/Proc.thy ===== *)
theory Proc
  imports Vm Ring_Queues
begin

text \<open>
  The process table and the priority scheduler of \<open>proc.c\<close>: the per-priority ring queues,
  \<open>sched\<close>, \<open>yield\<close>, \<open>sleep\<close>, \<open>wakeup\<close>, \<open>kill\<close>, the scheduler's loop body, \<open>allocproc\<close>
  and \<open>growproc\<close>. A process pointer is the index of its slot in the table. The trap frame
  and the saved context of a process, which the code lays out at the top of the kernel
  stack page, are typed fields of the slot.
\<close>

section \<open>State\<close>

definition NPROC :: nat where "NPROC = 64"
definition NOFILE :: nat where "NOFILE = 16"
definition MUX_MAXNUM :: nat where "MUX_MAXNUM = 20"
definition SHM_MAXNUM :: nat where "SHM_MAXNUM = 32"
definition PRIO_MAX :: int where "PRIO_MAX = 20"
definition QSIZE :: int where "QSIZE = 100"

datatype procstate = UNUSED | EMBRYO | SLEEPING | RUNNABLE | RUNNING | ZOMBIE

text \<open>The addresses a process sleeps on; \<open>NoChan\<close> is the null pointer.\<close>

datatype chan =
    NoChan | ChProc nat | ChTicks | ChSleep sleepid | ChLog | ChPipeR uint | ChPipeW uint
  | ChInput | ChBuf nat

record trapframe =
  tf_edi :: uint
  tf_esi :: uint
  tf_ebp :: uint
  tf_oesp :: uint
  tf_ebx :: uint
  tf_edx :: uint
  tf_ecx :: uint
  tf_eax :: uint
  tf_gs :: ushort
  tf_fs :: ushort
  tf_es :: ushort
  tf_ds :: ushort
  tf_trapno :: uint
  tf_err :: uint
  tf_eip :: uint
  tf_cs :: ushort
  tf_eflags :: uint
  tf_esp :: uint
  tf_ss :: ushort

definition zero_trapframe :: trapframe where
  "zero_trapframe = \<lparr>tf_edi = 0, tf_esi = 0, tf_ebp = 0, tf_oesp = 0, tf_ebx = 0, tf_edx = 0, tf_ecx = 0,
     tf_eax = 0, tf_gs = 0, tf_fs = 0, tf_es = 0, tf_ds = 0, tf_trapno = 0, tf_err = 0, tf_eip = 0,
     tf_cs = 0, tf_eflags = 0, tf_esp = 0, tf_ss = 0\<rparr>"

text \<open>A saved program counter: where the thread resumes when it is switched to.\<close>

datatype resume_at = Nowhere | AtForkret | InSched

record proc_context =
  cx_edi :: uint
  cx_esi :: uint
  cx_ebx :: uint
  cx_ebp :: uint
  cx_eip :: resume_at

record proc =
  p_sz :: uint
  p_pgdir :: uint
  p_kstack :: uint
  p_state :: procstate
  p_pid :: int
  p_parent :: "nat option"
  p_tf :: trapframe
  p_context :: proc_context
  p_chan :: chan
  p_killed :: bool
  p_ofile :: "nat \<Rightarrow> nat option"
  p_cwd :: "nat option"
  p_name :: "uchar list"
  p_mux_ptrs :: "nat \<Rightarrow> nat option"
  p_priority :: uint
  p_shmpgs :: "nat \<Rightarrow> nat option"

record proc_state = vm_state +
  procs :: "nat \<Rightarrow> proc"
  head_tail :: "int \<Rightarrow> int \<Rightarrow> int"
  pqueues :: "int \<Rightarrow> int \<Rightarrow> nat option"
  nextpid :: int
  initproc :: "nat option"
  pqueue_ready :: bool
  first_time :: bool

definition set_proc :: "nat \<Rightarrow> proc \<Rightarrow> 'z proc_state_scheme \<Rightarrow> 'z proc_state_scheme" where
  "set_proc p v s = s\<lparr>procs := (procs s)(p := v)\<rparr>"

definition pinit :: "'z proc_state_scheme \<Rightarrow> 'z proc_state_scheme" where
  "pinit s = initlock PtableLock ''ptable'' s"

section \<open>The priority queues\<close>

definition pq_enqueue :: "nat \<Rightarrow> 'z proc_state_scheme \<Rightarrow> (int \<times> 'z proc_state_scheme) result" where
  "pq_enqueue p s =
     (if p_state (procs s p) \<noteq> RUNNABLE then Inr (- 1, s)
      else
        let priority = sint (p_priority (procs s p)) in
        if \<not> (0 \<le> priority \<and> priority < PRIO_MAX) then Inl (Fault ''ptable.head_tail[priority]'')
        else
          let head = head_tail s priority 0; tail = head_tail s priority 1 in
          if tail = (head - 1) smod QSIZE then Inr (- 1, s)
          else if \<not> (0 \<le> tail \<and> tail < QSIZE) then Inl (Fault ''ptable.pqueues[priority][tail]'')
          else
            let s = s\<lparr>pqueues := (pqueues s)(priority := (pqueues s priority)(tail := Some p))\<rparr>;
                s = s\<lparr>head_tail := (head_tail s)(priority := (head_tail s priority)(1 := (tail + 1) smod QSIZE))\<rparr> in
            Inr (1, s))"

text \<open>\<open>pq_dequeue\<close> returns \<open>NULL\<close>, which \<open>proc.h\<close> defines as the address \<open>-1\<close>, or an entry.\<close>

datatype dequeued = NULL | Entry "nat option"

definition pq_dequeue :: "'z proc_state_scheme \<Rightarrow> (dequeued \<times> 'z proc_state_scheme) result" where
  "pq_dequeue s =
     (case find (\<lambda>priority. head_tail s priority 0 \<noteq> head_tail s priority 1) [0..PRIO_MAX - 1] of
        None \<Rightarrow> Inr (NULL, s)
      | Some priority \<Rightarrow>
          let head = head_tail s priority 0 in
          if \<not> (0 \<le> head \<and> head < QSIZE) then Inl (Fault ''ptable.pqueues[priority][head]'')
          else
            let p = pqueues s priority head;
                s = s\<lparr>head_tail := (head_tail s)(priority := (head_tail s priority)(0 := (head + 1) smod QSIZE))\<rparr> in
            Inr (Entry p, s))"

definition enqueue_or_panic :: "nat \<Rightarrow> 'z proc_state_scheme \<Rightarrow> 'z proc_state_scheme result" where
  "enqueue_or_panic p s =
     bnd (pq_enqueue p s) (\<lambda>(r, s).
     if r < 0 then Inl (Panic ''process tried to enqueue when queue is full'') else Inr s)"

section \<open>Entering the scheduler\<close>

text \<open>
  \<open>swtch\<close> saves the context of this thread and runs the rest of the system; \<open>others\<close> is what
  the rest of the system does to the state until this thread is switched to again. A run in
  which the thread is resumed \<open>switches\<close> times is given by \<open>switches\<close>; with none left, the
  thread is parked.
\<close>

definition swtch ::
  "('z proc_state_scheme \<Rightarrow> 'z proc_state_scheme) \<Rightarrow> nat \<Rightarrow> 'z proc_state_scheme \<Rightarrow> 'z proc_state_scheme result"
where
  "swtch others p s =
     (let s = set_proc p ((procs s p)\<lparr>p_context := (p_context (procs s p))\<lparr>cx_eip := InSched\<rparr>\<rparr>) s in
      if switches s = 0 then Inl Parked else Inr ((others s)\<lparr>switches := switches s - 1\<rparr>))"

definition sched :: "('z proc_state_scheme \<Rightarrow> 'z proc_state_scheme) \<Rightarrow> 'z proc_state_scheme \<Rightarrow> 'z proc_state_scheme result" where
  "sched others s =
     bnd (myproc s) (\<lambda>(mp, s).
     bnd (holding PtableLock s) (\<lambda>h.
     if \<not> h then Inl (Panic ''sched ptable.lock'')
     else
     bnd (mycpu s) (\<lambda>c.
     if ncli (cpus s c) \<noteq> 1 then Inl (Panic ''sched locks'')
     else case mp of None \<Rightarrow> Inl (Fault ''p->state'') | Some p \<Rightarrow>
     if p_state (procs s p) = RUNNING then Inl (Panic ''sched running'')
     else if int_flag s then Inl (Panic ''sched interruptible'')
     else
       let ie = intena (cpus s c) in
       bnd (swtch others p s) (\<lambda>s.
       bnd (mycpu s) (\<lambda>c. Inr (set_cpu c ((cpus s c)\<lparr>intena := ie\<rparr>) s))))))"

definition yield :: "('z proc_state_scheme \<Rightarrow> 'z proc_state_scheme) \<Rightarrow> 'z proc_state_scheme \<Rightarrow> 'z proc_state_scheme result" where
  "yield others s =
     bnd (acquire PtableLock s) (\<lambda>s.
     bnd (myproc s) (\<lambda>(mp, s).
     case mp of None \<Rightarrow> Inl (Fault ''myproc()->state'') | Some p \<Rightarrow>
     let s = set_proc p ((procs s p)\<lparr>p_state := RUNNABLE\<rparr>) s in
     bnd (enqueue_or_panic p s) (\<lambda>s.
     bnd (sched others s) (\<lambda>s.
     release PtableLock s))))"

definition sleep :: "('z proc_state_scheme \<Rightarrow> 'z proc_state_scheme) \<Rightarrow> chan \<Rightarrow> lockid \<Rightarrow> 'z proc_state_scheme \<Rightarrow> 'z proc_state_scheme result" where
  "sleep others ch lk s =
     bnd (myproc s) (\<lambda>(mp, s).
     case mp of None \<Rightarrow> Inl (Panic ''sleep'') | Some p \<Rightarrow>
     bnd (if lk \<noteq> PtableLock then bnd (acquire PtableLock s) (release lk) else Inr s) (\<lambda>s.
     let s = set_proc p ((procs s p)\<lparr>p_chan := ch\<rparr>) s;
         s = set_proc p ((procs s p)\<lparr>p_state := SLEEPING\<rparr>) s in
     bnd (sched others s) (\<lambda>s.
     let s = set_proc p ((procs s p)\<lparr>p_chan := NoChan\<rparr>) s in
     if lk \<noteq> PtableLock then bnd (release PtableLock s) (acquire lk) else Inr s)))"

definition wakeup1_slot :: "chan \<Rightarrow> nat \<Rightarrow> 'z proc_state_scheme \<Rightarrow> 'z proc_state_scheme result" where
  "wakeup1_slot ch p s =
     (if p_state (procs s p) = SLEEPING \<and> p_chan (procs s p) = ch then
        enqueue_or_panic p (set_proc p ((procs s p)\<lparr>p_state := RUNNABLE\<rparr>) s)
      else Inr s)"

definition wakeup1 :: "chan \<Rightarrow> 'z proc_state_scheme \<Rightarrow> 'z proc_state_scheme result" where
  "wakeup1 ch s = for_each (wakeup1_slot ch) [0..<NPROC] s"

definition wakeup :: "chan \<Rightarrow> 'z proc_state_scheme \<Rightarrow> 'z proc_state_scheme result" where
  "wakeup ch s =
     bnd (acquire PtableLock s) (\<lambda>s. bnd (wakeup1 ch s) (\<lambda>s. release PtableLock s))"

definition kill :: "int \<Rightarrow> 'z proc_state_scheme \<Rightarrow> (int \<times> 'z proc_state_scheme) result" where
  "kill pid s =
     bnd (acquire PtableLock s) (\<lambda>s.
     case find (\<lambda>p. p_pid (procs s p) = pid) [0..<NPROC] of
       None \<Rightarrow> bnd (release PtableLock s) (\<lambda>s. Inr (- 1, s))
     | Some p \<Rightarrow>
         let s = set_proc p ((procs s p)\<lparr>p_killed := True\<rparr>) s in
         bnd (if p_state (procs s p) = SLEEPING then
                enqueue_or_panic p (set_proc p ((procs s p)\<lparr>p_state := RUNNABLE\<rparr>) s)
              else Inr s) (\<lambda>s.
         bnd (release PtableLock s) (\<lambda>s. Inr (0, s))))"

section \<open>The scheduler's loop\<close>

text \<open>
  \<open>run\<close> is what the machine does from the switch to the chosen process until that process
  switches back to the scheduler of this CPU.
\<close>

definition run_process ::
  "(nat \<Rightarrow> 'z proc_state_scheme \<Rightarrow> 'z proc_state_scheme) \<Rightarrow> nat \<Rightarrow> nat \<Rightarrow> 'z proc_state_scheme \<Rightarrow> 'z proc_state_scheme result"
where
  "run_process run c p s =
     (let s = set_cpu c ((cpus s c)\<lparr>cproc := Some p\<rparr>) s in
      bnd (switchuvm (Some (p_kstack (procs s p), p_pgdir (procs s p))) s) (\<lambda>s.
      let s = set_proc p ((procs s p)\<lparr>p_state := RUNNING\<rparr>) s;
          s = run p s;
          s = switchkvm s in
      Inr (set_cpu c ((cpus s c)\<lparr>cproc := None\<rparr>) s)))"

text \<open>One pass of the loop \<open>for (;;)\<close>.\<close>

definition scheduler_round ::
  "(nat \<Rightarrow> 'z proc_state_scheme \<Rightarrow> 'z proc_state_scheme) \<Rightarrow> nat \<Rightarrow> 'z proc_state_scheme \<Rightarrow> 'z proc_state_scheme result"
where
  "scheduler_round run c s =
     (let s = sti s in
      bnd (acquire PtableLock s) (\<lambda>s.
      bnd (if first_time s then
             for_each (\<lambda>p s. if p_state (procs s p) \<noteq> RUNNABLE then Inr s else run_process run c p s)
               [0..<NPROC] (s\<lparr>first_time := False\<rparr>)
           else
             bnd (pq_dequeue s) (\<lambda>(e, s).
             case e of
               NULL \<Rightarrow> Inr s
             | Entry None \<Rightarrow> Inl (Panic ''switchuvm: no process'')
             | Entry (Some p) \<Rightarrow> run_process run c p s)) (\<lambda>s.
      release PtableLock s)))"

definition scheduler_start :: "'z proc_state_scheme \<Rightarrow> (nat \<times> 'z proc_state_scheme) result" where
  "scheduler_start s = bnd (mycpu s) (\<lambda>c. Inr (c, set_cpu c ((cpus s c)\<lparr>cproc := None\<rparr>) s))"

text \<open>The first \<open>n\<close> passes of \<open>scheduler\<close>, which does not return.\<close>

fun scheduler ::
  "(nat \<Rightarrow> 'z proc_state_scheme \<Rightarrow> 'z proc_state_scheme) \<Rightarrow> nat \<Rightarrow> nat \<Rightarrow> 'z proc_state_scheme \<Rightarrow> 'z proc_state_scheme result"
where
  "scheduler run 0 c s = Inr s"
| "scheduler run (Suc n) c s = bnd (scheduler_round run c s) (\<lambda>s. scheduler run n c s)"

section \<open>What the queues hold\<close>

definition pq_items :: "'z proc_state_scheme \<Rightarrow> int \<Rightarrow> nat option list" where
  "pq_items s pr = ring_list QSIZE (pqueues s pr) (head_tail s pr 0) (head_tail s pr 1)"

definition rings_ok :: "'z proc_state_scheme \<Rightarrow> bool" where
  "rings_ok s \<longleftrightarrow> (\<forall>pr\<in>{0..<PRIO_MAX}. head_tail s pr 0 \<in> {0..<QSIZE} \<and> head_tail s pr 1 \<in> {0..<QSIZE})"

definition level :: "'z proc_state_scheme \<Rightarrow> nat \<Rightarrow> int" where
  "level s p = sint (p_priority (procs s p))"

lemma rings_okD:
  assumes "rings_ok s" "0 \<le> pr" "pr < PRIO_MAX"
  shows "0 \<le> head_tail s pr 0" "head_tail s pr 0 < QSIZE" "0 \<le> head_tail s pr 1" "head_tail s pr 1 < QSIZE"
  using assms by (auto simp: rings_ok_def)

lemma tail_step: "0 \<le> t \<Longrightarrow> (t + 1) smod QSIZE = (t + 1) mod QSIZE"
  by (rule smod_nonneg) (simp_all add: QSIZE_def)

text \<open>
  The test for a full ring. The remainder of \<open>-1\<close> is \<open>-1\<close>, which no tail is: with the head at
  0 a full ring is not noticed.
\<close>

lemma full_test:
  assumes "0 \<le> h" "h < QSIZE" "0 \<le> t" "t < QSIZE"
  shows "t = (h - 1) smod QSIZE \<longleftrightarrow> h \<noteq> 0 \<and> (t + 1) mod QSIZE = h"
proof (cases "h = 0")
  case True
  then have "(h - 1) smod QSIZE = - 1" using smod_neg_one [of QSIZE] by (simp add: QSIZE_def)
  then show ?thesis using True assms by simp
next
  case False
  then have "(h - 1) smod QSIZE = h - 1"
    using assms by (subst smod_nonneg) (simp_all add: QSIZE_def)
  moreover have "(t + 1) mod QSIZE = h \<longleftrightarrow> t = h - 1"
    using assms False by (cases "t = QSIZE - 1") (auto simp: QSIZE_def)
  ultimately show ?thesis using False by simp
qed

definition put_entry :: "int \<Rightarrow> nat \<Rightarrow> 'z proc_state_scheme \<Rightarrow> 'z proc_state_scheme" where
  "put_entry pr p s = s\<lparr>
     pqueues := (pqueues s)(pr := (pqueues s pr)(head_tail s pr 1 := Some p)),
     head_tail := (head_tail s)(pr := (head_tail s pr)(1 := (head_tail s pr 1 + 1) mod QSIZE))\<rparr>"

definition drop_entry :: "int \<Rightarrow> 'z proc_state_scheme \<Rightarrow> 'z proc_state_scheme" where
  "drop_entry pr s = s\<lparr>
     head_tail := (head_tail s)(pr := (head_tail s pr)(0 := (head_tail s pr 0 + 1) mod QSIZE))\<rparr>"

lemma pq_enqueue_eq:
  assumes "rings_ok s" "p_state (procs s p) = RUNNABLE" "0 \<le> level s p" "level s p < PRIO_MAX"
  shows "pq_enqueue p s =
    (if head_tail s (level s p) 0 \<noteq> 0 \<and> length (pq_items s (level s p)) = 99 then Inr (- 1, s)
     else Inr (1, put_entry (level s p) p s))"
proof -
  let ?pr = "level s p"
  note r = rings_okD [OF assms(1,3,4)]
  have full: "length (pq_items s ?pr) = 99 \<longleftrightarrow> (head_tail s ?pr 1 + 1) mod QSIZE = head_tail s ?pr 0"
    using ring_full [OF r(1-4)] by (simp add: pq_items_def QSIZE_def)
  show ?thesis
    using assms r full_test [OF r] full tail_step [OF r(3)]
    by (simp add: pq_enqueue_def level_def [symmetric] put_entry_def Let_def)
qed

lemma pq_items_put_entry:
  assumes "rings_ok s" "0 \<le> pr" "pr < PRIO_MAX" "length (pq_items s pr) < 99"
  shows "pq_items (put_entry pr p s) = (pq_items s)(pr := pq_items s pr @ [Some p])"
proof
  fix pr'
  note r = rings_okD [OF assms(1-3)]
  have "(head_tail s pr 1 + 1) mod QSIZE \<noteq> head_tail s pr 0"
    using ring_full [OF r(1-4), of "pqueues s pr"] assms(4) by (simp add: pq_items_def QSIZE_def)
  from ring_put [OF r(1-4) this, of "pqueues s pr" "Some p"] show "pq_items (put_entry pr p s) pr' =
     ((pq_items s)(pr := pq_items s pr @ [Some p])) pr'"
    by (simp add: pq_items_def put_entry_def)
qed

lemma rings_ok_put_entry: "rings_ok s \<Longrightarrow> rings_ok (put_entry pr p s)"
  by (auto simp: rings_ok_def put_entry_def QSIZE_def)

lemma rings_ok_drop_entry: "rings_ok s \<Longrightarrow> rings_ok (drop_entry pr s)"
  by (auto simp: rings_ok_def drop_entry_def QSIZE_def)

lemma pq_items_empty:
  assumes "rings_ok s" "0 \<le> pr" "pr < PRIO_MAX"
  shows "pq_items s pr = [] \<longleftrightarrow> head_tail s pr 0 = head_tail s pr 1"
  using ring_empty [OF rings_okD [OF assms]] by (simp add: pq_items_def)

lemma pq_items_drop_entry:
  assumes "rings_ok s" "0 \<le> pr" "pr < PRIO_MAX" "pq_items s pr = e # es"
  shows "pq_items (drop_entry pr s) = (pq_items s)(pr := es)" "pqueues s pr (head_tail s pr 0) = e"
proof -
  note r = rings_okD [OF assms(1-3)]
  have ne: "head_tail s pr 0 \<noteq> head_tail s pr 1" using pq_items_empty [OF assms(1-3)] assms(4) by simp
  note g = ring_get [OF r ne, of "pqueues s pr"]
  show "pqueues s pr (head_tail s pr 0) = e" using g assms(4) by (simp add: pq_items_def)
  show "pq_items (drop_entry pr s) = (pq_items s)(pr := es)"
    using g assms(4) by (auto simp: pq_items_def drop_entry_def fun_eq_iff)
qed

lemma find_levels_Some:
  "find P [0..n - 1] = Some i \<longleftrightarrow> 0 \<le> i \<and> i < (n :: int) \<and> P i \<and> (\<forall>j. 0 \<le> j \<and> j < i \<longrightarrow> \<not> P j)"
  (is "?l \<longleftrightarrow> ?r")
proof
  assume ?l
  then obtain k where k: "k < length [0..n - 1]" "P ([0..n - 1] ! k)" "i = [0..n - 1] ! k"
    "\<forall>j<k. \<not> P ([0..n - 1] ! j)"
    by (auto simp: find_Some_iff)
  then have i: "i = int k" "int k < n" by simp_all
  have "\<not> P j" if "0 \<le> j" "j < i" for j
    using k(4) [rule_format, of "nat j"] that i by simp
  then show ?r using k i by simp
next
  assume ?r
  then show ?l unfolding find_Some_iff by (intro exI [of _ "nat i"]) auto
qed

text \<open>\<open>pq_dequeue\<close> serves the non-empty queue of least index, from its head.\<close>

lemma pq_dequeue_cases:
  assumes "rings_ok s"
  obtains (empty) "\<And>pr. 0 \<le> pr \<Longrightarrow> pr < PRIO_MAX \<Longrightarrow> pq_items s pr = []" "pq_dequeue s = Inr (NULL, s)"
  | (entry) pr e es where "0 \<le> pr" "pr < PRIO_MAX" "pq_items s pr = e # es"
      "\<And>j. 0 \<le> j \<Longrightarrow> j < pr \<Longrightarrow> pq_items s j = []" "pq_dequeue s = Inr (Entry e, drop_entry pr s)"
proof (cases "find (\<lambda>pr. head_tail s pr 0 \<noteq> head_tail s pr 1) [0..PRIO_MAX - 1]")
  case None
  then have "pq_items s pr = []" if "0 \<le> pr" "pr < PRIO_MAX" for pr
    using that pq_items_empty [OF assms that] by (auto simp: find_None_iff)
  moreover have "pq_dequeue s = Inr (NULL, s)" using None by (simp add: pq_dequeue_def)
  ultimately show ?thesis by (rule empty)
next
  case (Some pr)
  then have pr: "0 \<le> pr" "pr < PRIO_MAX" "head_tail s pr 0 \<noteq> head_tail s pr 1"
    "\<And>j. 0 \<le> j \<Longrightarrow> j < pr \<Longrightarrow> head_tail s j 0 = head_tail s j 1"
    by (auto simp: find_levels_Some)
  obtain e es where e: "pq_items s pr = e # es"
    using pq_items_empty [OF assms pr(1,2)] pr(3) by (cases "pq_items s pr") auto
  have low: "pq_items s j = []" if "0 \<le> j" "j < pr" for j
    using pq_items_empty [OF assms that(1)] pr(2,4) that by simp
  note r = rings_okD [OF assms pr(1,2)]
  have "pq_dequeue s = Inr (Entry e, drop_entry pr s)"
    using Some r tail_step [OF r(1)] pq_items_drop_entry(2) [OF assms pr(1,2) e]
    by (simp add: pq_dequeue_def drop_entry_def)
  with pr e low show ?thesis by (intro entry)
qed

section \<open>The scheduler's invariant\<close>

text \<open>
  Every process that is \<open>RUNNABLE\<close> has exactly one entry in the queues, and the queues hold
  no other entry.
\<close>

definition entries :: "'z proc_state_scheme \<Rightarrow> nat option list" where
  "entries s = concat (map (pq_items s) [0..PRIO_MAX - 1])"

definition runnable :: "'z proc_state_scheme \<Rightarrow> nat set" where
  "runnable s = {p. p < NPROC \<and> p_state (procs s p) = RUNNABLE}"

definition levels_ok :: "'z proc_state_scheme \<Rightarrow> bool" where
  "levels_ok s \<longleftrightarrow> (\<forall>p<NPROC. 0 \<le> level s p \<and> level s p < PRIO_MAX)"

definition sched_inv :: "'z proc_state_scheme \<Rightarrow> bool" where
  "sched_inv s \<longleftrightarrow> rings_ok s \<and> levels_ok s \<and> distinct (entries s) \<and> set (entries s) = Some ` runnable s"

lemma entries_set: "set (entries s) = (\<Union>pr\<in>{0..<PRIO_MAX}. set (pq_items s pr))"
  by (auto simp: entries_def)

lemma finite_runnable: "finite (runnable s)" "card (runnable s) \<le> 64"
proof -
  have sub: "runnable s \<subseteq> {..<64}" by (auto simp: runnable_def NPROC_def)
  then show "finite (runnable s)" by (rule finite_subset) simp
  show "card (runnable s) \<le> 64" using card_mono [OF _ sub] by simp
qed

text \<open>With one entry per process no ring is ever full: there are 64 processes and 99 places.\<close>

lemma sched_inv_room:
  assumes "sched_inv s" "0 \<le> pr" "pr < PRIO_MAX"
  shows "length (pq_items s pr) < 99"
proof -
  have "length (entries s) = card (Some ` runnable s)"
    using assms(1) distinct_card [of "entries s"] by (simp add: sched_inv_def)
  also have "\<dots> \<le> 64" using finite_runnable [of s] by (simp add: card_image)
  finally have "length (entries s) \<le> 64" .
  moreover have "length (pq_items s pr) \<le> length (entries s)"
  proof -
    have "pr \<in> set [0..PRIO_MAX - 1]" using assms(2,3) by simp
    then obtain us vs where "[0..PRIO_MAX - 1] = us @ pr # vs" by (meson split_list)
    then show ?thesis by (simp add: entries_def)
  qed
  ultimately show ?thesis by simp
qed

lemma mset_entries_put:
  assumes "pq_items t = (pq_items s)(pr := pq_items s pr @ [e])" "0 \<le> pr" "pr < PRIO_MAX"
  shows "mset (entries t) = add_mset e (mset (entries s))"
  using mset_concat_update [of pr "[0..PRIO_MAX - 1]" "pq_items s" "pq_items s pr @ [e]"] assms
  by (simp add: entries_def)

lemma mset_entries_drop:
  assumes "pq_items t = (pq_items s)(pr := es)" "pq_items s pr = e # es" "0 \<le> pr" "pr < PRIO_MAX"
  shows "mset (entries s) = add_mset e (mset (entries t))"
  using mset_concat_update [of pr "[0..PRIO_MAX - 1]" "pq_items s" es] assms
  by (simp add: entries_def)

text \<open>Facts about one process leave the queues alone, and the queues leave the processes alone.\<close>

lemma set_proc_frames [frames]:
  "pq_items (set_proc p v s) = pq_items s" "rings_ok (set_proc p v s) = rings_ok s"
  "procs (set_proc p v s) = (procs s)(p := v)"
  by (simp_all add: set_proc_def pq_items_def fun_eq_iff rings_ok_def)

lemma entries_cong: "pq_items t = pq_items s \<Longrightarrow> entries t = entries s"
  by (simp add: entries_def)

lemma entries_set_proc [frames]: "entries (set_proc p v s) = entries s"
  by (rule entries_cong) (simp add: frames)

lemma entry_frames [frames]:
  "procs (put_entry pr p s) = procs s" "procs (drop_entry pr s) = procs s"
  by (simp_all add: put_entry_def drop_entry_def)

lemma runnable_cong: "procs t = procs s \<Longrightarrow> runnable t = runnable s"
  by (simp add: runnable_def)

lemma levels_ok_cong: "procs t = procs s \<Longrightarrow> levels_ok t = levels_ok s"
  by (simp add: levels_ok_def level_def)

lemma levels_ok_set_proc:
  "levels_ok s \<Longrightarrow> p_priority v = p_priority (procs s p) \<Longrightarrow> levels_ok (set_proc p v s)"
  by (auto simp: levels_ok_def level_def frames)

text \<open>
  A process that is not \<open>RUNNABLE\<close> becomes so and is put into its queue: this is how \<open>yield\<close>,
  \<open>wakeup1\<close>, \<open>kill\<close> and \<open>fork\<close> make a process eligible.
\<close>

definition made_runnable :: "nat \<Rightarrow> 'z proc_state_scheme \<Rightarrow> 'z proc_state_scheme" where
  "made_runnable p s =
     put_entry (level s p) p (set_proc p ((procs s p)\<lparr>p_state := RUNNABLE\<rparr>) s)"

lemma make_runnable:
  assumes "sched_inv s" "p < NPROC" "p_state (procs s p) \<noteq> RUNNABLE"
  shows "enqueue_or_panic p (set_proc p ((procs s p)\<lparr>p_state := RUNNABLE\<rparr>) s) = Inr (made_runnable p s)"
    and "sched_inv (made_runnable p s)"
    and "pq_items (made_runnable p s) = (pq_items s)(level s p := pq_items s (level s p) @ [Some p])"
    and "procs (made_runnable p s) = (procs s)(p := (procs s p)\<lparr>p_state := RUNNABLE\<rparr>)"
proof -
  let ?s = "set_proc p ((procs s p)\<lparr>p_state := RUNNABLE\<rparr>) s"
  have lv: "0 \<le> level s p" "level s p < PRIO_MAX" "level ?s p = level s p"
    using assms by (auto simp: sched_inv_def levels_ok_def level_def frames)
  have ok: "rings_ok ?s" using assms(1) by (simp add: sched_inv_def frames)
  have room: "length (pq_items s (level s p)) < 99" by (rule sched_inv_room [OF assms(1) lv(1,2)])
  then show "enqueue_or_panic p ?s = Inr (made_runnable p s)"
    using pq_enqueue_eq [OF ok, of p] lv
    by (simp add: enqueue_or_panic_def made_runnable_def frames)
  show items: "pq_items (made_runnable p s) = (pq_items s)(level s p := pq_items s (level s p) @ [Some p])"
    using pq_items_put_entry [OF ok lv(1,2), of p] room by (simp add: made_runnable_def frames)
  show pr: "procs (made_runnable p s) = (procs s)(p := (procs s p)\<lparr>p_state := RUNNABLE\<rparr>)"
    by (simp add: made_runnable_def frames)
  note m = mset_entries_put [OF items lv(1,2)]
  have "Some p \<notin> set (entries s)" using assms by (auto simp: sched_inv_def runnable_def)
  moreover have "runnable (made_runnable p s) = insert p (runnable s)"
    using assms(2) by (auto simp: runnable_def pr)
  moreover have "rings_ok (made_runnable p s)"
    using rings_ok_put_entry [OF ok] by (simp add: made_runnable_def)
  moreover have "levels_ok (made_runnable p s)"
    using assms(1) by (auto simp: sched_inv_def levels_ok_def level_def pr)
  ultimately show "sched_inv (made_runnable p s)"
    using assms(1) distinct_mset_add [OF m] set_mset_add [OF m] by (auto simp: sched_inv_def)
qed

text \<open>A change of one process that neither makes it \<open>RUNNABLE\<close> nor stops it being so.\<close>

lemma sched_inv_set_proc:
  assumes "sched_inv s" "p_priority v = p_priority (procs s p)"
    and "p_state v = RUNNABLE \<longleftrightarrow> p_state (procs s p) = RUNNABLE"
  shows "sched_inv (set_proc p v s)"
  using assms levels_ok_set_proc [of s v p]
  by (auto simp: sched_inv_def frames runnable_def split: if_splits)

text \<open>The scheduler takes an entry and sets the process \<open>RUNNING\<close>.\<close>

lemma dequeue_inv:
  assumes "sched_inv s"
  obtains (idle) "runnable s = {}" "pq_dequeue s = Inr (NULL, s)"
  | (serve) p pr where "p \<in> runnable s" "0 \<le> pr" "pr < PRIO_MAX" "pq_items s pr \<noteq> []"
      "hd (pq_items s pr) = Some p" "\<And>j. 0 \<le> j \<Longrightarrow> j < pr \<Longrightarrow> pq_items s j = []"
      "pq_dequeue s = Inr (Entry (Some p), drop_entry pr s)"
      "\<And>v. p_state v \<noteq> RUNNABLE \<Longrightarrow> p_priority v = p_priority (procs s p) \<Longrightarrow>
         sched_inv (set_proc p v (drop_entry pr s))"
proof -
  have ok: "rings_ok s" using assms by (simp add: sched_inv_def)
  from ok show thesis
  proof (cases rule: pq_dequeue_cases)
    case empty
    then have "set (entries s) = {}" by (auto simp: entries_set)
    with assms have "runnable s = {}" by (auto simp: sched_inv_def)
    then show ?thesis using empty(2) by (rule idle)
  next
    case (entry pr e es)
    have "e \<in> set (entries s)" using entry(1-3) by (force simp: entries_set)
    then obtain p where p: "p \<in> runnable s" "e = Some p" using assms by (auto simp: sched_inv_def)
    note items = pq_items_drop_entry(1) [OF ok entry(1-3)]
    note m = mset_entries_drop [OF items entry(3,1,2)]
    have inv: "sched_inv (set_proc p v (drop_entry pr s))"
      if v: "p_state v \<noteq> RUNNABLE" "p_priority v = p_priority (procs s p)" for v
    proof -
      have "runnable (set_proc p v (drop_entry pr s)) = runnable s - {p}"
        using v by (auto simp: runnable_def frames split: if_splits)
      moreover have "insert e (set (entries (drop_entry pr s))) = Some ` runnable s"
        "e \<notin> set (entries (drop_entry pr s))" "distinct (entries (drop_entry pr s))"
        using assms distinct_mset_add [OF m] set_mset_add [OF m] by (simp_all add: sched_inv_def)
      moreover have "rings_ok (drop_entry pr s)" by (rule rings_ok_drop_entry [OF ok])
      moreover have "levels_ok (set_proc p v (drop_entry pr s))"
        using assms v(2) levels_ok_set_proc [of "drop_entry pr s" v p]
          levels_ok_cong [of "drop_entry pr s" s] by (simp add: sched_inv_def frames)
      ultimately show ?thesis using p(2) by (auto simp: sched_inv_def frames)
    qed
    show ?thesis by (rule serve [of p pr]) (use entry p inv in auto)
  qed
qed

section \<open>Waking processes\<close>

text \<open>A routine that changes nothing but the process table and the queues.\<close>

definition sched_only :: "'z proc_state_scheme \<Rightarrow> 'z proc_state_scheme \<Rightarrow> bool" where
  "sched_only s t \<longleftrightarrow> (\<exists>P Q H. t = s\<lparr>procs := P, pqueues := Q, head_tail := H\<rparr>)"

lemma sched_only_refl [intro]: "sched_only s s"
  unfolding sched_only_def by (intro exI [of _ "procs s"] exI [of _ "pqueues s"] exI [of _ "head_tail s"]) simp

lemma sched_only_trans: "sched_only s t \<Longrightarrow> sched_only t u \<Longrightarrow> sched_only s u"
  unfolding sched_only_def by (elim exE, simp) (intro exI, rule refl)

lemma sched_only_updates [intro]:
  "sched_only s (set_proc p v s)" "sched_only s (put_entry pr p s)" "sched_only s (drop_entry pr s)"
  "sched_only s (made_runnable p s)"
proof -
  show p: "sched_only s (set_proc p v s)" for s :: "'z proc_state_scheme" and p v
    unfolding sched_only_def set_proc_def
    by (intro exI [of _ "(procs s)(p := v)"] exI [of _ "pqueues s"] exI [of _ "head_tail s"]) simp
  show e: "sched_only s (put_entry pr p s)" for s :: "'z proc_state_scheme" and p pr
    unfolding sched_only_def put_entry_def
    by (rule exI [of _ "procs s"]) (auto intro!: exI)
  show "sched_only s (drop_entry pr s)"
    unfolding sched_only_def drop_entry_def
    by (rule exI [of _ "procs s"]) (auto intro!: exI [of _ "pqueues s"])
  show "sched_only s (made_runnable p s)"
    unfolding made_runnable_def by (rule sched_only_trans [OF p e])
qed

lemma sched_only_machine:
  assumes "sched_only s t"
  shows "cpus t = cpus s" "cpu_ok c t = cpu_ok c s" "depth c t = depth c s" "holds_lock c l t = holds_lock c l s"
    "free_lock l t = free_lock l s" "switches t = switches s" "mem t = mem s" "int_flag t = int_flag s"
    "locks t = locks s" "nextpid t = nextpid s" "initproc t = initproc s" "freelist t = freelist s"
  using assms
  by (auto simp: sched_only_def cpu_ok_def this_cpu_def depth_def holds_lock_def free_lock_def)

text \<open>A critical section around such a routine.\<close>

lemma sched_only_unlock:
  assumes "sched_only (locked_by c l s) t" "cpu_ok c s" "free_lock l s"
  shows "release l t = Inr (s\<lparr>procs := procs t, pqueues := pqueues t, head_tail := head_tail t\<rparr>)"
proof -
  have ok: "cpu_ok c t" "0 < depth c t" "holds_lock c l t"
    using sched_only_machine [OF assms(1)] assms(2) depth_nonneg [OF assms(2)]
    by (simp_all add: lock_simps)
  have "unlocked_by c l t = s\<lparr>procs := procs t, pqueues := pqueues t, head_tail := head_tail t\<rparr>"
  proof -
    obtain P Q H where t: "t = (locked_by c l s)\<lparr>procs := P, pqueues := Q, head_tail := H\<rparr>"
      using assms(1) by (auto simp: sched_only_def)
    have "unlocked_by c l t = (unlocked_by c l (locked_by c l s))\<lparr>procs := P, pqueues := Q, head_tail := H\<rparr>"
      by (simp add: t unlocked_by_def)
    with t show ?thesis using unlocked_locked_by [OF assms(2,3)] by simp
  qed
  then show ?thesis using release_held [OF ok] by simp
qed

definition sleeps_on :: "chan \<Rightarrow> proc \<Rightarrow> bool" where
  "sleeps_on ch v \<longleftrightarrow> p_state v = SLEEPING \<and> p_chan v = ch"

lemma wakeup_slots:
  assumes "sched_inv s" "distinct xs" "set xs \<subseteq> {..<NPROC}"
  shows "\<exists>t. for_each (wakeup1_slot ch) xs s = Inr t \<and> sched_inv t \<and> sched_only s t
    \<and> procs t = (\<lambda>p. if p \<in> set xs \<and> sleeps_on ch (procs s p) then (procs s p)\<lparr>p_state := RUNNABLE\<rparr> else procs s p)
    \<and> pq_items t = (\<lambda>pr. pq_items s pr @
         map Some (filter (\<lambda>p. sleeps_on ch (procs s p) \<and> level s p = pr) xs))"
  using assms
proof (induction xs arbitrary: s)
  case Nil
  then show ?case by (auto simp: fun_eq_iff)
next
  case (Cons x xs)
  show ?case
  proof (cases "sleeps_on ch (procs s x)")
    case False
    then have "wakeup1_slot ch x s = Inr s" by (auto simp: wakeup1_slot_def sleeps_on_def)
    moreover have "(p \<in> set (x # xs) \<and> sleeps_on ch (procs s p)) = (p \<in> set xs \<and> sleeps_on ch (procs s p))" for p
      using False by auto
    ultimately show ?thesis using Cons.IH [OF Cons.prems(1)] Cons.prems(2,3) False by simp
  next
    case True
    then have ns: "p_state (procs s x) \<noteq> RUNNABLE" by (simp add: sleeps_on_def)
    have x: "x < NPROC" using Cons.prems(3) by simp
    let ?u = "made_runnable x s"
    note m = make_runnable [OF Cons.prems(1) x ns]
    have step: "wakeup1_slot ch x s = Inr ?u"
      using True m(1) by (simp add: wakeup1_slot_def sleeps_on_def)
    have lv: "level ?u p = level s p" for p by (simp add: level_def m(4))
    obtain t where t: "for_each (wakeup1_slot ch) xs ?u = Inr t" "sched_inv t" "sched_only ?u t"
      "procs t = (\<lambda>p. if p \<in> set xs \<and> sleeps_on ch (procs ?u p) then (procs ?u p)\<lparr>p_state := RUNNABLE\<rparr> else procs ?u p)"
      "pq_items t = (\<lambda>pr. pq_items ?u pr @
         map Some (filter (\<lambda>p. sleeps_on ch (procs ?u p) \<and> level ?u p = pr) xs))"
      using Cons.IH [OF m(2)] Cons.prems by auto
    have same: "sleeps_on ch (procs ?u p) = sleeps_on ch (procs s p)" if "p \<in> set xs" for p
      using that Cons.prems(2) by (auto simp: m(4))
    have "filter (\<lambda>p. sleeps_on ch (procs ?u p) \<and> level ?u p = pr) xs
       = filter (\<lambda>p. sleeps_on ch (procs s p) \<and> level s p = pr) xs" for pr
      by (rule filter_cong) (simp_all add: same lv)
    then have "pq_items t = (\<lambda>pr. pq_items s pr @
        map Some (filter (\<lambda>p. sleeps_on ch (procs s p) \<and> level s p = pr) (x # xs)))"
      using True by (auto simp: t(5) m(3) fun_eq_iff)
    moreover have "procs t = (\<lambda>p. if p \<in> set (x # xs) \<and> sleeps_on ch (procs s p)
        then (procs s p)\<lparr>p_state := RUNNABLE\<rparr> else procs s p)"
      using True Cons.prems(2) same by (auto simp: t(4) m(4) fun_eq_iff)
    moreover have "sched_only s t" by (rule sched_only_trans [OF _ t(3)]) blast
    ultimately show ?thesis using step t(1,2) by simp
  qed
qed

lemma proc_fields_lock [lock_simps]:
  "procs (locked_by c l s) = procs s" "procs (unlocked_by c l s) = procs s"
  "pqueues (locked_by c l s) = pqueues s" "pqueues (unlocked_by c l s) = pqueues s"
  "head_tail (locked_by c l s) = head_tail s" "head_tail (unlocked_by c l s) = head_tail s"
  "switches (locked_by c l s) = switches s" "switches (unlocked_by c l s) = switches s"
  "first_time (locked_by c l s) = first_time s" "first_time (unlocked_by c l s) = first_time s"
  "cproc (cpus (locked_by c l s) d) = cproc (cpus s d)" "cproc (cpus (unlocked_by c l s) d) = cproc (cpus s d)"
  by (simp_all add: locked_by_def unlocked_by_def)

lemma pq_items_cong: "pqueues t = pqueues s \<Longrightarrow> head_tail t = head_tail s \<Longrightarrow> pq_items t = pq_items s"
  by (rule ext) (simp add: pq_items_def)

lemma sched_inv_cong:
  assumes "procs t = procs s" "pqueues t = pqueues s" "head_tail t = head_tail s"
  shows "sched_inv t = sched_inv s"
  using assms entries_cong [OF pq_items_cong [OF assms(2,3)]] runnable_cong [OF assms(1)]
    levels_ok_cong [OF assms(1)]
  by (simp add: sched_inv_def rings_ok_def)

lemma queue_frames_lock [lock_simps]:
  "pq_items (locked_by c l s) = pq_items s" "pq_items (unlocked_by c l s) = pq_items s"
  "sched_inv (locked_by c l s) = sched_inv s" "sched_inv (unlocked_by c l s) = sched_inv s"
  "level (locked_by c l s) = level s" "level (unlocked_by c l s) = level s"
  by (rule pq_items_cong sched_inv_cong; simp add: lock_simps)+
     (simp_all add: level_def fun_eq_iff lock_simps)

definition awake :: "chan \<Rightarrow> 'z proc_state_scheme \<Rightarrow> nat \<Rightarrow> proc" where
  "awake ch s p = (if p < NPROC \<and> sleeps_on ch (procs s p) then (procs s p)\<lparr>p_state := RUNNABLE\<rparr> else procs s p)"

definition woken_items :: "chan \<Rightarrow> 'z proc_state_scheme \<Rightarrow> int \<Rightarrow> nat option list" where
  "woken_items ch s pr =
     pq_items s pr @ map Some (filter (\<lambda>p. sleeps_on ch (procs s p) \<and> level s p = pr) [0..<NPROC])"

lemma awake_cong: "procs t = procs s \<Longrightarrow> awake ch t = awake ch s"
  by (rule ext) (simp add: awake_def)

lemma woken_items_cong:
  "procs t = procs s \<Longrightarrow> pq_items t = pq_items s \<Longrightarrow> woken_items ch t = woken_items ch s"
  by (rule ext) (simp add: woken_items_def level_def)

lemma wakeup1_all:
  assumes "sched_inv s"
  obtains t where "wakeup1 ch s = Inr t" "sched_inv t" "sched_only s t"
    "procs t = awake ch s" "pq_items t = woken_items ch s"
proof -
  have *: "distinct [0..<NPROC]" "set [0..<NPROC] \<subseteq> {..<NPROC}" by auto
  from wakeup_slots [OF assms *, of ch] that show ?thesis
    by (auto simp: wakeup1_def awake_def [abs_def] woken_items_def [abs_def])
qed

lemma wakeup_all:
  assumes "sched_inv s" "cpu_ok c s" "free_lock PtableLock s"
  obtains t where "wakeup ch s = Inr t" "sched_inv t" "sched_only s t"
    "procs t = awake ch s" "pq_items t = woken_items ch s"
proof -
  let ?s = "locked_by c PtableLock s"
  obtain u where u: "wakeup1 ch ?s = Inr u" "sched_inv u" "sched_only ?s u"
    "procs u = awake ch ?s" "pq_items u = woken_items ch ?s"
    using wakeup1_all [of ?s ch] assms(1) by (auto simp: lock_simps)
  let ?t = "s\<lparr>procs := procs u, pqueues := pqueues u, head_tail := head_tail u\<rparr>"
  have "wakeup ch s = Inr ?t"
    using sched_only_unlock [OF u(3) assms(2,3)] u(1) acquire_free [OF assms(2,3)]
    by (simp add: wakeup_def)
  moreover have "sched_inv ?t" using u(2) sched_inv_cong [of ?t u] by simp
  moreover have "sched_only s ?t" by (auto simp: sched_only_def)
  moreover have "procs ?t = awake ch s"
    using u(4) awake_cong [of ?s s ch] by (simp add: lock_simps)
  moreover have "pq_items ?t = woken_items ch s"
    using u(5) pq_items_cong [of ?t u] woken_items_cong [of ?s s ch] by (simp add: lock_simps)
  ultimately show ?thesis by (rule that)
qed

text \<open>\<open>kill\<close> marks the first process with the pid, and makes it eligible if it sleeps.\<close>

lemma kill_cases:
  assumes "sched_inv s" "cpu_ok c s" "free_lock PtableLock s"
  obtains (absent) "\<And>p. p < NPROC \<Longrightarrow> p_pid (procs s p) \<noteq> pid" "kill pid s = Inr (- 1, s)"
  | (found) p t where "p < NPROC" "p_pid (procs s p) = pid" "\<And>q. q < p \<Longrightarrow> p_pid (procs s q) \<noteq> pid"
      "kill pid s = Inr (0, t)" "sched_inv t" "sched_only s t"
      "procs t = (procs s)(p := (procs s p)\<lparr>p_killed := True,
         p_state := (if p_state (procs s p) = SLEEPING then RUNNABLE else p_state (procs s p))\<rparr>)"
proof (cases "find (\<lambda>p. p_pid (procs s p) = pid) [0..<NPROC]")
  case None
  have "kill pid s = Inr (- 1, s)"
    using None assms depth_nonneg [OF assms(2)]
    by (simp add: kill_def lock_simps release_held [where c = c])
  then show ?thesis using None by (intro absent) (auto simp: find_upt_None)
next
  case (Some p)
  then have p: "p < NPROC" "p_pid (procs s p) = pid" "\<And>q. q < p \<Longrightarrow> p_pid (procs s q) \<noteq> pid"
    by (auto simp: find_upt_Some)
  let ?s = "locked_by c PtableLock s"
  let ?k = "set_proc p ((procs s p)\<lparr>p_killed := True\<rparr>) ?s"
  have inv: "sched_inv ?k" by (rule sched_inv_set_proc) (use assms(1) in \<open>simp_all add: lock_simps\<close>)
  define u where "u = (if p_state (procs s p) = SLEEPING then made_runnable p ?k else ?k)"
  have st: "p_state (procs ?k p) = p_state (procs s p)" by (simp add: frames lock_simps)
  have m: "(if p_state (procs ?k p) = SLEEPING
      then enqueue_or_panic p (set_proc p ((procs ?k p)\<lparr>p_state := RUNNABLE\<rparr>) ?k) else Inr ?k) = Inr u"
    using make_runnable(1) [OF inv p(1)] st by (simp add: u_def)
  have iu: "sched_inv u" using make_runnable(2) [OF inv p(1)] inv st by (simp add: u_def)
  have so: "sched_only ?s u" by (auto simp: u_def intro: sched_only_trans)
  have pu: "procs u = (procs s)(p := (procs s p)\<lparr>p_killed := True,
      p_state := (if p_state (procs s p) = SLEEPING then RUNNABLE else p_state (procs s p))\<rparr>)"
    using make_runnable(4) [OF inv p(1)] st by (auto simp: u_def frames lock_simps)
  let ?t = "s\<lparr>procs := procs u, pqueues := pqueues u, head_tail := head_tail u\<rparr>"
  have "kill pid s = Inr (0, ?t)"
    using Some m sched_only_unlock [OF so assms(2,3)] acquire_free [OF assms(2,3)]
    by (simp add: kill_def Let_def lock_simps)
  moreover have "sched_inv ?t" using iu sched_inv_cong [of ?t u] by simp
  moreover have "sched_only s ?t" by (auto simp: sched_only_def)
  ultimately show ?thesis using p pu by (intro found [of p ?t]) simp_all
qed

section \<open>Giving up the CPU\<close>

text \<open>What a thread does when it is switched to again after \<open>sched\<close>.\<close>

definition resumed :: "bool \<Rightarrow> 'z proc_state_scheme \<Rightarrow> 'z proc_state_scheme result" where
  "resumed ie t = bnd (mycpu t) (\<lambda>d. Inr (set_cpu d ((cpus t d)\<lparr>intena := ie\<rparr>) t))"

lemma sched_eq:
  assumes "cpu_ok c s" "depth c s = 1" "holds_lock c PtableLock s" "cproc (cpus s c) = Some p"
    and "p_state (procs s p) \<noteq> RUNNING"
  shows "sched others s = bnd (swtch others p s) (resumed (intena (cpus s c)))"
proof -
  have c: "mycpu s = Inr c" "\<not> int_flag s"
    using assms(1,2) by (auto simp: cpu_ok_def depth_def intro: mycpu_this)
  then have "holding PtableLock s = Inr True" using assms(3) by (simp add: holding_def holds_lock_def)
  with c assms show ?thesis
    by (simp add: sched_def myproc_eq [OF assms(1)] depth_def resumed_def [abs_def])
qed

lemma set_proc_machine [lock_simps]:
  "cpu_ok c (set_proc p v s) = cpu_ok c s" "depth c (set_proc p v s) = depth c s"
  "holds_lock c l (set_proc p v s) = holds_lock c l s" "free_lock l (set_proc p v s) = free_lock l s"
  "cpus (set_proc p v s) = cpus s" "switches (set_proc p v s) = switches s"
  by (simp_all add: sched_only_machine [OF sched_only_updates(1)])

text \<open>The state in which a process that called \<open>sleep\<close> leaves the CPU.\<close>

definition asleep :: "nat \<Rightarrow> lockid \<Rightarrow> nat \<Rightarrow> chan \<Rightarrow> 'z proc_state_scheme \<Rightarrow> 'z proc_state_scheme" where
  "asleep c lk p ch s = set_proc p ((procs s p)\<lparr>p_chan := ch, p_state := SLEEPING\<rparr>)
     (if lk \<noteq> PtableLock then unlocked_by c lk (locked_by c PtableLock s) else s)"

definition sleep_end :: "lockid \<Rightarrow> nat \<Rightarrow> 'z proc_state_scheme \<Rightarrow> 'z proc_state_scheme result" where
  "sleep_end lk p s =
     (let s = set_proc p ((procs s p)\<lparr>p_chan := NoChan\<rparr>) s in
      if lk \<noteq> PtableLock then bnd (release PtableLock s) (acquire lk) else Inr s)"

lemma set_proc_twice [simp]: "set_proc p v (set_proc p w s) = set_proc p v s"
  by (simp add: set_proc_def)

text \<open>A process that sleeps holds one lock: the one it passes, which may be the table's.\<close>

definition may_sleep :: "nat \<Rightarrow> lockid \<Rightarrow> nat \<Rightarrow> 'z proc_state_scheme \<Rightarrow> bool" where
  "may_sleep c lk p s \<longleftrightarrow> cpu_ok c s \<and> depth c s = 1 \<and> holds_lock c lk s \<and> cproc (cpus s c) = Some p
     \<and> (lk \<noteq> PtableLock \<longrightarrow> free_lock PtableLock s)"

lemma may_sleep_swap:
  assumes "may_sleep c lk p s" "lk \<noteq> PtableLock"
  shows "bnd (acquire PtableLock s) (release lk) = Inr (unlocked_by c lk (locked_by c PtableLock s))"
  using assms acquire_free [of c s PtableLock] release_held [of c "locked_by c PtableLock s" lk]
  by (auto simp: may_sleep_def lock_simps)

lemma cpu_ok_swap [lock_simps]: "cpu_ok c s \<Longrightarrow> 0 < depth c s \<Longrightarrow> cpu_ok c (unlocked_by c l (locked_by c k s))"
  by (rule cpu_ok_unlocked_by) (simp_all add: lock_simps)

lemma asleep_machine:
  assumes "may_sleep c lk p s"
  shows "cpu_ok c (asleep c lk p ch s)" "depth c (asleep c lk p ch s) = 1"
    "holds_lock c PtableLock (asleep c lk p ch s)" "cproc (cpus (asleep c lk p ch s) c) = Some p"
    "lk \<noteq> PtableLock \<Longrightarrow> free_lock lk (asleep c lk p ch s)"
  using assms by (auto simp: asleep_def may_sleep_def lock_simps)

lemma asleep_procs [frames]:
  "procs (asleep c lk p ch s) = (procs s)(p := (procs s p)\<lparr>p_chan := ch, p_state := SLEEPING\<rparr>)"
  "pq_items (asleep c lk p ch s) = pq_items s" "level (asleep c lk p ch s) = level s"
  by (auto simp: asleep_def frames lock_simps level_def fun_eq_iff)

lemma sleep_eq:
  assumes "may_sleep c lk p s"
  shows "sleep others ch lk s =
    bnd (bnd (swtch others p (asleep c lk p ch s)) (resumed (intena (cpus (asleep c lk p ch s) c)))) (sleep_end lk p)"
proof -
  have ok: "cpu_ok c s" "cproc (cpus s c) = Some p" using assms by (simp_all add: may_sleep_def)
  let ?u = "if lk \<noteq> PtableLock then unlocked_by c lk (locked_by c PtableLock s) else s"
  have u: "(if lk \<noteq> PtableLock then bnd (acquire PtableLock s) (release lk) else Inr s) = Inr ?u"
    using may_sleep_swap [OF assms] by simp
  have pu: "procs ?u = procs s" by (simp add: lock_simps)
  have "sched others (asleep c lk p ch s) =
      bnd (swtch others p (asleep c lk p ch s)) (resumed (intena (cpus (asleep c lk p ch s) c)))"
    by (rule sched_eq [OF asleep_machine(1-4) [OF assms]]) (simp add: frames)
  then show ?thesis
    unfolding sleep_def myproc_eq [OF ok(1)] ok(2)
    by (simp add: u pu frames asleep_def [symmetric] sleep_end_def [abs_def] Let_def del: if_split)
qed

text \<open>The state in which a process that called \<open>yield\<close> leaves the CPU.\<close>

lemma yield_eq:
  assumes "sched_inv s" "cpu_ok c s" "depth c s = 0" "free_lock PtableLock s" "cproc (cpus s c) = Some p"
    and "p < NPROC" "p_state (procs s p) = RUNNING"
  shows "yield others s = bnd (bnd (swtch others p (made_runnable p (locked_by c PtableLock s)))
      (resumed True)) (release PtableLock)"
    and "sched_inv (made_runnable p (locked_by c PtableLock s))"
proof -
  let ?s = "locked_by c PtableLock s"
  have inv: "sched_inv ?s" "p_state (procs ?s p) \<noteq> RUNNABLE" using assms by (simp_all add: lock_simps)
  note m = make_runnable [OF inv(1) assms(6) inv(2)]
  show "sched_inv (made_runnable p ?s)" by (rule m)
  let ?u = "made_runnable p ?s"
  have so: "sched_only ?s ?u" by blast
  have "intena (cpus ?s c)" using assms(2,3) by (simp add: locked_by_def cpu_ok_def depth_def)
  then have "intena (cpus ?u c) = True" by (simp add: sched_only_machine [OF so])
  then have "sched others ?u = bnd (swtch others p ?u) (resumed True)"
    using assms sched_eq [of c ?u p others] m(4)
    by (simp add: sched_only_machine [OF so] lock_simps)
  then show "yield others s = bnd (bnd (swtch others p ?u) (resumed True)) (release PtableLock)"
    using assms m(1)
    by (simp add: yield_def acquire_free [OF assms(2,4)] myproc_eq [OF cpu_ok_locked_by [OF assms(2)]]
        lock_simps Let_def)
qed

section \<open>A pass of the scheduler\<close>

text \<open>The state in which the scheduler of CPU \<open>c\<close> switches to \<open>p\<close>, taken from level \<open>pr\<close>.\<close>

definition dispatched :: "nat \<Rightarrow> nat \<Rightarrow> int \<Rightarrow> 'z proc_state_scheme \<Rightarrow> 'z proc_state_scheme" where
  "dispatched c p pr s =
     (let s = drop_entry pr s; s = set_cpu c ((cpus s c)\<lparr>cproc := Some p\<rparr>) s;
          s = uvm_loaded c (p_kstack (procs s p)) (p_pgdir (procs s p)) s in
      set_proc p ((procs s p)\<lparr>p_state := RUNNING\<rparr>) s)"

definition after_run :: "nat \<Rightarrow> 'z proc_state_scheme \<Rightarrow> 'z proc_state_scheme result" where
  "after_run c s =
     (let s = switchkvm s; s = set_cpu c ((cpus s c)\<lparr>cproc := None\<rparr>) s in release PtableLock s)"

lemma procs_machine [frames]: "procs (set_cpu c v s) = procs s" "procs (uvm_loaded c k d s) = procs s"
  by (simp_all add: set_cpu_def uvm_loaded_def)

lemma cpu_ok_set_cproc: "cpu_ok c (set_cpu c ((cpus s c)\<lparr>cproc := x\<rparr>) s) = cpu_ok c s"
  by (simp add: cpu_ok_def) (simp add: set_cpu_def)

lemma run_process_eq:
  assumes "cpu_ok c s" "p_kstack (procs s p) \<noteq> 0" "p_pgdir (procs s p) \<noteq> 0"
  shows "run_process run c p s =
    (let u = uvm_loaded c (p_kstack (procs s p)) (p_pgdir (procs s p)) (set_cpu c ((cpus s c)\<lparr>cproc := Some p\<rparr>) s);
         t = switchkvm (run p (set_proc p ((procs u p)\<lparr>p_state := RUNNING\<rparr>) u)) in
     Inr (set_cpu c ((cpus t c)\<lparr>cproc := None\<rparr>) t))"
proof -
  let ?s = "set_cpu c ((cpus s c)\<lparr>cproc := Some p\<rparr>) s"
  have "cpu_ok c ?s" using assms(1) by (simp add: cpu_ok_set_cproc)
  then show ?thesis
    using switchuvm_eq [of c ?s "p_kstack (procs s p)" "p_pgdir (procs s p)"] assms
    by (simp add: run_process_def Let_def procs_machine)
qed

definition stacks_ok :: "'z proc_state_scheme \<Rightarrow> bool" where
  "stacks_ok s \<longleftrightarrow> (\<forall>p\<in>runnable s. p_kstack (procs s p) \<noteq> 0 \<and> p_pgdir (procs s p) \<noteq> 0)"

lemma scheduler_round_eq:
  assumes "sched_inv s" "cpu_ok c s" "int_flag s" "free_lock PtableLock s" "\<not> first_time s"
    and "stacks_ok s"
  obtains (idle) "runnable s = {}" "scheduler_round run c s = Inr s"
  | (serve) p pr where "p \<in> runnable s" "0 \<le> pr" "pr < PRIO_MAX" "pq_items s pr \<noteq> []"
      "hd (pq_items s pr) = Some p" "\<And>j. 0 \<le> j \<Longrightarrow> j < pr \<Longrightarrow> pq_items s j = []"
      "scheduler_round run c s = after_run c (run p (dispatched c p pr (locked_by c PtableLock s)))"
      "sched_inv (dispatched c p pr (locked_by c PtableLock s))"
proof -
  let ?s = "locked_by c PtableLock s"
  have inv: "sched_inv ?s" using assms(1) by (simp add: lock_simps)
  have sti: "sti s = s" using assms(3) by (simp add: sti_def)
  have run: "runnable ?s = runnable s" by (rule runnable_cong) (simp add: lock_simps)
  from inv show thesis
  proof (cases rule: dequeue_inv)
    case idle
    then have "scheduler_round run c s = release PtableLock ?s"
      using assms acquire_free [OF assms(2,4)] by (simp add: scheduler_round_def sti lock_simps)
    also have "\<dots> = Inr s"
      by (rule release_locked_by [OF assms(2,4)])
    finally show ?thesis using idle(1) that(1) run by simp
  next
    case (serve p pr)
    let ?d = "drop_entry pr ?s"
    have p: "p \<in> runnable s" using serve(1) run by simp
    have d: "cpu_ok c ?d" using assms(2) by (simp add: sched_only_machine [OF sched_only_updates(3)] lock_simps)
    have kp: "p_kstack (procs ?d p) \<noteq> 0" "p_pgdir (procs ?d p) \<noteq> 0"
      using assms(6) p by (simp_all add: stacks_ok_def frames lock_simps)
    have "scheduler_round run c s = after_run c (run p (dispatched c p pr ?s))"
      using assms(5) acquire_free [OF assms(2,4)] serve(7) run_process_eq [OF d kp]
      by (simp add: scheduler_round_def sti lock_simps dispatched_def after_run_def Let_def procs_machine)
    moreover have "sched_inv (dispatched c p pr ?s)"
    proof -
      have "sched_inv (set_proc p ((procs s p)\<lparr>p_state := RUNNING\<rparr>) ?d)"
        by (rule serve(8)) (simp_all add: lock_simps)
      moreover have "sched_inv (dispatched c p pr ?s) =
          sched_inv (set_proc p ((procs s p)\<lparr>p_state := RUNNING\<rparr>) ?d)"
        by (rule sched_inv_cong)
          (simp_all add: dispatched_def Let_def uvm_loaded_def set_cpu_def set_proc_def drop_entry_def
            locked_by_def)
      ultimately show ?thesis by simp
    qed
    ultimately show ?thesis using p serve(2-6) that(2) [of p pr] by (simp add: lock_simps)
  qed
qed

section \<open>Creating and growing a process\<close>

text \<open>
  \<open>allocproc\<close> lays out the trap frame and the context at the top of the kernel stack; the
  context resumes at \<open>forkret\<close>.
\<close>

definition allocproc :: "'z proc_state_scheme \<Rightarrow> (nat option \<times> 'z proc_state_scheme) result" where
  "allocproc s =
     bnd (acquire PtableLock s) (\<lambda>s.
     case find (\<lambda>p. p_state (procs s p) = UNUSED) [0..<NPROC] of
       None \<Rightarrow> bnd (release PtableLock s) (\<lambda>s. Inr (None, s))
     | Some p \<Rightarrow>
         let s = set_proc p ((procs s p)\<lparr>p_state := EMBRYO\<rparr>) s;
             s = set_proc p ((procs s p)\<lparr>p_pid := nextpid s\<rparr>) s;
             s = s\<lparr>nextpid := nextpid s + 1\<rparr> in
         bnd (release PtableLock s) (\<lambda>s.
         bnd (kalloc s) (\<lambda>(k, s).
         let s = set_proc p ((procs s p)\<lparr>p_kstack := k\<rparr>) s in
         if k = 0 then Inr (None, set_proc p ((procs s p)\<lparr>p_state := UNUSED\<rparr>) s)
         else
           let s = set_proc p ((procs s p)\<lparr>p_context := \<lparr>cx_edi = 0, cx_esi = 0, cx_ebx = 0, cx_ebp = 0,
                     cx_eip = AtForkret\<rparr>\<rparr>) s;
               s = set_proc p ((procs s p)\<lparr>p_mux_ptrs := (\<lambda>i. if i < MUX_MAXNUM then None
                     else p_mux_ptrs (procs s p) i)\<rparr>) s in
           Inr (Some p, s))))"

definition growproc :: "int \<Rightarrow> 'z proc_state_scheme \<Rightarrow> (int \<times> 'z proc_state_scheme) result" where
  "growproc n s =
     bnd (myproc s) (\<lambda>(mp, s).
     case mp of None \<Rightarrow> Inl (Fault ''curproc->sz'') | Some p \<Rightarrow>
     let sz = p_sz (procs s p); pgdir = p_pgdir (procs s p) in
     bnd (if 0 < n then allocuvm pgdir sz (sz + of_int n) s
          else if n < 0 then deallocuvm pgdir sz (sz + of_int n) s
          else Inr (sz, s)) (\<lambda>(sz, s).
     if n \<noteq> 0 \<and> sz = 0 then Inr (- 1, s)
     else
       let s = set_proc p ((procs s p)\<lparr>p_sz := sz\<rparr>) s in
       bnd (switchuvm (Some (p_kstack (procs s p), p_pgdir (procs s p))) s) (\<lambda>s. Inr (0, s))))"

text \<open>A priority below \<open>PRIO_MAX\<close> is assigned; the entry of the process stays in the level it is in.\<close>

lemma reprio_inv:
  assumes "sched_inv s" "0 \<le> sint w" "sint w < PRIO_MAX"
  shows "sched_inv (set_proc p ((procs s p)\<lparr>p_priority := w\<rparr>) s)"
proof -
  let ?t = "set_proc p ((procs s p)\<lparr>p_priority := w\<rparr>) s"
  have "runnable ?t = runnable s" by (auto simp: runnable_def frames split: if_splits)
  moreover have "levels_ok ?t" using assms by (auto simp: sched_inv_def levels_ok_def level_def frames)
  ultimately show ?thesis using assms(1) by (simp add: sched_inv_def frames)
qed

section \<open>The queues as an abstract priority queue\<close>

type_synonym apq = "int \<Rightarrow> nat option list"

definition apq_enqueue :: "int \<Rightarrow> nat \<Rightarrow> apq \<Rightarrow> apq" where
  "apq_enqueue pr p q = q(pr := q pr @ [Some p])"

definition apq_dequeue :: "apq \<Rightarrow> (nat option \<times> apq) option" where
  "apq_dequeue q =
     (case find (\<lambda>pr. q pr \<noteq> []) [0..PRIO_MAX - 1] of
        None \<Rightarrow> None
      | Some pr \<Rightarrow> Some (hd (q pr), q(pr := tl (q pr))))"

lemma apq_dequeue_empty:
  "(\<And>pr. 0 \<le> pr \<Longrightarrow> pr < PRIO_MAX \<Longrightarrow> q pr = []) \<Longrightarrow> apq_dequeue q = None"
  by (auto simp: apq_dequeue_def find_None_iff split: option.splits)

lemma apq_dequeue_entry:
  assumes "0 \<le> pr" "pr < PRIO_MAX" "q pr = e # es" "\<And>j. 0 \<le> j \<Longrightarrow> j < pr \<Longrightarrow> q j = []"
  shows "apq_dequeue q = Some (e, q(pr := es))"
proof -
  have "find (\<lambda>pr. q pr \<noteq> []) [0..PRIO_MAX - 1] = Some pr"
    using assms by (simp add: find_levels_Some)
  then show ?thesis using assms(3) by (simp add: apq_dequeue_def)
qed

text \<open>One level of the queues, as a queue of the processes of that level.\<close>

definition level_put :: "nat option \<Rightarrow> 'z proc_state_scheme \<Rightarrow> 'z proc_state_scheme option" where
  "level_put e s =
     (case e of None \<Rightarrow> None | Some p \<Rightarrow>
      (case pq_enqueue p s of Inl _ \<Rightarrow> None | Inr (r, t) \<Rightarrow> if r < 0 then None else Some t))"

definition level_get :: "'z proc_state_scheme \<Rightarrow> (nat option \<times> 'z proc_state_scheme) option" where
  "level_get s = (case pq_dequeue s of Inr (Entry e, t) \<Rightarrow> Some (e, t) | _ \<Rightarrow> None)"

definition level_may :: "int \<Rightarrow> nat option list \<Rightarrow> 'z proc_state_scheme \<Rightarrow> bool" where
  "level_may pr es s \<longleftrightarrow> (\<forall>e\<in>set es. \<exists>p. e = Some p \<and> p_state (procs s p) = RUNNABLE \<and> level s p = pr)"

definition only_level :: "int \<Rightarrow> 'z proc_state_scheme \<Rightarrow> bool" where
  "only_level pr s \<longleftrightarrow> rings_ok s \<and> 0 \<le> pr \<and> pr < PRIO_MAX \<and>
     (\<forall>j\<in>{0..<PRIO_MAX}. j \<noteq> pr \<longrightarrow> pq_items s j = [])"

interpretation ring: fifo level_put level_get "\<lambda>s. pq_items s pr" "only_level pr" "level_may pr" 99
proof
  fix s :: "'z proc_state_scheme" and e es
  assume a: "only_level pr s" "level_may pr (e # es) s" "length (pq_items s pr) < 99"
  then obtain p where p: "e = Some p" "p_state (procs s p) = RUNNABLE" "level s p = pr"
    by (auto simp: level_may_def)
  have r: "rings_ok s" "0 \<le> pr" "pr < PRIO_MAX" using a(1) by (simp_all add: only_level_def)
  have "pq_enqueue p s = Inr (1, put_entry pr p s)"
    using pq_enqueue_eq [OF r(1) p(2)] p(3) r a(3) by simp
  then show "\<exists>t. level_put e s = Some t \<and> only_level pr t \<and> pq_items t pr = pq_items s pr @ [e]
      \<and> level_may pr es t"
    using p(1) a(1,2) rings_ok_put_entry [OF r(1)] pq_items_put_entry [OF r a(3), of p]
    by (auto simp: level_put_def only_level_def level_may_def level_def frames)
next
  fix s :: "'z proc_state_scheme" and e es
  assume a: "only_level pr s" "pq_items s pr = e # es"
  then have r: "rings_ok s" "0 \<le> pr" "pr < PRIO_MAX" by (simp_all add: only_level_def)
  from r(1) show "\<exists>t. level_get s = Some (e, t) \<and> only_level pr t \<and> pq_items t pr = es"
  proof (cases rule: pq_dequeue_cases)
    case empty
    with a r show ?thesis by auto
  next
    case (entry pr' e' es')
    then have "pr' = pr" using a(1) by (auto simp: only_level_def)
    with entry a r show ?thesis
      using rings_ok_drop_entry [OF r(1), of pr] pq_items_drop_entry(1) [OF r a(2)]
      by (auto simp: level_get_def only_level_def)
  qed
next
  fix s :: "'z proc_state_scheme"
  assume a: "only_level pr s" "pq_items s pr = []"
  then have r: "rings_ok s" by (simp add: only_level_def)
  from r show "level_get s = None"
  proof (cases rule: pq_dequeue_cases)
    case empty
    then show ?thesis by (simp add: level_get_def)
  next
    case (entry pr' e' es')
    then show ?thesis using a by (cases "pr' = pr") (auto simp: only_level_def)
  qed
qed

section \<open>Properties\<close>

definition zero_context :: proc_context where
  "zero_context = \<lparr>cx_edi = 0, cx_esi = 0, cx_ebx = 0, cx_ebp = 0, cx_eip = Nowhere\<rparr>"

definition zero_proc :: proc where
  "zero_proc = \<lparr>p_sz = 0, p_pgdir = 0, p_kstack = 0, p_state = UNUSED, p_pid = 0, p_parent = None,
     p_tf = zero_trapframe, p_context = zero_context, p_chan = NoChan, p_killed = False,
     p_ofile = (\<lambda>_. None), p_cwd = None, p_name = replicate 16 0, p_mux_ptrs = (\<lambda>_. None),
     p_priority = 0, p_shmpgs = (\<lambda>_. None)\<rparr>"

definition boot_vm :: vm_state where
  "boot_vm = kmem_state.extend boot_memory
     \<lparr>kpgdir = 0x803ff000, cr3 = 0x3ff000, tr = 0, gdtr = (0, 47), gdt = (\<lambda>_ _. SEG 0 0 0 0),
      ts = (\<lambda>_. \<lparr>ss0 = 0, esp0 = 0, iomb = 0\<rparr>), ts_addr = (\<lambda>_. 0x80112700)\<rparr>"

text \<open>Process 0 runs; processes 1 and 2, of priority 3 and 0, sleep until the next clock tick.\<close>

definition two_sleepers :: proc_state where
  "two_sleepers = vm_state.extend boot_vm
     \<lparr>procs = (\<lambda>_. zero_proc)(
        0 := zero_proc\<lparr>p_state := RUNNING, p_pid := 1, p_kstack := 0x803fe000, p_pgdir := 0x803fd000\<rparr>,
        1 := zero_proc\<lparr>p_state := SLEEPING, p_pid := 2, p_chan := ChTicks, p_priority := 3,
                        p_kstack := 0x803fc000, p_pgdir := 0x803fb000\<rparr>,
        2 := zero_proc\<lparr>p_state := SLEEPING, p_pid := 3, p_chan := ChTicks,
                        p_kstack := 0x803fa000, p_pgdir := 0x803f9000\<rparr>),
      head_tail = (\<lambda>_ _. 0), pqueues = (\<lambda>_ _. None), nextpid = 4, initproc = Some 0,
      pqueue_ready = True, first_time = False\<rparr>"

lemmas two_sleepers_defs = two_sleepers_def boot_vm_def boot_memory_def one_cpu_def zero_proc_def
  vm_state.defs kmem_state.defs machine.defs

lemma two_sleepers_ok: "sched_inv two_sleepers" "cpu_ok 0 two_sleepers" "free_lock l two_sleepers"
proof -
  have e: "pq_items two_sleepers pr = []" for pr
    by (simp add: pq_items_def ring_list_def two_sleepers_defs)
  have "levels_ok two_sleepers" by (auto simp: levels_ok_def level_def two_sleepers_defs PRIO_MAX_def)
  moreover have "rings_ok two_sleepers" by (auto simp: rings_ok_def two_sleepers_defs QSIZE_def)
  moreover have "runnable two_sleepers = {}" by (auto simp: runnable_def two_sleepers_defs)
  moreover have "entries two_sleepers = []" by (simp add: entries_def e)
  ultimately show "sched_inv two_sleepers" by (simp add: sched_inv_def)
  show "cpu_ok 0 two_sleepers" "free_lock l two_sleepers"
    by (simp_all add: cpu_ok_def this_cpu_def free_lock_def two_sleepers_defs)
qed

text \<open>C11. The rings implement a priority queue: on rings with room, \<open>pq_enqueue\<close> of an eligible
  process appends it to the queue of its level and \<open>pq_dequeue\<close> takes the head of the first
  queue that is not empty, as the abstract operations on a list per level do.\<close>
theorem pq_refines:
  assumes "rings_ok s" and "p_state (procs s p) = RUNNABLE"
    and "0 \<le> level s p" "level s p < PRIO_MAX" "length (pq_items s (level s p)) < 99"
  shows "(\<exists>t. pq_enqueue p s = Inr (1, t) \<and> rings_ok t \<and> procs t = procs s
      \<and> pq_items t = apq_enqueue (level s p) p (pq_items s))
    \<and> (case apq_dequeue (pq_items s) of
         None \<Rightarrow> pq_dequeue s = Inr (NULL, s)
       | Some (e, q) \<Rightarrow> \<exists>t. pq_dequeue s = Inr (Entry e, t) \<and> rings_ok t \<and> procs t = procs s \<and> pq_items t = q)"
proof
  show "\<exists>t. pq_enqueue p s = Inr (1, t) \<and> rings_ok t \<and> procs t = procs s
      \<and> pq_items t = apq_enqueue (level s p) p (pq_items s)"
    using pq_enqueue_eq [OF assms(1-4)] pq_items_put_entry [OF assms(1,3,4,5)]
      rings_ok_put_entry [OF assms(1)] assms(5) by (auto simp: apq_enqueue_def frames)
  from assms(1) show "case apq_dequeue (pq_items s) of
         None \<Rightarrow> pq_dequeue s = Inr (NULL, s)
       | Some (e, q) \<Rightarrow> \<exists>t. pq_dequeue s = Inr (Entry e, t) \<and> rings_ok t \<and> procs t = procs s \<and> pq_items t = q"
  proof (cases rule: pq_dequeue_cases)
    case empty
    then show ?thesis using apq_dequeue_empty [of "pq_items s"] by simp
  next
    case (entry pr e es)
    then show ?thesis
      using apq_dequeue_entry [where q = "pq_items s", OF entry(1-4)] rings_ok_drop_entry [OF assms(1)]
        pq_items_drop_entry(1) [OF assms(1) entry(1-3)] by (simp add: frames)
  qed
qed

definition woken_two :: proc_state where
  "woken_two = set_proc 2 ((procs two_sleepers 2)\<lparr>p_state := RUNNABLE\<rparr>) two_sleepers"

theorem pq_refines_witness:
  "\<exists>t. pq_enqueue 2 woken_two = Inr (1, t) \<and> pq_items t = apq_enqueue 0 2 (pq_items woken_two)"
proof -
  have lv: "level woken_two 2 = 0" by (simp add: woken_two_def level_def frames) (simp add: two_sleepers_defs)
  have "rings_ok woken_two" using two_sleepers_ok(1) by (simp add: woken_two_def sched_inv_def frames)
  moreover have "p_state (procs woken_two 2) = RUNNABLE" by (simp add: woken_two_def frames)
  moreover have "length (pq_items woken_two 0) < 99"
    using sched_inv_room [OF two_sleepers_ok(1), of 0] by (simp add: woken_two_def frames PRIO_MAX_def)
  ultimately show ?thesis using pq_refines [of woken_two 2] by (auto simp: lv PRIO_MAX_def)
qed

text \<open>
  Within one level the queue is first in, first out, up to 99 processes: processes of that
  level enqueued one after the other are dequeued in the same order, and then the queues are empty.\<close>
theorem level_is_fifo:
  assumes "only_level pr s" and "pq_items s pr = []" and "level_may pr es s" and "length es \<le> 99"
  shows "\<exists>t u. put_many level_put es s = Some t \<and> get_many level_get (length es) t = Some (es, u)
    \<and> pq_items u pr = [] \<and> level_get u = None"
  by (rule ring.fifo_order [OF assms])

theorem level_is_fifo_witness:
  "\<exists>t u. put_many level_put [Some 2, Some 2] woken_two = Some t
    \<and> get_many level_get 2 t = Some ([Some 2, Some 2], u)"
proof -
  have lv: "level woken_two 2 = 0" by (simp add: woken_two_def level_def frames) (simp add: two_sleepers_defs)
  have e: "pq_items woken_two pr = []" for pr
    by (simp add: woken_two_def frames) (simp add: pq_items_def ring_list_def two_sleepers_defs)
  have "rings_ok woken_two" using two_sleepers_ok(1) by (simp add: woken_two_def sched_inv_def frames)
  then have ol: "only_level 0 woken_two" by (simp add: only_level_def e PRIO_MAX_def)
  have m: "level_may 0 [Some 2, Some 2] woken_two"
    by (simp add: level_may_def lv) (simp add: woken_two_def frames)
  have "\<exists>t u. put_many level_put [Some 2, Some 2] woken_two = Some t
    \<and> get_many level_get (length [Some 2, Some (2 :: nat)]) t = Some ([Some 2, Some 2], u)"
    using level_is_fifo [OF ol e m] by fastforce
  then show ?thesis by (simp only: list.size One_nat_def [symmetric] add_0 one_add_one)
qed

text \<open>C15. The test for a full ring fails when the head is at index 0: the remainder of \<open>-1\<close> is \<open>-1\<close>
  in C. With the 99 places in use, \<open>pq_enqueue\<close> then reports success and the level is empty
  afterwards: all its entries are lost.\<close>
theorem pq_enqueue_overflow:
  assumes "rings_ok s" and "p_state (procs s p) = RUNNABLE" and "0 \<le> level s p" "level s p < PRIO_MAX"
    and "head_tail s (level s p) 0 = 0" "length (pq_items s (level s p)) = 99"
  shows "\<exists>t. pq_enqueue p s = Inr (1, t) \<and> pq_items t (level s p) = []"
proof -
  let ?pr = "level s p"
  note r = rings_okD [OF assms(1,3,4)]
  have "(head_tail s ?pr 1 + 1) mod QSIZE = 0"
    using ring_full [OF r(1-4), of "pqueues s ?pr"] assms(5,6) by (simp add: pq_items_def QSIZE_def)
  then have "pq_items (put_entry ?pr p s) ?pr = []"
    using assms(5) by (simp add: pq_items_def put_entry_def ring_list_def)
  then show ?thesis using pq_enqueue_eq [OF assms(1-4)] assms(5) by simp
qed

theorem pq_enqueue_overflow_witness:
  "\<exists>t. pq_enqueue 2 (woken_two\<lparr>head_tail := (\<lambda>_ i. if i = 1 then 99 else 0)\<rparr>) = Inr (1, t) \<and> pq_items t 0 = []"
proof -
  let ?s = "woken_two\<lparr>head_tail := (\<lambda>_ i. if i = 1 then 99 else 0)\<rparr>"
  have p: "procs ?s 2 = (procs two_sleepers 2)\<lparr>p_state := RUNNABLE\<rparr>" by (simp add: woken_two_def set_proc_def)
  have lv: "level ?s 2 = 0" unfolding level_def p by (simp add: two_sleepers_defs)
  have "rings_ok ?s" by (auto simp: rings_ok_def QSIZE_def)
  moreover have "length (pq_items ?s 0) = 99" by (simp add: pq_items_def ring_length QSIZE_def)
  ultimately show ?thesis using pq_enqueue_overflow [of ?s 2] p by (simp add: lv PRIO_MAX_def)
qed


definition ticks_held :: proc_state where
  "ticks_held = locked_by 0 TicksLock two_sleepers"


text \<open>C12. \<open>wakeup\<close> makes exactly the processes that sleep on the channel \<open>RUNNABLE\<close>, appends them to
  the queues of their levels in table order, never panics, and gives the table's lock back.\<close>
theorem wakeup_exact:
  assumes "sched_inv s" and "cpu_ok c s" and "free_lock PtableLock s"
  shows "\<exists>t. wakeup ch s = Inr t \<and> sched_inv t \<and> locks t = locks s \<and> cpus t = cpus s
    \<and> procs t = (\<lambda>p. if p < NPROC \<and> sleeps_on ch (procs s p) then (procs s p)\<lparr>p_state := RUNNABLE\<rparr> else procs s p)
    \<and> pq_items t = (\<lambda>pr. pq_items s pr @
         map Some (filter (\<lambda>p. sleeps_on ch (procs s p) \<and> level s p = pr) [0..<NPROC]))"
proof -
  obtain t where t: "wakeup ch s = Inr t" "sched_inv t" "sched_only s t"
    "procs t = awake ch s" "pq_items t = woken_items ch s"
    using wakeup_all [OF assms] by blast
  then show ?thesis
    using sched_only_machine [OF t(3)]
    by (auto simp: awake_def [abs_def] woken_items_def [abs_def])
qed

theorem wakeup_exact_witness:
  "\<exists>t. wakeup ChTicks two_sleepers = Inr t \<and> p_state (procs t 2) = RUNNABLE \<and> p_state (procs t 0) = RUNNING"
proof -
  obtain t where t: "wakeup ChTicks two_sleepers = Inr t"
    "procs t = (\<lambda>p. if p < NPROC \<and> sleeps_on ChTicks (procs two_sleepers p)
       then (procs two_sleepers p)\<lparr>p_state := RUNNABLE\<rparr> else procs two_sleepers p)"
    using wakeup_exact [OF two_sleepers_ok(1,2) two_sleepers_ok(3), of ChTicks] by blast
  have "sleeps_on ChTicks (procs two_sleepers 2)" "\<not> sleeps_on ChTicks (procs two_sleepers 0)"
    "p_state (procs two_sleepers 0) = RUNNING"
    by (simp_all add: sleeps_on_def two_sleepers_defs)
  with t show ?thesis by (simp add: NPROC_def)
qed

text \<open>\<open>kill\<close> fails with \<open>-1\<close> and changes nothing when no slot has the pid; otherwise it marks the
  first slot that has it and, if that process sleeps, makes it \<open>RUNNABLE\<close> and queues it.\<close>
theorem kill_exact:
  assumes "sched_inv s" and "cpu_ok c s" and "free_lock PtableLock s"
  shows "case find (\<lambda>p. p_pid (procs s p) = pid) [0..<NPROC] of
      None \<Rightarrow> kill pid s = Inr (- 1, s)
    | Some p \<Rightarrow> \<exists>t. kill pid s = Inr (0, t) \<and> sched_inv t \<and> locks t = locks s
        \<and> procs t = (procs s)(p := (procs s p)\<lparr>p_killed := True,
           p_state := (if p_state (procs s p) = SLEEPING then RUNNABLE else p_state (procs s p))\<rparr>)"
  using assms
proof (cases rule: kill_cases [where pid = pid])
  case absent
  then have "find (\<lambda>p. p_pid (procs s p) = pid) [0..<NPROC] = None" by (simp add: find_upt_None)
  with absent show ?thesis by simp
next
  case (found p t)
  then have "find (\<lambda>p. p_pid (procs s p) = pid) [0..<NPROC] = Some p" by (simp add: find_upt_Some)
  with found show ?thesis using sched_only_machine [OF found(6)] by auto
qed

theorem kill_exact_witness:
  "\<exists>t. kill 3 two_sleepers = Inr (0, t) \<and> p_killed (procs t 2) \<and> p_state (procs t 2) = RUNNABLE"
proof -
  have "find (\<lambda>p. p_pid (procs two_sleepers p) = 3) [0..<NPROC] = Some 2"
    by (auto simp: find_upt_Some two_sleepers_defs NPROC_def)
  then obtain t where "kill 3 two_sleepers = Inr (0, t)"
    "procs t 2 = (procs two_sleepers 2)\<lparr>p_killed := True,
       p_state := (if p_state (procs two_sleepers 2) = SLEEPING then RUNNABLE else p_state (procs two_sleepers 2))\<rparr>"
    using kill_exact [OF two_sleepers_ok(1,2) two_sleepers_ok(3), of 3] by auto
  moreover have "p_state (procs two_sleepers 2) = SLEEPING" by (simp add: two_sleepers_defs)
  ultimately show ?thesis by auto
qed

text \<open>C4. A pass of the scheduler is work-conserving and by strict priority: when some process is
  \<open>RUNNABLE\<close> it switches to the head of the first level that is not empty, with that process
  \<open>RUNNING\<close>, on this CPU, in its own address space, out of the queues; otherwise the pass changes
  nothing.\<close>
theorem scheduler_strict_priority:
  assumes "sched_inv s" and "cpu_ok c s" "int_flag s" "free_lock PtableLock s" "\<not> first_time s"
    and "stacks_ok s"
  shows "if runnable s = {} then scheduler_round run c s = Inr s
    else \<exists>p pr u. scheduler_round run c s = after_run c (run p u) \<and> p \<in> runnable s
      \<and> 0 \<le> pr \<and> pr < PRIO_MAX \<and> pq_items s pr = Some p # pq_items u pr \<and> (\<forall>j. 0 \<le> j \<longrightarrow> j < pr \<longrightarrow> pq_items s j = [])
      \<and> p_state (procs u p) = RUNNING \<and> cproc (cpus u c) = Some p \<and> cr3 u = V2P (p_pgdir (procs s p))
      \<and> sched_inv u"
  using assms
proof (cases rule: scheduler_round_eq [where run = run])
  case idle
  then show ?thesis by simp
next
  case (serve p pr)
  let ?l = "locked_by c PtableLock s"
  let ?u = "dispatched c p pr ?l"
  obtain e es where e: "pq_items s pr = e # es" using serve(4) by (cases "pq_items s pr") auto
  have ok: "rings_ok ?l" using assms(1) by (simp add: sched_inv_def rings_ok_def lock_simps)
  have "pq_items ?u = pq_items (drop_entry pr ?l)"
    by (rule pq_items_cong)
      (simp_all add: dispatched_def Let_def uvm_loaded_def set_cpu_def set_proc_def drop_entry_def)
  then have "pq_items ?u pr = es"
    using pq_items_drop_entry(1) [OF ok serve(2,3)] e by (simp add: lock_simps)
  then have items: "pq_items s pr = Some p # pq_items ?u pr" using e serve(5) by simp
  have "procs (drop_entry pr ?l) = procs s" by (simp add: frames lock_simps)
  then have "p_state (procs ?u p) = RUNNING \<and> cproc (cpus ?u c) = Some p \<and> cr3 ?u = V2P (p_pgdir (procs s p))"
    by (simp add: dispatched_def Let_def uvm_loaded_def set_cpu_def set_proc_def)
  then show ?thesis using serve items by auto
qed

lemma woken_state:
  obtains t where "wakeup ChTicks two_sleepers = Inr t" "sched_inv t" "sched_only two_sleepers t"
    "procs t = awake ChTicks two_sleepers" "runnable t = {1, 2}"
proof -
  obtain t where t: "wakeup ChTicks two_sleepers = Inr t" "sched_inv t" "sched_only two_sleepers t"
    "procs t = awake ChTicks two_sleepers"
    using wakeup_all [OF two_sleepers_ok(1,2) two_sleepers_ok(3)] by metis
  have "sleeps_on ChTicks (procs two_sleepers p) \<longleftrightarrow> p = 1 \<or> p = 2" "p_state (procs two_sleepers p) \<noteq> RUNNABLE" for p
    by (auto simp: sleeps_on_def two_sleepers_defs)
  then have "runnable t = {1, 2}" by (auto simp: runnable_def t(4) awake_def NPROC_def)
  with t that show ?thesis by blast
qed

theorem scheduler_strict_priority_witness:
  "\<exists>t p u. wakeup ChTicks two_sleepers = Inr t \<and> scheduler_round (\<lambda>_ s. s) 0 t = after_run 0 u
     \<and> p \<in> {1, 2} \<and> p_state (procs u p) = RUNNING"
proof -
  obtain t where t: "wakeup ChTicks two_sleepers = Inr t" "sched_inv t" "sched_only two_sleepers t"
    "procs t = awake ChTicks two_sleepers" "runnable t = {1, 2}"
    by (rule woken_state)
  have m: "cpu_ok 0 t" "int_flag t" "free_lock PtableLock t" "\<not> first_time t"
    using t(3) two_sleepers_ok(2,3) by (simp_all add: sched_only_machine [OF t(3)])
      (auto simp: sched_only_def two_sleepers_defs)
  have "stacks_ok t"
    unfolding stacks_ok_def t(4,5) by (auto simp: awake_def) (auto simp: two_sleepers_defs)
  from scheduler_strict_priority [OF t(2) m this, where run = "\<lambda>_ s. s"] t(1,5) show ?thesis by auto
qed

text \<open>
  The first pass takes processes from the table instead of the queues, and leaves the entry that
  \<open>userinit\<close> made.
\<close>

lemma first_pass_eq:
  assumes "cpu_ok c s" "int_flag s" "free_lock PtableLock s" "first_time s" "runnable s = {p}"
    and "p_kstack (procs s p) \<noteq> 0" "p_pgdir (procs s p) \<noteq> 0"
    and "\<And>u. procs (run p u) = (procs u)(p := w)" "p_state w \<noteq> RUNNABLE"
  shows "\<exists>u. scheduler_round run c s = after_run c (run p u)
     \<and> procs u = (procs s)(p := (procs s p)\<lparr>p_state := RUNNING\<rparr>) \<and> pqueues u = pqueues s
     \<and> head_tail u = head_tail s \<and> cproc (cpus u c) = Some p"
proof -
  let ?s = "(locked_by c PtableLock s)\<lparr>first_time := False\<rparr>"
  let ?f = "\<lambda>p s. if p_state (procs s p) \<noteq> RUNNABLE then Inr s else run_process run c p s"
  have ps: "procs ?s = procs s" by (simp add: lock_simps)
  have p: "p < NPROC" "p_state (procs s p) = RUNNABLE" "\<And>q. q < NPROC \<Longrightarrow> p_state (procs s q) = RUNNABLE \<Longrightarrow> q = p"
    using assms(5) by (auto simp: runnable_def)
  have "cpu_ok c ?s" using cpu_ok_locked_by [OF assms(1), of PtableLock] by (simp add: cpu_ok_def this_cpu_def)
  from run_process_eq [OF this] assms(6,7)
  obtain u where u: "run_process run c p ?s =
      Inr (let t = switchkvm (run p u) in set_cpu c ((cpus t c)\<lparr>cproc := None\<rparr>) t)"
    "u = set_proc p ((procs s p)\<lparr>p_state := RUNNING\<rparr>) (uvm_loaded c (p_kstack (procs s p)) (p_pgdir (procs s p))
       (set_cpu c ((cpus ?s c)\<lparr>cproc := Some p\<rparr>) ?s))"
    by (simp add: ps frames Let_def)
  let ?t = "let t = switchkvm (run p u) in set_cpu c ((cpus t c)\<lparr>cproc := None\<rparr>) t"
  have pu: "procs u = (procs s)(p := (procs s p)\<lparr>p_state := RUNNING\<rparr>)"
    unfolding u(2) by (simp add: frames ps)
  have "procs ?t = procs (run p u)" by (simp add: Let_def switchkvm_def lcr3_def procs_machine)
  also have "\<dots> = (procs s)(p := w)" unfolding assms(8) pu by simp
  finally have pt: "procs ?t = (procs s)(p := w)" .
  have "for_each ?f [0..<NPROC] ?s = Inr ?t"
  proof (rule for_each_one [OF p(1)])
    have other: "p_state (procs s j) \<noteq> RUNNABLE" if "j < NPROC" "j \<noteq> p" for j using p(3) [of j] that by blast
    show "?f j ?s = Inr ?s" if "j < p" for j using other [of j] that p(1) ps by simp
    show "?f p ?s = Inr ?t" using p(2) u(1) ps by simp
    show "?f j ?t = Inr ?t" if "p < j" "j < NPROC" for j using other [of j] that pt by simp
  qed
  moreover have "sti s = s" using assms(2) by (simp add: sti_def)
  ultimately have "scheduler_round run c s = after_run c (run p u)"
    using assms(4) acquire_free [OF assms(1,3)]
    by (simp add: scheduler_round_def lock_simps after_run_def Let_def)
  moreover have "pqueues u = pqueues s" "head_tail u = head_tail s" "cproc (cpus u c) = Some p"
    unfolding u(2) by (simp_all add: set_proc_def uvm_loaded_def set_cpu_def locked_by_def)
  ultimately show ?thesis using pu by blast
qed

text \<open>C16. The first pass of the scheduler runs a process without taking its entry out of the queues:
  if the process then goes to sleep, the next dequeue returns it although it is \<open>SLEEPING\<close>.\<close>
theorem first_pass_leaves_entry:
  assumes "sched_inv s" and "cpu_ok c s" "int_flag s" "free_lock PtableLock s" "first_time s"
    and "runnable s = {p}" "p_kstack (procs s p) \<noteq> 0" "p_pgdir (procs s p) \<noteq> 0"
    and "\<And>q u. run q u = set_proc q ((procs s p)\<lparr>p_chan := ch, p_state := SLEEPING\<rparr>) u"
  shows "\<exists>u v. scheduler_round run c s = after_run c u \<and> p_state (procs u p) = SLEEPING
    \<and> pq_dequeue u = Inr (Entry (Some p), v)"
proof -
  let ?w = "(procs s p)\<lparr>p_chan := ch, p_state := SLEEPING\<rparr>"
  have r: "procs (run p u) = (procs u)(p := ?w)" for u by (simp add: assms(9) frames)
  from first_pass_eq [where run = run, OF assms(2-8) r] obtain u where
    u: "scheduler_round run c s = after_run c (run p u)" "pqueues u = pqueues s" "head_tail u = head_tail s"
    by auto
  have q: "pqueues (run p u) = pqueues s" "head_tail (run p u) = head_tail s"
    by (simp_all add: assms(9) set_proc_def u)
  then have ok: "rings_ok (run p u)" using assms(1) by (simp add: sched_inv_def rings_ok_def)
  have e: "set (entries (run p u)) = {Some p}"
    using assms(1,6) entries_cong [OF pq_items_cong [OF q]] by (simp add: sched_inv_def)
  from ok have "\<exists>v. pq_dequeue (run p u) = Inr (Entry (Some p), v)"
  proof (cases rule: pq_dequeue_cases)
    case empty
    then show ?thesis using e by (auto simp: entries_set)
  next
    case (entry pr x es)
    have "x \<in> set (entries (run p u))" using entry(1-3) by (force simp: entries_set)
    then show ?thesis using entry e by auto
  qed
  then show ?thesis using u(1) r by auto
qed

definition first_boot :: proc_state where
  "first_boot = (made_runnable 2 two_sleepers)\<lparr>first_time := True\<rparr>"

theorem first_pass_leaves_entry_witness:
  "\<exists>u v. scheduler_round (\<lambda>q. set_proc q ((procs first_boot 2)\<lparr>p_chan := ChTicks, p_state := SLEEPING\<rparr>)) 0 first_boot
      = after_run 0 u \<and> p_state (procs u 2) = SLEEPING \<and> pq_dequeue u = Inr (Entry (Some 2), v)"
proof -
  have two: "(2 :: nat) < NPROC" "p_state (procs two_sleepers 2) \<noteq> RUNNABLE"
    by (simp_all add: NPROC_def) (simp add: two_sleepers_defs)
  note m = make_runnable [OF two_sleepers_ok(1) two]
  have so: "sched_only two_sleepers (made_runnable 2 two_sleepers)" by blast
  have inv: "sched_inv first_boot"
    using m(2) sched_inv_cong [of first_boot "made_runnable 2 two_sleepers"] by (simp add: first_boot_def)
  have pr: "procs first_boot = (procs two_sleepers)(2 := (procs two_sleepers 2)\<lparr>p_state := RUNNABLE\<rparr>)"
    using m(4) by (simp add: first_boot_def)
  have ok: "cpu_ok 0 first_boot" "free_lock PtableLock first_boot" "int_flag first_boot"
    using two_sleepers_ok(2) two_sleepers_ok(3) [of PtableLock] sched_only_machine [OF so]
    by (simp_all add: first_boot_def cpu_ok_def this_cpu_def free_lock_def)
      (simp_all add: made_runnable_def put_entry_def set_proc_def two_sleepers_defs)
  have "runnable first_boot = {2}"
    unfolding runnable_def pr by (auto simp: NPROC_def) (auto simp: two_sleepers_defs split: if_splits)
  moreover have "p_kstack (procs first_boot 2) \<noteq> 0" "p_pgdir (procs first_boot 2) \<noteq> 0"
    by (simp_all add: pr) (simp_all add: two_sleepers_defs)
  ultimately show ?thesis
    using first_pass_leaves_entry [OF inv ok(1,3,2), of 2 "\<lambda>q. set_proc q ((procs first_boot 2)\<lparr>p_chan := ChTicks, p_state := SLEEPING\<rparr>)" ChTicks]
    by (simp add: first_boot_def)
qed

end
