(* ===== verification/Syscall_Args.thy ===== *)
theory Syscall_Args
  imports Proc
begin

text \<open>
  How the kernel reads a system call's arguments (\<open>syscall.c\<close>). The arguments are in user
  memory, which the kernel reads through the page directory in \<open>%cr3\<close>: a byte at an address
  whose page is not present faults.
\<close>

section \<open>User memory\<close>

definition cur_pgdir :: "'z vm_state_scheme \<Rightarrow> uint" where
  "cur_pgdir s = P2V (cr3 s)"

definition page_entry :: "memory \<Rightarrow> uint \<Rightarrow> uint \<Rightarrow> uint" where
  "page_entry m pgdir va =
     (let pde = read32 m (entry_at pgdir (PDX va)) in
      if pde AND PTE_P = 0 then 0 else read32 m (entry_at (P2V (PTE_ADDR pde)) (PTX va)))"

definition user_addr :: "memory \<Rightarrow> uint \<Rightarrow> uint \<Rightarrow> uint" where
  "user_addr m pgdir va = P2V (PTE_ADDR (page_entry m pgdir va)) + (va AND 0xFFF)"

definition user_mapped :: "memory \<Rightarrow> uint \<Rightarrow> uint \<Rightarrow> bool" where
  "user_mapped m pgdir va \<longleftrightarrow> page_entry m pgdir va AND PTE_P \<noteq> 0"

definition user_view :: "memory \<Rightarrow> uint \<Rightarrow> memory" where
  "user_view m pgdir va = m (user_addr m pgdir va)"

definition load8 :: "uint \<Rightarrow> 'z vm_state_scheme \<Rightarrow> uchar result" where
  "load8 va s =
     (if user_mapped (mem s) (cur_pgdir s) va then Inr (user_view (mem s) (cur_pgdir s) va)
      else Inl (Fault ''page fault''))"

definition load32 :: "uint \<Rightarrow> 'z vm_state_scheme \<Rightarrow> uint result" where
  "load32 va s =
     (if list_all (\<lambda>k. user_mapped (mem s) (cur_pgdir s) (va + k)) [0, 1, 2, 3]
      then Inr (read32 (user_view (mem s) (cur_pgdir s)) va) else Inl (Fault ''page fault''))"

definition store8 :: "uint \<Rightarrow> uchar \<Rightarrow> 'z vm_state_scheme \<Rightarrow> 'z vm_state_scheme result" where
  "store8 va v s =
     (if user_mapped (mem s) (cur_pgdir s) va
      then Inr (s\<lparr>mem := (mem s)(user_addr (mem s) (cur_pgdir s) va := v)\<rparr>)
      else Inl (Fault ''page fault''))"

text \<open>A copy of bytes into user memory, one by one.\<close>

fun store_bytes :: "uint \<Rightarrow> uchar list \<Rightarrow> 'z vm_state_scheme \<Rightarrow> 'z vm_state_scheme result" where
  "store_bytes va [] s = Inr s"
| "store_bytes va (b # bs) s = bnd (store8 va b s) (\<lambda>s. store_bytes (va + 1) bs s)"

fun load_bytes :: "uint \<Rightarrow> nat \<Rightarrow> 'z vm_state_scheme \<Rightarrow> uchar list result" where
  "load_bytes va 0 s = Inr []"
| "load_bytes va (Suc n) s = bnd (load8 va s) (\<lambda>b. bnd (load_bytes (va + 1) n s) (\<lambda>bs. Inr (b # bs)))"

section \<open>Arguments\<close>

text \<open>
  The routines return \<open>-1\<close>, here \<open>None\<close>, or \<open>0\<close> with the value stored through the pointer
  they are given.
\<close>

definition curproc :: "'z proc_state_scheme \<Rightarrow> (nat \<times> 'z proc_state_scheme) result" where
  "curproc s = bnd (myproc s) (\<lambda>(mp, s). case mp of None \<Rightarrow> Inl (Fault ''myproc()->'') | Some p \<Rightarrow> Inr (p, s))"

definition fetchint :: "uint \<Rightarrow> 'z proc_state_scheme \<Rightarrow> (uint option \<times> 'z proc_state_scheme) result" where
  "fetchint addr s =
     bnd (curproc s) (\<lambda>(p, s).
     if p_sz (procs s p) \<le> addr \<or> p_sz (procs s p) < addr + 4 then Inr (None, s)
     else bnd (load32 addr s) (\<lambda>v. Inr (Some v, s)))"

function fetchstr_loop :: "uint \<Rightarrow> uint \<Rightarrow> uint \<Rightarrow> 'z vm_state_scheme \<Rightarrow> uint option result" where
  "fetchstr_loop pp a ep s =
     (if a < ep then
        bnd (load8 a s) (\<lambda>b. if b = 0 then Inr (Some (a - pp)) else fetchstr_loop pp (a + 1) ep s)
      else Inr None)"
  by pat_completeness auto
termination
proof (relation "measure (\<lambda>(pp, a, ep, s). unat ep - unat a)", goal_cases)
  case (2 pp a ep s b)
  then have "unat a < unat ep" by (simp add: word_less_nat_alt)
  moreover have "unat (a + 1) = unat a + 1"
    using unat_plus_one [of a] unat_uint_less [of ep] calculation by simp
  ultimately show ?case by simp
qed simp

declare fetchstr_loop.simps [simp del]

text \<open>\<open>fetchstr\<close> sets the pointer to \<open>addr\<close> and returns the length of the string there.\<close>

definition fetchstr :: "uint \<Rightarrow> 'z proc_state_scheme \<Rightarrow> (uint option \<times> 'z proc_state_scheme) result" where
  "fetchstr addr s =
     bnd (curproc s) (\<lambda>(p, s).
     if p_sz (procs s p) \<le> addr then Inr (None, s)
     else bnd (fetchstr_loop addr addr (p_sz (procs s p)) s) (\<lambda>r. Inr (r, s)))"

definition argint :: "nat \<Rightarrow> 'z proc_state_scheme \<Rightarrow> (uint option \<times> 'z proc_state_scheme) result" where
  "argint n s =
     bnd (curproc s) (\<lambda>(p, s). fetchint (tf_esp (p_tf (procs s p)) + 4 + 4 * of_nat n) s)"

definition argptr :: "nat \<Rightarrow> int \<Rightarrow> 'z proc_state_scheme \<Rightarrow> (uint option \<times> 'z proc_state_scheme) result" where
  "argptr n sz s =
     bnd (curproc s) (\<lambda>(p, s).
     bnd (argint n s) (\<lambda>(r, s).
     case r of None \<Rightarrow> Inr (None, s) | Some i \<Rightarrow>
     if sz < 0 \<or> p_sz (procs s p) \<le> i \<or> p_sz (procs s p) < i + of_int sz then Inr (None, s)
     else Inr (Some i, s)))"

text \<open>\<open>argstr\<close> returns the address of the string.\<close>

definition argstr :: "nat \<Rightarrow> 'z proc_state_scheme \<Rightarrow> (uint option \<times> 'z proc_state_scheme) result" where
  "argstr n s =
     bnd (argint n s) (\<lambda>(r, s).
     case r of None \<Rightarrow> Inr (None, s) | Some addr \<Rightarrow>
     bnd (fetchstr addr s) (\<lambda>(l, s).
     case l of None \<Rightarrow> Inr (None, s) | Some _ \<Rightarrow> Inr (Some addr, s)))"

section \<open>Arguments as a function of memory\<close>

text \<open>
  The value of argument \<open>n\<close> of process \<open>p\<close>, as \<open>argint\<close> finds it on the user stack. Fetching an
  argument leaves the state as it is.
\<close>

definition arg_word :: "nat \<Rightarrow> nat \<Rightarrow> 'z proc_state_scheme \<Rightarrow> uint option result" where
  "arg_word n p s =
     (let a = tf_esp (p_tf (procs s p)) + 4 + 4 * of_nat n in
      if p_sz (procs s p) \<le> a \<or> p_sz (procs s p) < a + 4 then Inr None
      else bnd (load32 a s) (\<lambda>v. Inr (Some v)))"

lemma curproc_eq [lock_simps]:
  "cpu_ok c s \<Longrightarrow> cproc (cpus s c) = Some p \<Longrightarrow> curproc s = Inr (p, s)"
  by (simp add: curproc_def myproc_eq [where c = c])

lemma argint_eq:
  assumes "cpu_ok c s" "cproc (cpus s c) = Some p"
  shows "argint n s = bnd (arg_word n p s) (\<lambda>r. Inr (r, s))"
  using assms
  by (simp add: argint_def fetchint_def curproc_eq [where c = c and p = p] arg_word_def Let_def bnd_assoc)

lemma arg_word_cong:
  assumes "mem t = mem s" "cr3 t = cr3 s" "p_sz (procs t p) = p_sz (procs s p)" "p_tf (procs t p) = p_tf (procs s p)"
  shows "arg_word n p t = arg_word n p s"
proof -
  have "load32 a t = load32 a s" for a
    by (simp add: load32_def cur_pgdir_def assms)
  then show ?thesis
    by (simp add: arg_word_def Let_def assms)
qed

lemma vm_fields_lock [lock_simps]:
  "mem (locked_by c l s) = mem s" "mem (unlocked_by c l s) = mem s"
  "cr3 (locked_by c l s) = cr3 s" "cr3 (unlocked_by c l s) = cr3 s"
  by (simp_all add: locked_by_def unlocked_by_def)

lemma argint_Some:
  assumes "cpu_ok c s" "cproc (cpus s c) = Some p" "arg_word n p s = Inr (Some v)"
  shows "argint n s = Inr (Some v, s)"
  using assms by (simp add: argint_eq)

end
