(* ===== verification/Sync.thy ===== *)
theory Sync
  imports Syscall_Args
begin

text \<open>
  The mutexes and condition variables of \<open>sysproc.c\<close>, with the system calls that set
  priorities and exercise the queues. A mutex is its index in the global table; a process
  refers to it by the pointer at that index of \<open>mux_ptrs\<close>. The wait queue of all mutexes and
  the condition queue of each mutex are arrays of 1000 process pointers.
\<close>

section \<open>State\<close>

record mutex =
  m_name :: uint
  m_state :: int
  m_cv :: "nat slots"

definition WQSIZE :: nat where "WQSIZE = 1000"

record sync_state = proc_state +
  muxes :: "nat \<Rightarrow> mutex"
  wqueue :: "nat slots"
  ticks :: uint

definition set_mux :: "nat \<Rightarrow> mutex \<Rightarrow> 'z sync_state_scheme \<Rightarrow> 'z sync_state_scheme" where
  "set_mux m v s = s\<lparr>muxes := (muxes s)(m := v)\<rparr>"

text \<open>
  The mutex calls ignore the result of \<open>argint\<close>: when the argument cannot be read, the
  parameter keeps the value it had on entry, which the dispatcher does not set.
\<close>

definition arg_or :: "int \<Rightarrow> uint option \<Rightarrow> int" where
  "arg_or x r = (case r of None \<Rightarrow> x | Some v \<Rightarrow> sint v)"

text \<open>The pointer at index \<open>muxid\<close> of the process's table; no call tests the index.\<close>

definition mux_ptr :: "nat \<Rightarrow> int \<Rightarrow> 'z proc_state_scheme \<Rightarrow> nat option result" where
  "mux_ptr p muxid s =
     (if 0 \<le> muxid \<and> muxid < int MUX_MAXNUM then Inr (p_mux_ptrs (procs s p) (nat muxid))
      else Inl (Fault ''mux_ptrs[muxid]''))"

definition set_mux_ptr :: "nat \<Rightarrow> int \<Rightarrow> nat option \<Rightarrow> 'z proc_state_scheme \<Rightarrow> 'z proc_state_scheme" where
  "set_mux_ptr p muxid v s =
     set_proc p ((procs s p)\<lparr>p_mux_ptrs := (p_mux_ptrs (procs s p))(nat muxid := v)\<rparr>) s"

definition deref :: "string \<Rightarrow> 'a option \<Rightarrow> 'a result" where
  "deref e r = (case r of None \<Rightarrow> Inl (Fault e) | Some x \<Rightarrow> Inr x)"

section \<open>Mutexes\<close>

definition sys_mcreate :: "uint \<Rightarrow> 'z sync_state_scheme \<Rightarrow> (int \<times> 'z sync_state_scheme) result" where
  "sys_mcreate name s =
     bnd (argptr 0 1 s) (\<lambda>(r, s).
     let name = (case r of None \<Rightarrow> name | Some v \<Rightarrow> v) in
     bnd (curproc s) (\<lambda>(p, s).
     bnd (acquire MutexesLock s) (\<lambda>s.
     case find (\<lambda>i. m_name (muxes s i) = 0) [0..<MUX_MAXNUM] of
       Some i \<Rightarrow>
         let s = set_mux i ((muxes s i)\<lparr>m_name := name\<rparr>) s;
             s = set_mux i ((muxes s i)\<lparr>m_state := 0\<rparr>) s;
             s = set_mux_ptr p (int i) (Some i) s in
         bnd (release MutexesLock s) (\<lambda>s. Inr (int i, s))
     | None \<Rightarrow> bnd (release MutexesLock s) (\<lambda>s. Inr (- 1, s)))))"

definition sys_mdelete :: "int \<Rightarrow> 'z sync_state_scheme \<Rightarrow> (int \<times> 'z sync_state_scheme) result" where
  "sys_mdelete muxid s =
     bnd (argint 0 s) (\<lambda>(r, s).
     let muxid = arg_or muxid r in
     bnd (curproc s) (\<lambda>(p, s).
     bnd (mux_ptr p muxid s) (\<lambda>m.
     if m = None then Inr (0, s)
     else if list_ex (\<lambda>q. q \<noteq> p \<and> p_mux_ptrs (procs s q) (nat muxid) \<noteq> None) [0..<NPROC]
     then Inr (1, set_mux_ptr p muxid None s)
     else
       bnd (acquire MutexesLock s) (\<lambda>s.
       let i = the m;
           s = set_mux i ((muxes s i)\<lparr>m_name := 0\<rparr>) s;
           s = set_mux i ((muxes s i)\<lparr>m_state := - 1\<rparr>) s in
       bnd (release MutexesLock s) (\<lambda>s.
       Inr (1, set_mux_ptr p muxid None s))))))"

text \<open>Routines that leave the number of context switches of the run as it is.\<close>

lemma mycpu_switches: "popcli s = Inr t \<Longrightarrow> switches t = switches s"
  by (auto simp: popcli_def bnd_eq_Inr Let_def sti_def set_cpu_def split: if_splits)

lemma pushcli_switches: "pushcli s = Inr t \<Longrightarrow> switches t = switches s"
  by (auto simp: pushcli_def bnd_eq_Inr Let_def cli_def set_cpu_def split: if_splits)

lemma acquire_switches: "acquire l s = Inr t \<Longrightarrow> switches t = switches s"
  by (auto simp: acquire_def bnd_eq_Inr Let_def set_lock_def split: if_splits prod.splits
      dest!: pushcli_switches)

lemma release_switches: "release l s = Inr t \<Longrightarrow> switches t = switches s"
  by (auto simp: release_def bnd_eq_Inr Let_def set_lock_def split: if_splits dest!: mycpu_switches)

lemma sched_switches: "sched others s = Inr t \<Longrightarrow> switches t < switches s"
  by (auto simp: sched_def swtch_def bnd_eq_Inr Let_def set_cpu_def set_proc_def myproc_def
      split: if_splits prod.splits option.splits dest!: mycpu_switches pushcli_switches)

text \<open>
  The loop of \<open>mlock\<close>, entered with \<open>MUTEXES.lock\<close> held. When the wait queue is full it returns
  without giving the lock back.
\<close>

function mlock_loop ::
  "('z sync_state_scheme \<Rightarrow> 'z sync_state_scheme) \<Rightarrow> nat \<Rightarrow> int \<Rightarrow> 'z sync_state_scheme \<Rightarrow> (int \<times> 'z sync_state_scheme) result"
where
  "mlock_loop others p muxid s =
     bnd (mux_ptr p muxid s) (\<lambda>mp.
     bnd (deref ''p->mux_ptrs[muxid]->state'' mp) (\<lambda>m.
     if m_state (muxes s m) = 1 then
       bnd (acquire WqueueLock s) (\<lambda>s.
       case place_for WQSIZE p (wqueue s) of
         None \<Rightarrow> bnd (release WqueueLock s) (\<lambda>s. Inr (0, s))
       | Some i \<Rightarrow>
           let s = s\<lparr>wqueue := (wqueue s)(i := Some p)\<rparr> in
           bnd (release WqueueLock s) (\<lambda>s.
           bnd (release MutexesLock s) (\<lambda>s.
           bnd (acquire PtableLock s) (\<lambda>s.
           let s = set_proc p ((procs s p)\<lparr>p_state := SLEEPING\<rparr>) s in
           bnd (sched others s) (\<lambda>s.
           bnd (release PtableLock s) (\<lambda>s.
           bnd (acquire MutexesLock s) (\<lambda>s.
           mlock_loop others p muxid s)))))))
     else
       let s = set_mux m ((muxes s m)\<lparr>m_state := 1\<rparr>) s in
       bnd (release MutexesLock s) (\<lambda>s. Inr (1, s))))"
  by pat_completeness auto
termination
  by (relation "measure (\<lambda>(others, p, muxid, s). switches s)")
    (auto simp: set_proc_def dest!: acquire_switches release_switches sched_switches)

declare mlock_loop.simps [simp del]

definition sys_mlock ::
  "('z sync_state_scheme \<Rightarrow> 'z sync_state_scheme) \<Rightarrow> int \<Rightarrow> 'z sync_state_scheme \<Rightarrow> (int \<times> 'z sync_state_scheme) result"
where
  "sys_mlock others muxid s =
     bnd (argint 0 s) (\<lambda>(r, s).
     let muxid = arg_or muxid r in
     bnd (curproc s) (\<lambda>(p, s).
     bnd (mux_ptr p muxid s) (\<lambda>m.
     if m = None then Inr (0, s)
     else bnd (acquire MutexesLock s) (\<lambda>s. mlock_loop others p muxid s))))"

text \<open>Setting a process \<open>RUNNABLE\<close> and queueing it, whatever state it is in.\<close>

definition make_eligible :: "nat \<Rightarrow> 'z proc_state_scheme \<Rightarrow> 'z proc_state_scheme result" where
  "make_eligible q s =
     bnd (acquire PtableLock s) (\<lambda>s.
     let s = set_proc q ((procs s q)\<lparr>p_state := RUNNABLE\<rparr>) s in
     bnd (enqueue_or_panic q s) (\<lambda>s.
     release PtableLock s))"

definition sys_munlock :: "int \<Rightarrow> 'z sync_state_scheme \<Rightarrow> (int \<times> 'z sync_state_scheme) result" where
  "sys_munlock muxid s =
     bnd (argint 0 s) (\<lambda>(r, s).
     let muxid = arg_or muxid r in
     bnd (curproc s) (\<lambda>(p, s).
     bnd (mux_ptr p muxid s) (\<lambda>mp.
     case mp of None \<Rightarrow> Inr (0, s) | Some m \<Rightarrow>
     if m_state (muxes s m) \<noteq> 1 then Inr (0, s)
     else
       bnd (acquire MutexesLock s) (\<lambda>s.
       let s = set_mux m ((muxes s m)\<lparr>m_state := 0\<rparr>) s in
       bnd (release MutexesLock s) (\<lambda>s.
       bnd (acquire WqueueLock s) (\<lambda>s.
       case wqueue s 0 of
         None \<Rightarrow> bnd (release WqueueLock s) (\<lambda>s. Inr (1, s))
       | Some sleepy \<Rightarrow>
           let s = s\<lparr>wqueue := shift_left WQSIZE 0 (wqueue s)\<rparr> in
           bnd (release WqueueLock s) (\<lambda>s.
           bnd (make_eligible sleepy s) (\<lambda>s. Inr (1, s)))))))))"

section \<open>Condition variables\<close>

text \<open>\<open>waitcv\<close> follows the process's pointer to the mutex without the test the other calls make.\<close>

definition sys_waitcv ::
  "('z sync_state_scheme \<Rightarrow> 'z sync_state_scheme) \<Rightarrow> int \<Rightarrow> 'z sync_state_scheme \<Rightarrow> (int \<times> 'z sync_state_scheme) result"
where
  "sys_waitcv others muxid s =
     bnd (argint 0 s) (\<lambda>(r, s).
     let muxid = arg_or muxid r in
     bnd (curproc s) (\<lambda>(p, s).
     bnd (acquire MutexesLock s) (\<lambda>s.
     bnd (mux_ptr p muxid s) (\<lambda>mp.
     bnd (deref ''p->mux_ptrs[muxid]->cv[i]'' mp) (\<lambda>m.
     let place = place_for WQSIZE p (m_cv (muxes s m));
         s = (case place of None \<Rightarrow> s
              | Some i \<Rightarrow> set_mux m ((muxes s m)\<lparr>m_cv := (m_cv (muxes s m))(i := Some p)\<rparr>) s) in
     bnd (release MutexesLock s) (\<lambda>s.
     if place = None then Inr (0, s)
     else
       bnd (acquire PtableLock s) (\<lambda>s.
       let s = set_proc p ((procs s p)\<lparr>p_state := SLEEPING\<rparr>) s in
       bnd (sys_munlock muxid s) (\<lambda>(r, s).
       if r = 0 then Inr (0, s)
       else
         bnd (sched others s) (\<lambda>s.
         bnd (release PtableLock s) (\<lambda>s.
         bnd (sys_mlock others muxid s) (\<lambda>(r, s).
         Inr (if r = 0 then 0 else 1, s))))))))))))"

definition sys_signalcv :: "int \<Rightarrow> 'z sync_state_scheme \<Rightarrow> (int \<times> 'z sync_state_scheme) result" where
  "sys_signalcv muxid s =
     bnd (argint 0 s) (\<lambda>(r, s).
     let muxid = arg_or muxid r in
     bnd (curproc s) (\<lambda>(p, s).
     bnd (mux_ptr p muxid s) (\<lambda>mp.
     case mp of None \<Rightarrow> Inr (0, s) | Some m \<Rightarrow>
     if m_state (muxes s m) \<noteq> 1 then Inr (0, s)
     else
       bnd (acquire MutexesLock s) (\<lambda>s.
       case m_cv (muxes s m) 0 of
         None \<Rightarrow> bnd (release MutexesLock s) (\<lambda>s. Inr (0, s))
       | Some sleepy \<Rightarrow>
           let s = set_mux m ((muxes s m)\<lparr>m_cv := shift_left WQSIZE 0 (m_cv (muxes s m))\<rparr>) s in
           bnd (release MutexesLock s) (\<lambda>s.
           bnd (make_eligible sleepy s) (\<lambda>s. Inr (1, s)))))))"

section \<open>Priorities\<close>

text \<open>
  The walk up the parent links. The test \<open>i->pid > 1\<close> reads through the pointer first. A walk of
  more than \<open>NPROC\<close> steps passes a slot twice and does not end.
\<close>

fun ancestor_walk :: "nat \<Rightarrow> nat \<Rightarrow> nat option \<Rightarrow> 'z proc_state_scheme \<Rightarrow> bool result" where
  "ancestor_walk 0 cur i s = Inl Spin"
| "ancestor_walk (Suc n) cur i s =
     bnd (deref ''i->pid'' i) (\<lambda>q.
     if \<not> 1 < p_pid (procs s q) then Inr False
     else if q = cur then Inr True
     else ancestor_walk n cur (p_parent (procs s q)) s)"

definition sys_prio_set :: "int \<Rightarrow> int \<Rightarrow> 'z proc_state_scheme \<Rightarrow> (int \<times> 'z proc_state_scheme) result" where
  "sys_prio_set pid priority s =
     bnd (argint 0 s) (\<lambda>(r, s).
     bnd (argint 1 s) (\<lambda>(r', s).
     let pid = arg_or pid r; priority = arg_or priority r' in
     bnd (curproc s) (\<lambda>(cur, s).
     if PRIO_MAX \<le> priority then Inr (- 1, s)
     else if word_of_int priority < p_priority (procs s cur) then Inr (- 1, s)
     else if p_pid (procs s cur) = pid then
       Inr (1, set_proc cur ((procs s cur)\<lparr>p_priority := word_of_int priority\<rparr>) s)
     else
       bnd (acquire PtableLock s) (\<lambda>s.
       case find (\<lambda>p. p \<noteq> cur \<and> p_pid (procs s p) = pid) [0..<NPROC] of
         None \<Rightarrow> bnd (release PtableLock s) (\<lambda>s. Inr (- 1, s))
       | Some p \<Rightarrow>
           bnd (ancestor_walk (NPROC + 1) cur (p_parent (procs s p)) s) (\<lambda>found.
           if found then
             let s = set_proc p ((procs s p)\<lparr>p_priority := word_of_int priority\<rparr>) s in
             bnd (release PtableLock s) (\<lambda>s. Inr (1, s))
           else bnd (release PtableLock s) (\<lambda>s. Inr (- 1, s)))))))"

definition sys_testpqeq :: "'z proc_state_scheme \<Rightarrow> 'z proc_state_scheme result" where
  "sys_testpqeq s =
     bnd (acquire PtableLock s) (\<lambda>s.
     bnd (curproc s) (\<lambda>(p, s).
     let priority = p_priority (procs s p);
         s = set_proc p ((procs s p)\<lparr>p_name := (p_name (procs s p))[0 := ucast (priority + 47), 1 := 0]\<rparr>) s in
     bnd (pq_enqueue p s) (\<lambda>(_, s).
     release PtableLock s)))"

text \<open>
  \<open>testpqdq\<close> dequeues until it has seen three processes it named, without the lock and without
  a test for an empty queue. The queues hold at most \<open>PRIO_MAX * QSIZE\<close> entries.
\<close>

fun testpqdq_loop :: "nat \<Rightarrow> nat \<Rightarrow> dequeued \<Rightarrow> 'z proc_state_scheme \<Rightarrow> 'z proc_state_scheme result" where
  "testpqdq_loop fuel cnt e s =
     (if cnt < 3 then
        case e of
          Entry (Some p) \<Rightarrow>
            let ch = p_name (procs s p) ! 0; cnt = (if ch = 49 \<or> ch = 50 \<or> ch = 51 then cnt + 1 else cnt) in
            bnd (pq_dequeue s) (\<lambda>(e, s).
            case fuel of 0 \<Rightarrow> Inl Spin | Suc n \<Rightarrow> testpqdq_loop n cnt e s)
        | _ \<Rightarrow> Inl (Fault ''p->name[0]'')
      else Inr s)"

declare testpqdq_loop.simps [simp del]

definition sys_testpqdq :: "'z proc_state_scheme \<Rightarrow> 'z proc_state_scheme result" where
  "sys_testpqdq s = bnd (pq_dequeue s) (\<lambda>(e, s). testpqdq_loop 2000 0 e s)"

section \<open>Time and size\<close>

definition sys_kill :: "'z proc_state_scheme \<Rightarrow> (int \<times> 'z proc_state_scheme) result" where
  "sys_kill s = bnd (argint 0 s) (\<lambda>(r, s). case r of None \<Rightarrow> Inr (- 1, s) | Some pid \<Rightarrow> kill (sint pid) s)"

definition sys_getpid :: "'z proc_state_scheme \<Rightarrow> (int \<times> 'z proc_state_scheme) result" where
  "sys_getpid s = bnd (curproc s) (\<lambda>(p, s). Inr (p_pid (procs s p), s))"

definition sys_sbrk :: "'z proc_state_scheme \<Rightarrow> (int \<times> 'z proc_state_scheme) result" where
  "sys_sbrk s =
     bnd (argint 0 s) (\<lambda>(r, s). case r of None \<Rightarrow> Inr (- 1, s) | Some n \<Rightarrow>
     bnd (curproc s) (\<lambda>(p, s).
     let addr = sint (p_sz (procs s p)) in
     bnd (growproc (sint n) s) (\<lambda>(g, s).
     if g < 0 then Inr (- 1, s) else Inr (addr, s))))"

lemma myproc_switches: "myproc s = Inr (mp, t) \<Longrightarrow> switches t = switches s"
  by (auto simp: myproc_def bnd_eq_Inr Let_def dest!: mycpu_switches pushcli_switches)

lemma sleep_switches: "sleep others ch lk s = Inr t \<Longrightarrow> switches t < switches s"
  by (auto simp: sleep_def bnd_eq_Inr Let_def set_proc_def split: option.splits if_splits
      dest!: myproc_switches acquire_switches release_switches sched_switches)

lemma curproc_switches: "curproc s = Inr (p, t) \<Longrightarrow> switches t = switches s"
  by (auto simp: curproc_def bnd_eq_Inr split: option.splits dest!: myproc_switches)

text \<open>The loop of \<open>sys_sleep\<close>; the difference of the tick counts is unsigned, and so is \<open>n\<close> in the test.\<close>

function sleep_loop ::
  "('z sync_state_scheme \<Rightarrow> 'z sync_state_scheme) \<Rightarrow> uint \<Rightarrow> uint \<Rightarrow> 'z sync_state_scheme \<Rightarrow> (int \<times> 'z sync_state_scheme) result"
where
  "sleep_loop others ticks0 n s =
     (if ticks s - ticks0 < n then
        bnd (curproc s) (\<lambda>(p, s).
        if p_killed (procs s p) then bnd (release TicksLock s) (\<lambda>s. Inr (- 1, s))
        else bnd (sleep others ChTicks TicksLock s) (\<lambda>s. sleep_loop others ticks0 n s))
      else bnd (release TicksLock s) (\<lambda>s. Inr (0, s)))"
  by pat_completeness auto
termination
  by (relation "measure (\<lambda>(others, ticks0, n, s). switches s)")
    (auto dest!: sleep_switches curproc_switches)

declare sleep_loop.simps [simp del]

definition sys_sleep ::
  "('z sync_state_scheme \<Rightarrow> 'z sync_state_scheme) \<Rightarrow> 'z sync_state_scheme \<Rightarrow> (int \<times> 'z sync_state_scheme) result"
where
  "sys_sleep others s =
     bnd (argint 0 s) (\<lambda>(r, s). case r of None \<Rightarrow> Inr (- 1, s) | Some n \<Rightarrow>
     bnd (acquire TicksLock s) (\<lambda>s. sleep_loop others (ticks s) n s))"

definition sys_uptime :: "'z sync_state_scheme \<Rightarrow> (uint \<times> 'z sync_state_scheme) result" where
  "sys_uptime s =
     bnd (acquire TicksLock s) (\<lambda>s.
     let xticks = ticks s in
     bnd (release TicksLock s) (\<lambda>s. Inr (xticks, s)))"

section \<open>Critical sections\<close>

text \<open>
  A change made inside a critical section is the same change made outside it: the updates of
  the model move out of \<open>locked_by\<close>, and the release then cancels the acquire.
\<close>

named_theorems lock_out

lemma set_mux_lock [lock_out]: "set_mux m v (locked_by c l s) = locked_by c l (set_mux m v s)"
  by (simp add: set_mux_def locked_by_def)

lemma wqueue_lock [lock_out]: "(locked_by c l s)\<lparr>wqueue := w\<rparr> = locked_by c l (s\<lparr>wqueue := w\<rparr>)"
  by (simp add: locked_by_def)

lemma set_proc_lock [lock_out]: "set_proc p v (locked_by c l s) = locked_by c l (set_proc p v s)"
  by (simp add: set_proc_def locked_by_def)

lemma made_runnable_lock [lock_out]: "made_runnable p (locked_by c l s) = locked_by c l (made_runnable p s)"
  by (simp add: made_runnable_def put_entry_def set_proc_def level_def locked_by_def)

lemma sync_fields_lock [lock_simps]:
  "muxes (locked_by c l s) = muxes s" "wqueue (locked_by c l s) = wqueue s"
  "muxes (set_proc p v s) = muxes s" "wqueue (set_proc p v s) = wqueue s"
  by (simp_all add: locked_by_def set_proc_def)

lemma machine_set_mux [lock_simps]:
  "cpu_ok c (set_mux m v s) = cpu_ok c s" "free_lock l (set_mux m v s) = free_lock l s"
  "holds_lock c l (set_mux m v s) = holds_lock c l s" "cpus (set_mux m v s) = cpus s"
  by (simp_all add: set_mux_def cpu_ok_def this_cpu_def free_lock_def holds_lock_def)

lemma machine_wqueue [lock_simps]:
  "cpu_ok c (s\<lparr>wqueue := w\<rparr>) = cpu_ok c s" "free_lock l (s\<lparr>wqueue := w\<rparr>) = free_lock l s"
  "holds_lock c l (s\<lparr>wqueue := w\<rparr>) = holds_lock c l s"
  by (simp_all add: cpu_ok_def this_cpu_def free_lock_def holds_lock_def)

lemma machine_set_proc [lock_simps]:
  "cpu_ok c (set_proc p v s) = cpu_ok c s" "free_lock l (set_proc p v s) = free_lock l s"
  "holds_lock c l (set_proc p v s) = holds_lock c l s" "cpus (set_proc p v s) = cpus s"
  by (simp_all add: set_proc_def cpu_ok_def this_cpu_def free_lock_def holds_lock_def)

lemma machine_made_runnable [lock_simps]:
  "cpu_ok c (made_runnable p s) = cpu_ok c s" "free_lock l (made_runnable p s) = free_lock l s"
  by (simp_all add: made_runnable_def put_entry_def set_proc_def cpu_ok_def this_cpu_def free_lock_def)

lemma queues_set_mux [lock_simps]:
  "procs (set_mux m v s) = procs s" "sched_inv (set_mux m v s) = sched_inv s" "pq_items (set_mux m v s) = pq_items s"
  "wqueue (set_mux m v s) = wqueue s" "muxes (set_mux m v s) = (muxes s)(m := v)"
  by (rule sched_inv_cong pq_items_cong | simp add: set_mux_def)+

lemma queues_wqueue [lock_simps]:
  "sched_inv (s\<lparr>wqueue := w\<rparr>) = sched_inv s" "pq_items (s\<lparr>wqueue := w\<rparr>) = pq_items s"
  by (rule sched_inv_cong pq_items_cong | simp)+

lemma make_eligible_eq:
  assumes "cpu_ok c s" "free_lock PtableLock s" "sched_inv s" "q < NPROC" "p_state (procs s q) \<noteq> RUNNABLE"
  shows "make_eligible q s = Inr (made_runnable q s)"
proof -
  let ?t = "locked_by c PtableLock s"
  have "enqueue_or_panic q (set_proc q ((procs ?t q)\<lparr>p_state := RUNNABLE\<rparr>) ?t) = Inr (made_runnable q ?t)"
    by (rule make_runnable(1)) (use assms in \<open>simp_all add: lock_simps\<close>)
  then show ?thesis
    using assms by (simp add: make_eligible_def acquire_free [where c = c] lock_out lock_simps Let_def)
qed

text \<open>A system call of process \<open>p\<close> on CPU \<open>c\<close> with no lock held and mutex \<open>id\<close> as its argument, to which \<open>p\<close> has access.\<close>

definition mux_call :: "nat \<Rightarrow> nat \<Rightarrow> nat \<Rightarrow> nat \<Rightarrow> 'z sync_state_scheme \<Rightarrow> bool" where
  "mux_call c p i m s \<longleftrightarrow> cpu_ok c s \<and> cproc (cpus s c) = Some p
     \<and> free_lock MutexesLock s \<and> free_lock WqueueLock s \<and> free_lock PtableLock s
     \<and> arg_word 0 p s = Inr (Some (of_nat i)) \<and> i < MUX_MAXNUM \<and> p_mux_ptrs (procs s p) i = Some m"

definition mux_state :: "nat \<Rightarrow> int \<Rightarrow> 'z sync_state_scheme \<Rightarrow> 'z sync_state_scheme" where
  "mux_state m v s = set_mux m ((muxes s m)\<lparr>m_state := v\<rparr>) s"

lemma mux_arg:
  assumes "mux_call c p i m s"
  shows "argint 0 s = Inr (Some (of_nat i), s)" "arg_or x (Some (of_nat i)) = int i"
    "mux_ptr p (int i) s = Inr (Some m)"
  using assms
  by (auto simp: mux_call_def argint_Some [where c = c and p = p] arg_or_def mux_ptr_def MUX_MAXNUM_def
      signed_of_nat signed_take_bit_int_eq_self intro!: argint_Some)

lemma mux_callD:
  assumes "mux_call c p i m s"
  shows "cpu_ok c s" "free_lock MutexesLock s" "free_lock WqueueLock s" "free_lock PtableLock s"
    "curproc s = Inr (p, s)" "cproc (cpus s c) = Some p"
  using assms by (auto simp: mux_call_def intro: curproc_eq)

lemma mux_ptr_lock [lock_simps]:
  "mux_ptr p j (locked_by c l s) = mux_ptr p j s" "mux_ptr p j (set_mux m v s) = mux_ptr p j s"
  by (simp_all add: mux_ptr_def lock_simps)

lemma mlock_free:
  assumes "mux_call c p i m s" "m_state (muxes s m) \<noteq> 1"
  shows "sys_mlock others x s = Inr (1, mux_state m 1 s)"
  using assms mux_callD [OF assms(1)]
  by (simp add: sys_mlock_def mux_arg [OF assms(1)] mlock_loop.simps deref_def acquire_free [where c = c]
      lock_simps lock_out Let_def mux_state_def)

lemma munlock_eq:
  assumes "mux_call c p i m s" "m_state (muxes s m) = 1"
  shows "sys_munlock x s =
    (case wqueue s 0 of None \<Rightarrow> Inr (1, mux_state m 0 s)
     | Some q \<Rightarrow> bnd (make_eligible q ((mux_state m 0 s)\<lparr>wqueue := shift_left WQSIZE 0 (wqueue s)\<rparr>)) (\<lambda>s. Inr (1, s)))"
  using assms mux_callD [OF assms(1)]
  by (simp add: sys_munlock_def mux_arg [OF assms(1)] acquire_free [where c = c]
      lock_simps lock_out Let_def mux_state_def split: option.splits)

lemma mux_state_frames [lock_simps]:
  "cpu_ok c (mux_state m v s) = cpu_ok c s" "free_lock l (mux_state m v s) = free_lock l s"
  "cpus (mux_state m v s) = cpus s" "procs (mux_state m v s) = procs s" "wqueue (mux_state m v s) = wqueue s"
  "sched_inv (mux_state m v s) = sched_inv s" "pq_items (mux_state m v s) = pq_items s"
  "muxes (mux_state m v s) = (muxes s)(m := (muxes s m)\<lparr>m_state := v\<rparr>)"
  by (simp_all add: mux_state_def lock_simps)

lemma mux_state_twice: "mux_state m v (mux_state m w s) = mux_state m v s"
  by (simp add: mux_state_def set_mux_def)

lemma arg_word_frames [lock_simps]:
  "arg_word n p (locked_by c l s) = arg_word n p s" "arg_word n p (set_mux m v s) = arg_word n p s"
  "arg_word n p (s\<lparr>wqueue := w\<rparr>) = arg_word n p s" "arg_word n p (mux_state m k s) = arg_word n p s"
  "arg_word n p (set_proc p ((procs s p)\<lparr>p_state := st\<rparr>) s) = arg_word n p s"
  by (rule arg_word_cong; simp add: lock_simps set_mux_def mux_state_def set_proc_def)+

lemma mux_call_mux_state: "mux_call c p i m s \<Longrightarrow> mux_call c p i m (mux_state m v s)"
  by (simp add: mux_call_def lock_simps)

lemma made_runnable_sync [lock_simps]:
  "muxes (made_runnable q s) = muxes s" "wqueue (made_runnable q s) = wqueue s" "cpus (made_runnable q s) = cpus s"
  by (simp_all add: made_runnable_def put_entry_def set_proc_def)

section \<open>A state with a mutex\<close>

text \<open>
  Process 0 runs and calls with argument 2; mutex 2 is in state \<open>st\<close>, \<open>w\<close> is the wait queue and
  \<open>cv\<close> the queue of the condition variable. Every page table entry maps to the same page.
\<close>

definition mux_caller :: proc_state where
  "mux_caller = set_proc 0 ((procs two_sleepers 0)\<lparr>p_sz := 0x1000, p_tf := zero_trapframe\<lparr>tf_esp := 0xFC\<rparr>,
       p_mux_ptrs := (\<lambda>_. None)(2 := Some 2)\<rparr>)
     (two_sleepers\<lparr>mem := (\<lambda>_. 1)(0x81010100 := 2, 0x81010101 := 0, 0x81010102 := 0, 0x81010103 := 0)\<rparr>)"

definition mux_demo :: "int \<Rightarrow> nat slots \<Rightarrow> nat slots \<Rightarrow> sync_state" where
  "mux_demo st w cv = proc_state.extend mux_caller
     \<lparr>muxes = (\<lambda>_. \<lparr>m_name = 0x200, m_state = st, m_cv = cv\<rparr>), wqueue = w, ticks = 0\<rparr>"

lemmas mux_demo_defs = mux_demo_def mux_caller_def set_proc_def two_sleepers_defs proc_state.defs

lemma mux_demo_simps [simp]:
  "muxes (mux_demo st w cv) = (\<lambda>_. \<lparr>m_name = 0x200, m_state = st, m_cv = cv\<rparr>)"
  "wqueue (mux_demo st w cv) = w"
  "p_state (procs (mux_demo st w cv) 0) = RUNNING" "p_state (procs (mux_demo st w cv) (Suc 0)) = SLEEPING"
  "p_state (procs (mux_demo st w cv) 2) = SLEEPING" "cproc (cpus (mux_demo st w cv) d) = Some 0"
  by (simp_all add: mux_demo_defs)

lemma mux_demo_arg: "arg_word 0 0 (mux_demo st w cv) = Inr (Some 2)"
  by (simp add: arg_word_def load32_def user_mapped_def page_entry_def user_view_def user_addr_def
      read32_def cur_pgdir_def mux_demo_defs zero_trapframe_def entry_at_def PDX_def PTX_def PTE_P_def
      PTE_ADDR_def P2V_def KERNBASE_def)

lemma mux_demo_ok: "mux_call 0 0 2 2 (mux_demo st w cv)" "sched_inv (mux_demo st w cv)"
proof -
  have "cpu_ok 0 (mux_demo st w cv)" "free_lock l (mux_demo st w cv)" for l
    by (simp_all add: cpu_ok_def this_cpu_def free_lock_def mux_demo_defs)
  then show "mux_call 0 0 2 2 (mux_demo st w cv)"
    by (simp add: mux_call_def mux_demo_arg MUX_MAXNUM_def) (simp add: mux_demo_defs)
  have "sched_inv (mux_demo st w cv) = sched_inv mux_caller"
    by (rule sched_inv_cong) (simp_all add: mux_demo_def proc_state.defs)
  also have "\<dots>"
    unfolding mux_caller_def
  proof (rule sched_inv_set_proc)
    show "sched_inv (two_sleepers\<lparr>mem := M\<rparr>)" for M
      using two_sleepers_ok(1) by (subst sched_inv_cong [of _ two_sleepers]) simp_all
  qed simp_all
  finally show "sched_inv (mux_demo st w cv)" .
qed

text \<open>Two processes in a queue.\<close>

definition two_waiting :: "nat slots" where
  "two_waiting = (\<lambda>_. None)(0 := Some 1, 1 := Some 2)"

lemma waiting_queues:
  "packed WQSIZE two_waiting" "slots_list WQSIZE two_waiting = [1, 2]" "two_waiting 0 = Some 1"
  "place_for WQSIZE 0 (\<lambda>_. None :: nat option) = Some 0"
  "packed WQSIZE (\<lambda>_. None)"
proof -
  show "slots_list WQSIZE two_waiting = [1, 2]"
    by (rule slots_list_eqI) (auto simp: two_waiting_def WQSIZE_def less_Suc_eq)
qed (auto simp: two_waiting_def packed_def place_for_def find_upt_None find_upt_Some WQSIZE_def)

section \<open>Properties of mutexes\<close>

text \<open>A free mutex is locked at once and unlocked again: the calls return 1, the mutex is taken
  in between, and with nobody waiting the state afterwards is the one before with the mutex free.\<close>

theorem mlock_munlock:
  assumes "mux_call c p i m s" "m_state (muxes s m) \<noteq> 1" "wqueue s 0 = None"
  shows "\<exists>t. sys_mlock others x s = Inr (1, t) \<and> m_state (muxes t m) = 1
    \<and> sys_munlock y t = Inr (1, mux_state m 0 s)"
  using assms mux_call_mux_state [OF assms(1), of 1]
  by (simp add: mlock_free [OF assms(1,2)] munlock_eq [where c = c and p = p and i = i and m = m] lock_simps
      mux_state_twice)

theorem mlock_munlock_witness:
  "\<exists>t. sys_mlock id 0 (mux_demo 0 (\<lambda>_. None) (\<lambda>_. None)) = Inr (1, t) \<and> m_state (muxes t 2) = 1
    \<and> sys_munlock 0 t = Inr (1, mux_state 2 0 (mux_demo 0 (\<lambda>_. None) (\<lambda>_. None)))"
  by (rule mlock_munlock [OF mux_demo_ok(1)]) simp_all

text \<open>C17. \<open>munlock\<close> hands over in the order of arrival: the process that has waited longest leaves
  the wait queue, becomes \<open>RUNNABLE\<close> and goes to the tail of its priority level; the others keep
  their order and the scheduler's invariant is kept.\<close>

theorem munlock_wakes_first:
  assumes "mux_call c p i m s" "m_state (muxes s m) = 1" "sched_inv s"
    and "packed WQSIZE (wqueue s)" "slots_list WQSIZE (wqueue s) = q # qs"
    and "q < NPROC" "p_state (procs s q) \<noteq> RUNNABLE"
  shows "\<exists>t. sys_munlock x s = Inr (1, t) \<and> m_state (muxes t m) = 0
    \<and> packed WQSIZE (wqueue t) \<and> slots_list WQSIZE (wqueue t) = qs
    \<and> p_state (procs t q) = RUNNABLE \<and> sched_inv t
    \<and> pq_items t = (pq_items s)(level s q := pq_items s (level s q) @ [Some q])"
proof -
  let ?u = "(mux_state m 0 s)\<lparr>wqueue := shift_left WQSIZE 0 (wqueue s)\<rparr>"
  have q: "wqueue s 0 = Some q"
    using slots_list_nth [OF assms(4), of 0] assms(5) by (simp add: WQSIZE_def)
  have u: "cpu_ok c ?u" "free_lock PtableLock ?u" "sched_inv ?u" "procs ?u = procs s" "pq_items ?u = pq_items s"
    using mux_callD [OF assms(1)] assms(3) by (simp_all add: lock_simps)
  have lv: "level ?u q = level s q" by (simp add: level_def lock_simps)
  note r = make_runnable [OF u(3) assms(6), unfolded u(4,5) lv, OF assms(7)]
  show ?thesis
    using make_eligible_eq [OF u(1-3) assms(6), unfolded u(4), OF assms(7)] r(2-4)
    by (simp add: munlock_eq [OF assms(1,2)] q lock_simps packed_shift_left [OF assms(4)]
        slots_list_shift_left [OF assms(4)] assms(5))
qed

theorem munlock_wakes_first_witness:
  "\<exists>t. sys_munlock 0 (mux_demo 1 two_waiting (\<lambda>_. None)) = Inr (1, t) \<and> m_state (muxes t 2) = 0
    \<and> packed WQSIZE (wqueue t) \<and> slots_list WQSIZE (wqueue t) = [2]
    \<and> p_state (procs t 1) = RUNNABLE \<and> sched_inv t
    \<and> pq_items t = (pq_items (mux_demo 1 two_waiting (\<lambda>_. None)))(level (mux_demo 1 two_waiting (\<lambda>_. None)) 1 :=
        pq_items (mux_demo 1 two_waiting (\<lambda>_. None)) (level (mux_demo 1 two_waiting (\<lambda>_. None)) 1) @ [Some 1])"
  by (rule munlock_wakes_first [OF mux_demo_ok(1) _ mux_demo_ok(2)]) (simp_all add: waiting_queues NPROC_def)

text \<open>C21. The wake-up does not look at the state of the process it finds. When it is still running on
  some CPU, between queueing itself and going to sleep, it is put into the run queue as well: it
  can then be picked up by a second CPU.\<close>

theorem munlock_requeues_running:
  assumes "mux_call c p i m s" "m_state (muxes s m) = 1" "sched_inv s"
    and "wqueue s 0 = Some q" "q < NPROC" "p_state (procs s q) = RUNNING" "cproc (cpus s d) = Some q"
  shows "\<exists>t. sys_munlock x s = Inr (1, t) \<and> cproc (cpus t d) = Some q \<and> p_state (procs t q) = RUNNABLE
    \<and> pq_items t (level s q) = pq_items s (level s q) @ [Some q]"
proof -
  let ?u = "(mux_state m 0 s)\<lparr>wqueue := shift_left WQSIZE 0 (wqueue s)\<rparr>"
  have u: "cpu_ok c ?u" "free_lock PtableLock ?u" "sched_inv ?u" "procs ?u = procs s" "pq_items ?u = pq_items s"
    using mux_callD [OF assms(1)] assms(3) by (simp_all add: lock_simps)
  have lv: "level ?u q = level s q" by (simp add: level_def lock_simps)
  have "p_state (procs s q) \<noteq> RUNNABLE" using assms(6) by simp
  note r = make_runnable [OF u(3) assms(5), unfolded u(4,5) lv, OF this]
    make_eligible_eq [OF u(1-3) assms(5), unfolded u(4), OF this]
  show ?thesis
    using r(3-5) assms(7) by (simp add: munlock_eq [OF assms(1,2)] assms(4) lock_simps)
qed

theorem munlock_requeues_running_witness:
  "\<exists>t. sys_munlock 0 (mux_demo 1 ((\<lambda>_. None)(0 := Some 0)) (\<lambda>_. None)) = Inr (1, t)
    \<and> cproc (cpus t 0) = Some 0 \<and> p_state (procs t 0) = RUNNABLE
    \<and> pq_items t (level (mux_demo 1 ((\<lambda>_. None)(0 := Some 0)) (\<lambda>_. None)) 0) =
        pq_items (mux_demo 1 ((\<lambda>_. None)(0 := Some 0)) (\<lambda>_. None))
          (level (mux_demo 1 ((\<lambda>_. None)(0 := Some 0)) (\<lambda>_. None)) 0) @ [Some 0]"
  by (rule munlock_requeues_running [OF mux_demo_ok(1) _ mux_demo_ok(2)]) (simp_all add: NPROC_def)

text \<open>C20. \<open>waitcv\<close> calls \<open>munlock\<close> with \<open>ptable.lock\<close> held. When a process waits for a mutex,
  \<open>munlock\<close> takes \<open>ptable.lock\<close> again to wake it, and the kernel panics.\<close>

theorem waitcv_panics:
  assumes "mux_call c p i m s" "m_state (muxes s m) = 1"
    and "place_for WQSIZE p (m_cv (muxes s m)) = Some k" "wqueue s 0 = Some q"
  shows "sys_waitcv others x s = Inl (Panic ''acquire'')"
proof -
  let ?cv = "set_mux m ((muxes s m)\<lparr>m_cv := (m_cv (muxes s m))(k := Some p)\<rparr>) s"
  let ?t = "locked_by c PtableLock (set_proc p ((procs s p)\<lparr>p_state := SLEEPING\<rparr>) ?cv)"
  note d = mux_callD [OF assms(1)]
  have arg: "argint 0 ?t = Inr (Some (of_nat i), ?t)"
  proof (rule argint_Some [where c = c and p = p])
    show "arg_word 0 p ?t = Inr (Some (of_nat i))"
      using assms(1) arg_word_frames(5) [where n = 0 and p = p and s = "?cv" and st = SLEEPING]
      by (simp add: mux_call_def lock_simps)
  qed (use d in \<open>simp_all add: lock_simps\<close>)
  have ptr: "mux_ptr p (int i) (set_proc p ((procs s p)\<lparr>p_state := SLEEPING\<rparr>) ?cv) = Inr (Some m)"
    using mux_arg(3) [OF assms(1)] by (simp add: mux_ptr_def lock_simps frames split: if_splits)
  have "sys_munlock (int i) ?t = Inl (Panic ''acquire'')"
    using d assms(2,4)
    by (simp add: sys_munlock_def arg ptr mux_arg(2) [OF assms(1)] curproc_eq [where c = c and p = p]
        acquire_free [where c = c] lock_simps lock_out Let_def make_eligible_def acquire_again [where c = c]
        release_held [where c = c])
  then show ?thesis
    using d
    by (simp add: sys_waitcv_def mux_arg [OF assms(1)] deref_def acquire_free [where c = c] lock_simps
        lock_out Let_def assms(3))
qed

theorem waitcv_panics_witness:
  "sys_waitcv id 0 (mux_demo 1 two_waiting (\<lambda>_. None)) = Inl (Panic ''acquire'')"
  by (rule waitcv_panics [OF mux_demo_ok(1)]) (simp_all add: waiting_queues)

lemma signalcv_eq:
  assumes "mux_call c p i m s" "m_state (muxes s m) = 1"
  shows "sys_signalcv x s = (case m_cv (muxes s m) 0 of None \<Rightarrow> Inr (0, s)
      | Some q \<Rightarrow> bnd (make_eligible q (set_mux m ((muxes s m)\<lparr>m_cv := shift_left WQSIZE 0 (m_cv (muxes s m))\<rparr>) s))
          (\<lambda>s. Inr (1, s)))"
  using mux_callD [OF assms(1)] assms(2)
  by (simp add: sys_signalcv_def mux_arg [OF assms(1)] acquire_free [where c = c] lock_simps lock_out
      Let_def split: option.splits)

text \<open>\<open>signalcv\<close> on a taken mutex makes the process that has waited longest on its condition
  variable \<open>RUNNABLE\<close>, at the tail of its level; with no waiter it changes nothing and returns 0.\<close>

theorem signalcv_wakes_first:
  assumes "mux_call c p i m s" "m_state (muxes s m) = 1" "sched_inv s" "packed WQSIZE (m_cv (muxes s m))"
    and "list_all (\<lambda>q. q < NPROC \<and> p_state (procs s q) = SLEEPING) (slots_list WQSIZE (m_cv (muxes s m)))"
  shows "case slots_list WQSIZE (m_cv (muxes s m)) of
      [] \<Rightarrow> sys_signalcv x s = Inr (0, s)
    | q # qs \<Rightarrow> \<exists>t. sys_signalcv x s = Inr (1, t)
        \<and> packed WQSIZE (m_cv (muxes t m)) \<and> slots_list WQSIZE (m_cv (muxes t m)) = qs
        \<and> p_state (procs t q) = RUNNABLE \<and> sched_inv t
        \<and> pq_items t = (pq_items s)(level s q := pq_items s (level s q) @ [Some q])"
proof -
  note d = mux_callD [OF assms(1)]
  let ?u = "set_mux m ((muxes s m)\<lparr>m_cv := shift_left WQSIZE 0 (m_cv (muxes s m))\<rparr>) s"
  note eq = signalcv_eq [OF assms(1,2), of x]
  show ?thesis
  proof (cases "slots_list WQSIZE (m_cv (muxes s m))")
    case Nil
    then show ?thesis using eq slots_list_empty [of WQSIZE "m_cv (muxes s m)"] by (simp add: WQSIZE_def)
  next
    case (Cons q qs)
    have q: "m_cv (muxes s m) 0 = Some q"
      using slots_list_nth [OF assms(4), of 0] Cons by (simp add: WQSIZE_def)
    have u: "cpu_ok c ?u" "free_lock PtableLock ?u" "sched_inv ?u" "procs ?u = procs s" "pq_items ?u = pq_items s"
      using d assms(3) by (simp_all add: lock_simps)
    have lv: "level ?u q = level s q" by (simp add: level_def lock_simps)
    have st: "q < NPROC" "p_state (procs s q) \<noteq> RUNNABLE" using assms(5) Cons by simp_all
    note r = make_runnable [OF u(3) st(1), unfolded u(4,5) lv, OF st(2)]
    show ?thesis
      using make_eligible_eq [OF u(1-3) st(1), unfolded u(4), OF st(2)] r(2-4) Cons eq q
      by (simp add: lock_simps packed_shift_left [OF assms(4)] slots_list_shift_left [OF assms(4)])
  qed
qed

theorem signalcv_wakes_first_witness:
  "\<exists>t. sys_signalcv 0 (mux_demo 1 (\<lambda>_. None) two_waiting) = Inr (1, t)
    \<and> slots_list WQSIZE (m_cv (muxes t 2)) = [2] \<and> p_state (procs t 1) = RUNNABLE"
  using signalcv_wakes_first [OF mux_demo_ok(1) _ mux_demo_ok(2), of 1 "\<lambda>_. None" two_waiting 0]
  by (auto simp: waiting_queues NPROC_def)

section \<open>The wait queues as bounded queues\<close>

text \<open>
  The entry a process makes for itself in a wait queue (\<open>mlock\<close>, \<open>waitcv\<close>), and the removal of
  the first entry (\<open>munlock\<close>, \<open>signalcv\<close>).
\<close>

definition wq_put :: "nat \<Rightarrow> nat slots \<Rightarrow> nat slots option" where
  "wq_put p q = map_option (\<lambda>i. q(i := Some p)) (place_for WQSIZE p q)"

definition wq_get :: "nat slots \<Rightarrow> (nat \<times> nat slots) option" where
  "wq_get q = map_option (\<lambda>p. (p, shift_left WQSIZE 0 q)) (q 0)"

definition new_waiters :: "nat list \<Rightarrow> nat slots \<Rightarrow> bool" where
  "new_waiters ps q \<longleftrightarrow> distinct ps \<and> set ps \<inter> set (slots_list WQSIZE q) = {}"

interpretation waiters: bounded_fifo wq_put wq_get "slots_list WQSIZE" "packed WQSIZE" new_waiters WQSIZE
proof
  fix q x xs
  assume ok: "packed WQSIZE q" and new: "new_waiters (x # xs) q"
  let ?n = "length (slots_list WQSIZE q)"
  have x: "x \<notin> set (slots_list WQSIZE q)" using new by (simp add: new_waiters_def)
  show "\<exists>t. wq_put x q = Some t \<and> packed WQSIZE t \<and> slots_list WQSIZE t = slots_list WQSIZE q @ [x] \<and> new_waiters xs t"
    if "?n < WQSIZE"
    using that x new slots_list_put [OF ok that, of x]
    by (simp add: wq_put_def place_for_spec [OF ok] new_waiters_def)
  show "wq_put x q = None" if "?n = WQSIZE"
    using that x by (simp add: wq_put_def place_for_spec [OF ok])
next
  fix q :: "nat slots" and x xs
  assume ok: "packed WQSIZE q" and q: "slots_list WQSIZE q = x # xs"
  have "q 0 = Some x" using slots_list_nth [OF ok, of 0] q by (simp add: WQSIZE_def)
  then show "\<exists>t. wq_get q = Some (x, t) \<and> packed WQSIZE t \<and> slots_list WQSIZE t = xs"
    using q by (simp add: wq_get_def packed_shift_left [OF ok] slots_list_shift_left [OF ok])
next
  fix q :: "nat slots"
  show "slots_list WQSIZE q = [] \<Longrightarrow> wq_get q = None"
    using slots_list_empty [of WQSIZE q] by (simp add: wq_get_def WQSIZE_def)
  show "length (slots_list WQSIZE q) \<le> WQSIZE" by (rule slots_list_length_le)
qed

text \<open>The wait queue of the mutexes serves up to 1000 processes in the order of their arrival and
  is empty afterwards; one more does not get in.\<close>

theorem wait_queue_fifo:
  assumes "distinct ps" "length ps \<le> WQSIZE"
  shows "\<exists>t u. put_many wq_put ps (\<lambda>_. None) = Some t \<and> get_many wq_get (length ps) t = Some (ps, u)
    \<and> slots_list WQSIZE u = [] \<and> wq_get u = None
    \<and> (length ps = WQSIZE \<longrightarrow> (\<forall>p. p \<notin> set ps \<longrightarrow> wq_put p t = None))"
proof -
  let ?e = "\<lambda>_ :: nat. None :: nat option"
  have e: "packed WQSIZE ?e" "slots_list WQSIZE ?e = []" "new_waiters ps ?e"
    using assms(1) slots_list_empty [of WQSIZE ?e] by (simp_all add: packed_def new_waiters_def WQSIZE_def)
  obtain t u where tu: "put_many wq_put ps ?e = Some t" "get_many wq_get (length ps) t = Some (ps, u)"
    "slots_list WQSIZE u = []" "wq_get u = None"
    using waiters.fifo_order [OF e assms(2)] by blast
  have t: "packed WQSIZE t" "slots_list WQSIZE t = ps"
    using waiters.put_many_items [OF e(1,3)] e(2) assms(2) tu(1) by auto
  have "wq_put p t = None" if "length ps = WQSIZE" "p \<notin> set ps" for p
    by (rule waiters.put_full [OF t(1), of p "[]"]) (use that t(2) in \<open>simp_all add: new_waiters_def\<close>)
  then show ?thesis using tu by blast
qed

theorem wait_queue_fifo_witness:
  "\<exists>t u. put_many wq_put [7, 3, 5] (\<lambda>_. None) = Some t \<and> get_many wq_get (length [7, 3, 5 :: nat]) t = Some ([7, 3, 5], u)
    \<and> slots_list WQSIZE u = [] \<and> wq_get u = None"
proof -
  have "distinct [7, 3, 5 :: nat]" "length [7, 3, 5 :: nat] \<le> WQSIZE" by (simp_all add: WQSIZE_def)
  from wait_queue_fifo [OF this] show ?thesis by blast
qed

section \<open>Properties of priorities\<close>

definition parents :: "'z proc_state_scheme \<Rightarrow> (nat \<times> nat) set" where
  "parents s = {(q, r). q < NPROC \<and> p_parent (procs s q) = Some r}"

definition parents_ok :: "'z proc_state_scheme \<Rightarrow> bool" where
  "parents_ok s \<longleftrightarrow> parents s \<subseteq> {..<NPROC} \<times> {..<NPROC} \<and> acyclic (parents s)
     \<and> (\<forall>q<NPROC. p_parent (procs s q) = None \<longrightarrow> p_pid (procs s q) \<le> 1)"

lemma ancestor_walk_sound:
  "parents_ok s \<Longrightarrow> ancestor_walk n cur (Some q) s = Inr True \<Longrightarrow> q < NPROC \<Longrightarrow> (q, cur) \<in> (parents s)\<^sup>*"
proof (induction n arbitrary: q)
  case (Suc n)
  show ?case
  proof (cases "q = cur")
    case False
    with Suc.prems(2) have w: "ancestor_walk n cur (p_parent (procs s q)) s = Inr True"
      by (auto simp: deref_def split: if_splits)
    then obtain r where r: "p_parent (procs s q) = Some r"
      by (cases n; cases "p_parent (procs s q)") (auto simp: deref_def)
    then have e: "(q, r) \<in> parents s" using Suc.prems(3) by (simp add: parents_def)
    then have "r < NPROC" using Suc.prems(1) by (auto simp: parents_ok_def)
    with Suc.IH [of r] w r Suc.prems have "(r, cur) \<in> (parents s)\<^sup>*" by simp
    with e show ?thesis by (rule converse_rtrancl_into_rtrancl)
  qed simp
qed simp

lemma ancestor_walk_visits:
  assumes "parents_ok s"
  shows "q < NPROC \<Longrightarrow> V \<subseteq> {..<NPROC} \<Longrightarrow> V \<times> {q} \<subseteq> (parents s)\<^sup>+ \<Longrightarrow> NPROC < card V + n
    \<Longrightarrow> \<exists>b. ancestor_walk n cur (Some q) s = Inr b"
proof (induction n arbitrary: q V)
  case 0
  then have "card V \<le> card {..<NPROC}" by (intro card_mono) simp_all
  with 0 show ?case by simp
next
  case (Suc n)
  have "q \<notin> V" using Suc.prems(3) assms by (auto simp: parents_ok_def acyclic_def)
  moreover have "finite V" using Suc.prems(2) finite_subset by blast
  ultimately have card: "card (insert q V) = Suc (card V)" by simp
  show ?case
  proof (cases "p_parent (procs s q)")
    case None
    then have "p_pid (procs s q) \<le> 1" using assms Suc.prems(1) by (simp add: parents_ok_def)
    then show ?thesis by (auto simp: deref_def)
  next
    case (Some r)
    then have e: "(q, r) \<in> parents s" using Suc.prems(1) by (simp add: parents_def)
    have "insert q V \<times> {r} \<subseteq> (parents s)\<^sup>+"
      using Suc.prems(3) e by (auto intro: trancl_into_trancl)
    moreover have "r < NPROC" using e assms by (auto simp: parents_ok_def)
    ultimately have "\<exists>b. ancestor_walk n cur (Some r) s = Inr b"
      using Suc.IH [of r "insert q V"] Suc.prems card by simp
    then show ?thesis by (auto simp: deref_def Some)
  qed
qed

text \<open>Process 0 calls with two arguments; process 1 is its child and process 2 the child of process 1.\<close>

definition prio_demo :: "uchar \<Rightarrow> uchar \<Rightarrow> uchar \<Rightarrow> proc_state" where
  "prio_demo a b h = set_proc 1 ((procs two_sleepers 1)\<lparr>p_parent := Some 0\<rparr>)
     (set_proc 2 ((procs two_sleepers 2)\<lparr>p_parent := Some 1\<rparr>)
     (set_proc 0 ((procs two_sleepers 0)\<lparr>p_sz := 0x1000, p_tf := zero_trapframe\<lparr>tf_esp := 0xFC\<rparr>\<rparr>)
     (two_sleepers\<lparr>mem := (\<lambda>_. 1)(0x81010100 := a, 0x81010101 := 0, 0x81010102 := 0, 0x81010103 := 0,
        0x81010104 := b, 0x81010105 := h, 0x81010106 := h, 0x81010107 := h)\<rparr>)))"

lemmas prio_demo_defs = prio_demo_def set_proc_def two_sleepers_defs

lemma prio_demo_parents: "parents_ok (prio_demo a b h)"
proof -
  have p: "parents (prio_demo a b h) = {(1, 0), (2, 1)}"
    by (auto simp: parents_def prio_demo_defs NPROC_def split: if_splits)
  have "acyclic ((parents (prio_demo a b h))\<inverse>)"
    by (rule wf_acyclic, rule wf_subset [OF wf_less_than]) (auto simp: p)
  moreover have "p_pid (procs (prio_demo a b h) q) \<le> 1" if "p_parent (procs (prio_demo a b h) q) = None" for q
    using that by (simp add: prio_demo_defs split: if_splits)
  moreover have "parents (prio_demo a b h) \<subseteq> {..<NPROC} \<times> {..<NPROC}"
    by (simp add: p NPROC_def)
  ultimately show ?thesis
    unfolding parents_ok_def acyclic_converse by blast
qed

text \<open>C19. The walk up the process tree in \<open>prio_set\<close> ends: where every process other than the first
  has a parent and the parent links have no cycle, it reaches an answer within the \<open>NPROC + 1\<close>
  steps, and never follows a null pointer.\<close>

theorem prio_walk_ends:
  assumes "parents_ok s" "q < NPROC"
  shows "\<exists>b. ancestor_walk (NPROC + 1) cur (Some q) s = Inr b"
  by (rule ancestor_walk_visits [OF assms, of "{}"]) simp_all

theorem prio_walk_ends_witness:
  "parents_ok (prio_demo 3 5 0) \<and> (\<exists>b. ancestor_walk (NPROC + 1) 0 (Some 2) (prio_demo 3 5 0) = Inr b)"
  using prio_walk_ends [OF prio_demo_parents, of 2 0 3 5 0] prio_demo_parents [of 3 5 0] by (simp add: NPROC_def)

text \<open>A call \<open>prio_set(pid, priority)\<close> by process \<open>cur\<close> on CPU \<open>c\<close>.\<close>

definition prio_call :: "nat \<Rightarrow> nat \<Rightarrow> uint \<Rightarrow> uint \<Rightarrow> 'z proc_state_scheme \<Rightarrow> bool" where
  "prio_call c cur pid priority s \<longleftrightarrow> cpu_ok c s \<and> cproc (cpus s c) = Some cur \<and> free_lock PtableLock s
     \<and> arg_word 0 cur s = Inr (Some pid) \<and> arg_word 1 cur s = Inr (Some priority)"

definition set_priority :: "nat \<Rightarrow> uint \<Rightarrow> 'z proc_state_scheme \<Rightarrow> 'z proc_state_scheme" where
  "set_priority p priority s = set_proc p ((procs s p)\<lparr>p_priority := priority\<rparr>) s"

lemma prio_set_eq:
  assumes "prio_call c cur pid priority s"
  shows "sys_prio_set x y s =
    (if PRIO_MAX \<le> sint priority \<or> priority < p_priority (procs s cur) then Inr (- 1, s)
     else if p_pid (procs s cur) = sint pid then Inr (1, set_priority cur priority s)
     else case find (\<lambda>p. p \<noteq> cur \<and> p_pid (procs s p) = sint pid) [0..<NPROC] of
       None \<Rightarrow> Inr (- 1, s)
     | Some p \<Rightarrow> bnd (ancestor_walk (NPROC + 1) cur (p_parent (procs s p)) s) (\<lambda>found.
         if found then Inr (1, set_priority p priority s) else Inr (- 1, s)))"
proof -
  have walk: "ancestor_walk n cur i (locked_by c PtableLock s) = ancestor_walk n cur i s" for n i
    by (induction n arbitrary: i) (simp_all add: lock_simps cong: if_cong)
  have "argint 0 s = Inr (Some pid, s)" "argint 1 s = Inr (Some priority, s)"
    using assms by (auto simp: prio_call_def intro: argint_Some)
  then show ?thesis
    using assms
    by (simp add: sys_prio_set_def prio_call_def arg_or_def Let_def curproc_eq [where c = c and p = cur]
        acquire_free [where c = c] lock_simps lock_out walk set_priority_def cong: if_cong split: option.splits)
qed

lemma ancestor_walk_null: "ancestor_walk (Suc n) cur None s = Inl (Fault ''i->pid'')"
  by (simp add: deref_def)

lemma prio_set_null:
  assumes "prio_call c cur pid priority s" "sint priority < PRIO_MAX" "p_priority (procs s cur) \<le> priority"
    and "p_pid (procs s cur) \<noteq> sint pid" "find (\<lambda>p. p \<noteq> cur \<and> p_pid (procs s p) = sint pid) [0..<NPROC] = Some q"
    and "p_parent (procs s q) = None"
  shows "sys_prio_set x y s = Inl (Fault ''i->pid'')"
  unfolding prio_set_eq [OF assms(1)] assms(5,6) option.case Suc_eq_plus1 [symmetric] ancestor_walk_null
  using assms(2-4) by (simp add: not_less)

lemma prio_set_outcome:
  assumes "prio_call c cur pid priority s" "parents_ok s"
  shows "sys_prio_set x y s = Inr (- 1, s)
    \<or> (\<exists>q. sys_prio_set x y s = Inr (1, set_priority q priority s) \<and> p_pid (procs s q) = sint pid
        \<and> (q, cur) \<in> (parents s)\<^sup>* \<and> p_priority (procs s cur) \<le> priority \<and> sint priority < PRIO_MAX)
    \<or> sys_prio_set x y s = Inl (Fault ''i->pid'') \<and> sint pid \<le> 1
        \<and> (\<exists>q<NPROC. q \<noteq> cur \<and> p_pid (procs s q) = sint pid \<and> p_parent (procs s q) = None)"
proof (cases "PRIO_MAX \<le> sint priority \<or> priority < p_priority (procs s cur) \<or> p_pid (procs s cur) = sint pid
    \<or> find (\<lambda>p. p \<noteq> cur \<and> p_pid (procs s p) = sint pid) [0..<NPROC] = None")
  case True
  then show ?thesis by (auto simp: prio_set_eq [OF assms(1)])
next
  case ok: False
  then obtain p where p: "find (\<lambda>p. p \<noteq> cur \<and> p_pid (procs s p) = sint pid) [0..<NPROC] = Some p" by auto
  then have pp: "p < NPROC" "p \<noteq> cur" "p_pid (procs s p) = sint pid" by (simp_all add: find_upt_Some)
  note call = prio_set_eq [OF assms(1), of x y, unfolded p option.case]
  show ?thesis
  proof (cases "p_parent (procs s p)")
    case None
    then have "sint pid \<le> 1" using assms(2) pp by (auto simp: parents_ok_def)
    moreover have "sys_prio_set x y s = Inl (Fault ''i->pid'')"
      unfolding call None Suc_eq_plus1 [symmetric] ancestor_walk_null using ok by simp
    ultimately show ?thesis using None pp by blast
  next
    case (Some r)
    then have e: "(p, r) \<in> parents s" and r: "r < NPROC"
      using pp(1) assms(2) by (auto simp: parents_def parents_ok_def)
    have "\<exists>b. ancestor_walk (NPROC + 1) cur (Some r) s = Inr b"
      by (rule ancestor_walk_visits [OF assms(2) r, of "{}"]) simp_all
    then obtain b where b: "ancestor_walk (NPROC + 1) cur (Some r) s = Inr b" ..
    show ?thesis
    proof (cases b)
      case True
      have "(p, cur) \<in> (parents s)\<^sup>*"
        by (rule converse_rtrancl_into_rtrancl [OF e ancestor_walk_sound [OF assms(2) b [unfolded eqTrueI [OF True]] r]])
      moreover have "sys_prio_set x y s = Inr (1, set_priority p priority s)"
        unfolding call Some b using ok True by simp
      ultimately show ?thesis using ok pp(3) by (auto simp: not_less not_le)
    next
      case False
      then have "sys_prio_set x y s = Inr (- 1, s)" unfolding call Some b using ok by simp
      then show ?thesis by blast
    qed
  qed
qed


lemma prio_demo_call:
  "prio_call 0 0 3 5 (prio_demo 3 5 0)" "prio_call 0 0 1 (- 1) (prio_demo 1 255 255)"
  "prio_call 0 0 0 5 (prio_demo 0 5 0)"
  by (simp_all add: prio_call_def cpu_ok_def this_cpu_def free_lock_def arg_word_def load32_def user_mapped_def
      page_entry_def user_view_def user_addr_def read32_def cur_pgdir_def prio_demo_defs zero_trapframe_def
      entry_at_def PDX_def PTX_def PTE_P_def PTE_ADDR_def P2V_def KERNBASE_def)


lemma sint_cases: "sint (x :: uint) = (if uint x < 2 ^ 31 then uint x else uint x - 2 ^ 32)"
proof -
  have k: "0 \<le> uint x" "uint x < 2 ^ 32"
    using uint_bounded [of x] by simp_all
  have s: "sint x = (uint x + 2 ^ 31) mod 2 ^ 32 - 2 ^ 31"
    by (simp add: sint_uint signed_take_bit_eq_take_bit_shift take_bit_eq_mod)
  show ?thesis
  proof (cases "uint x < 2 ^ 31")
    case True
    then have "(uint x + 2 ^ 31) mod 2 ^ 32 = uint x + 2 ^ 31"
      using k by (intro mod_pos_pos_trivial) simp_all
    with True s show ?thesis by simp
  next
    case False
    have "(uint x + 2 ^ 31) mod 2 ^ 32 = (uint x - 2 ^ 31 + 2 ^ 32) mod 2 ^ 32"
      by (simp add: add.commute)
    also have "\<dots> = uint x - 2 ^ 31"
      unfolding mod_add_self2 using False k by (intro mod_pos_pos_trivial) simp_all
    finally show ?thesis using False s by simp
  qed
qed

text \<open>C22. The test of the new level has no lower bound. A process can give itself a negative priority;
  when it is next made \<open>RUNNABLE\<close>, the kernel indexes the run queues out of their bounds.\<close>

theorem prio_set_negative:
  assumes "prio_call c cur pid priority s" "p_pid (procs s cur) = sint pid"
    and "sint priority < 0" "0 \<le> sint (p_priority (procs s cur))"
  shows "sys_prio_set x y s = Inr (1, set_priority cur priority s)
    \<and> enqueue_or_panic cur (set_proc cur ((procs s cur)\<lparr>p_state := RUNNABLE, p_priority := priority\<rparr>)
         (set_priority cur priority s)) = Inl (Fault ''ptable.head_tail[priority]'')"
proof -
  have "\<not> priority < p_priority (procs s cur)"
    using assms(3,4) uint_bounded [of "p_priority (procs s cur)"]
    by (simp add: word_less_alt sint_cases split: if_splits)
  then have "sys_prio_set x y s = Inr (1, set_priority cur priority s)"
    using assms(2,3) by (simp add: prio_set_eq [OF assms(1)] PRIO_MAX_def)
  then show ?thesis
    using assms(3) by (simp add: enqueue_or_panic_def pq_enqueue_def frames Let_def)
qed

theorem prio_set_negative_witness:
  "sys_prio_set 0 0 (prio_demo 1 255 255) = Inr (1, set_priority 0 (- 1) (prio_demo 1 255 255))
    \<and> enqueue_or_panic 0 (set_proc 0 ((procs (prio_demo 1 255 255) 0)\<lparr>p_state := RUNNABLE, p_priority := - 1\<rparr>)
         (set_priority 0 (- 1) (prio_demo 1 255 255))) = Inl (Fault ''ptable.head_tail[priority]'')"
  by (rule prio_set_negative [OF prio_demo_call(2)]) (simp_all add: prio_demo_defs)

section \<open>The run queues under the kernel's calls\<close>

text \<open>
  The routines of the kernel that change the state of a process or the run queues, as calls made by
  process \<open>p\<close> on CPU \<open>c\<close> (a pass of the scheduler is made by the CPU itself). \<open>others\<close> and \<open>run\<close>
  are what happens while the caller does not have the CPU.
\<close>

datatype sched_call = DoAllocproc | DoWakeup chan | DoKill int | DoYield | DoSleep chan lockid | DoPass
  | DoMunlock int | DoSignalcv int | DoPrioSet int int

abbreviation state_of :: "('a \<times> 's) result \<Rightarrow> 's result" where
  "state_of r \<equiv> bnd r (\<lambda>(_, s). Inr s)"

fun call_result ::
  "('z sync_state_scheme \<Rightarrow> 'z sync_state_scheme) \<Rightarrow> (nat \<Rightarrow> 'z sync_state_scheme \<Rightarrow> 'z sync_state_scheme) \<Rightarrow> nat
   \<Rightarrow> sched_call \<Rightarrow> 'z sync_state_scheme \<Rightarrow> 'z sync_state_scheme result"
where
  "call_result others run c DoAllocproc s = state_of (allocproc s)"
| "call_result others run c (DoWakeup ch) s = wakeup ch s"
| "call_result others run c (DoKill pid) s = state_of (kill pid s)"
| "call_result others run c DoYield s = yield others s"
| "call_result others run c (DoSleep ch lk) s = sleep others ch lk s"
| "call_result others run c DoPass s = scheduler_round run c s"
| "call_result others run c (DoMunlock x) s = state_of (sys_munlock x s)"
| "call_result others run c (DoSignalcv x) s = state_of (sys_signalcv x s)"
| "call_result others run c (DoPrioSet x y) s = state_of (sys_prio_set x y s)"

text \<open>
  When the call is made: with the locks it takes free and, for one that gives up the CPU, by a
  process that is \<open>RUNNING\<close>; the pass is not the first one; the waiter that \<open>munlock\<close> and
  \<open>signalcv\<close> wake is \<open>SLEEPING\<close>; the priority is not negative.
\<close>

definition asleep_waiter :: "nat option \<Rightarrow> 'z proc_state_scheme \<Rightarrow> bool" where
  "asleep_waiter w s \<longleftrightarrow> (case w of None \<Rightarrow> True | Some q \<Rightarrow> q < NPROC \<and> p_state (procs s q) = SLEEPING)"

fun may_call :: "nat \<Rightarrow> nat \<Rightarrow> sched_call \<Rightarrow> 'z sync_state_scheme \<Rightarrow> bool" where
  "may_call c p DoAllocproc s \<longleftrightarrow> True"
| "may_call c p (DoWakeup ch) s \<longleftrightarrow> cpu_ok c s \<and> free_lock PtableLock s"
| "may_call c p (DoKill pid) s \<longleftrightarrow> cpu_ok c s \<and> free_lock PtableLock s"
| "may_call c p DoYield s \<longleftrightarrow> cpu_ok c s \<and> depth c s = 0 \<and> free_lock PtableLock s \<and> cproc (cpus s c) = Some p
     \<and> p < NPROC \<and> p_state (procs s p) = RUNNING"
| "may_call c p (DoSleep ch lk) s \<longleftrightarrow> may_sleep c lk p s \<and> p_state (procs s p) = RUNNING"
| "may_call c p DoPass s \<longleftrightarrow> cpu_ok c s \<and> int_flag s \<and> free_lock PtableLock s \<and> \<not> first_time s \<and> stacks_ok s"
| "may_call c p (DoMunlock x) s \<longleftrightarrow> (\<exists>i m. mux_call c p i m s) \<and> asleep_waiter (wqueue s 0) s"
| "may_call c p (DoSignalcv x) s \<longleftrightarrow> (\<exists>i m. mux_call c p i m s \<and> asleep_waiter (m_cv (muxes s m) 0) s)"
| "may_call c p (DoPrioSet x y) s \<longleftrightarrow> (\<exists>pid priority. prio_call c p pid priority s \<and> 0 \<le> sint priority) \<and> parents_ok s"

lemma locks_keep_table:
  fixes s t :: "'z proc_state_scheme"
  shows "acquire l s = Inr t \<Longrightarrow> procs t = procs s \<and> pqueues t = pqueues s \<and> head_tail t = head_tail s"
    "release l s = Inr t \<Longrightarrow> procs t = procs s \<and> pqueues t = pqueues s \<and> head_tail t = head_tail s"
proof -
  have push: "procs t = procs s \<and> pqueues t = pqueues s \<and> head_tail t = head_tail s"
    if "pushcli s = Inr t" for s t :: "'z proc_state_scheme"
    using that by (auto simp: pushcli_def bnd_eq_Inr Let_def cli_def set_cpu_def split: if_splits)
  have pop: "procs t = procs s \<and> pqueues t = pqueues s \<and> head_tail t = head_tail s"
    if "popcli s = Inr t" for s t :: "'z proc_state_scheme"
    using that by (auto simp: popcli_def bnd_eq_Inr Let_def sti_def set_cpu_def split: if_splits)
  show "acquire l s = Inr t \<Longrightarrow> procs t = procs s \<and> pqueues t = pqueues s \<and> head_tail t = head_tail s"
    by (auto simp: acquire_def bnd_eq_Inr Let_def set_lock_def split: if_splits prod.splits dest!: push)
  show "release l s = Inr t \<Longrightarrow> procs t = procs s \<and> pqueues t = pqueues s \<and> head_tail t = head_tail s"
    by (auto simp: release_def bnd_eq_Inr Let_def set_lock_def split: if_splits dest!: pop)
qed

lemma locks_keep_inv:
  "acquire l s = Inr t \<Longrightarrow> sched_inv s \<Longrightarrow> sched_inv t" "release l s = Inr t \<Longrightarrow> sched_inv s \<Longrightarrow> sched_inv t"
  using locks_keep_table [of l s t] sched_inv_cong [of t s] by auto

lemma set_cpu_inv [simp]: "sched_inv (set_cpu c v s) = sched_inv s"
  by (rule sched_inv_cong) (simp_all add: set_cpu_def)

text \<open>From the switch to the scheduler to the return from it.\<close>

lemma switch_inv:
  assumes "bnd (swtch others p s) (resumed ie) = Inr t" "sched_inv s" "\<forall>u. sched_inv u \<longrightarrow> sched_inv (others u)"
  shows "sched_inv t"
proof -
  let ?u = "set_proc p ((procs s p)\<lparr>p_context := (p_context (procs s p))\<lparr>cx_eip := InSched\<rparr>\<rparr>) s"
  have "sched_inv ?u" by (rule sched_inv_set_proc [OF assms(2)]) simp_all
  then have "sched_inv (others ?u)" using assms(3) by blast
  moreover have "sched_inv ((others ?u)\<lparr>switches := k\<rparr>) = sched_inv (others ?u)" for k by (rule sched_inv_cong) simp_all
  ultimately show ?thesis
    using assms(1) by (auto simp: swtch_def resumed_def bnd_eq_Inr Let_def split: if_splits)
qed

lemma yield_inv:
  assumes "sched_inv s" "may_call c p DoYield s" "\<forall>u. sched_inv u \<longrightarrow> sched_inv (others u)" "yield others s = Inr t"
  shows "sched_inv t"
proof -
  have y: "cpu_ok c s" "depth c s = 0" "free_lock PtableLock s" "cproc (cpus s c) = Some p" "p < NPROC" "p_state (procs s p) = RUNNING"
    using assms(2) by simp_all
  obtain u where u: "bnd (swtch others p (made_runnable p (locked_by c PtableLock s))) (resumed True) = Inr u" "release PtableLock u = Inr t"
    using assms(4) unfolding yield_eq(1) [OF assms(1) y] by (auto simp: bnd_eq_Inr)
  show ?thesis by (rule locks_keep_inv(2) [OF u(2) switch_inv [OF u(1) yield_eq(2) [OF assms(1) y] assms(3)]])
qed

lemma sleep_inv:
  assumes "sched_inv s" "may_call c p (DoSleep ch lk) s" "\<forall>u. sched_inv u \<longrightarrow> sched_inv (others u)" "sleep others ch lk s = Inr t"
  shows "sched_inv t"
proof -
  have m: "may_sleep c lk p s" "p_state (procs s p) = RUNNING" using assms(2) by simp_all
  let ?l = "if lk \<noteq> PtableLock then unlocked_by c lk (locked_by c PtableLock s) else s"
  have "sched_inv ?l" "procs ?l = procs s" using assms(1) by (simp_all add: lock_simps)
  then have "sched_inv (asleep c lk p ch s)"
    unfolding asleep_def by (intro sched_inv_set_proc) (use m(2) in \<open>simp_all del: if_split\<close>)
  moreover obtain u where u: "bnd (swtch others p (asleep c lk p ch s)) (resumed (intena (cpus (asleep c lk p ch s) c))) = Inr u"
    "sleep_end lk p u = Inr t"
    using assms(4) unfolding sleep_eq [OF m(1)] by (auto simp: bnd_eq_Inr)
  ultimately have "sched_inv u" using switch_inv assms(3) by blast
  then have "sched_inv (set_proc p ((procs u p)\<lparr>p_chan := NoChan\<rparr>) u)" by (rule sched_inv_set_proc) simp_all
  then show ?thesis using u(2) by (auto simp: sleep_end_def bnd_eq_Inr Let_def split: if_splits dest!: locks_keep_inv)
qed

lemma pass_inv:
  assumes "sched_inv s" "may_call c p DoPass s" "\<forall>q u. sched_inv u \<longrightarrow> sched_inv (run q u)" "scheduler_round run c s = Inr t"
  shows "sched_inv t"
proof -
  have m: "cpu_ok c s" "int_flag s" "free_lock PtableLock s" "\<not> first_time s" "stacks_ok s" using assms(2) by simp_all
  from assms(1) m show ?thesis
  proof (cases rule: scheduler_round_eq [where run = run])
    case idle
    then show ?thesis using assms(1,4) by simp
  next
    case (serve q pr)
    let ?u = "run q (dispatched c q pr (locked_by c PtableLock s))"
    have "sched_inv ?u" using assms(3) serve(8) by blast
    moreover have "sched_inv (switchkvm ?u) = sched_inv ?u" by (rule sched_inv_cong) (simp_all add: switchkvm_def lcr3_def)
    ultimately show ?thesis using assms(4) serve(7) by (auto simp: after_run_def Let_def dest!: locks_keep_inv(2))
  qed
qed

lemma kalloc_keeps_table:
  "kalloc s = Inr (k, t) \<Longrightarrow> procs t = procs s \<and> pqueues t = pqueues s \<and> head_tail t = head_tail s"
  by (auto simp: kalloc_def kmem_acquire_def kmem_release_def bnd_eq_Inr Let_def split: if_splits dest!: locks_keep_table)

text \<open>A process that is not in the queues changes, but does not become \<open>RUNNABLE\<close>.\<close>

definition off_queue :: "nat \<Rightarrow> 'z proc_state_scheme \<Rightarrow> bool" where
  "off_queue p s \<longleftrightarrow> sched_inv s \<and> p_state (procs s p) \<noteq> RUNNABLE"

lemma off_queue_set:
  "off_queue p s \<Longrightarrow> p_state v \<noteq> RUNNABLE \<Longrightarrow> p_priority v = p_priority (procs s p) \<Longrightarrow> off_queue p (set_proc p v s)"
  using sched_inv_set_proc [of s v p] by (simp add: off_queue_def frames)

lemma off_queue_cong:
  "procs t = procs s \<and> pqueues t = pqueues s \<and> head_tail t = head_tail s \<Longrightarrow> off_queue p s \<Longrightarrow> off_queue p t"
  using sched_inv_cong [of t s] by (simp add: off_queue_def)

lemma allocproc_inv:
  assumes "sched_inv s" "allocproc s = Inr (r, t)"
  shows "sched_inv t"
proof -
  obtain u where u: "acquire PtableLock s = Inr u" using assms(2) by (auto simp: allocproc_def bnd_eq_Inr)
  then have iu: "sched_inv u" using locks_keep_inv(1) assms(1) by blast
  show ?thesis
  proof (cases "find (\<lambda>p. p_state (procs u p) = UNUSED) [0..<NPROC]")
    case None
    then show ?thesis using assms(2) u iu by (auto simp: allocproc_def bnd_eq_Inr dest!: locks_keep_inv(2))
  next
    case (Some p)
    then have "p_state (procs u p) = UNUSED" by (simp add: find_upt_Some)
    then have ou: "off_queue p u" using iu by (simp add: off_queue_def)
    define v1 where "v1 = set_proc p ((procs u p)\<lparr>p_state := EMBRYO\<rparr>) u"
    define v2 where "v2 = set_proc p ((procs v1 p)\<lparr>p_pid := nextpid v1\<rparr>) v1"
    define v where "v = v2\<lparr>nextpid := nextpid v2 + 1\<rparr>"
    have st: "p_state (procs v1 p) = EMBRYO" by (simp add: v1_def frames)
    have "off_queue p v1" unfolding v1_def by (rule off_queue_set [OF ou]) simp_all
    then have "off_queue p v2" unfolding v2_def by (rule off_queue_set) (simp_all add: st)
    then have "off_queue p v" by (rule off_queue_cong [rotated]) (simp add: v_def)
    moreover obtain w k x where w: "release PtableLock v = Inr w" "kalloc w = Inr (k, x)"
      using assms(2) u Some by (auto simp: allocproc_def bnd_eq_Inr Let_def v_def v2_def v1_def)
    ultimately have ox: "off_queue p x" using off_queue_cong kalloc_keeps_table locks_keep_table(2) by blast
    define y where "y = set_proc p ((procs x p)\<lparr>p_kstack := k\<rparr>) x"
    have oy: "off_queue p y" unfolding y_def by (rule off_queue_set [OF ox]) (use ox in \<open>simp_all add: off_queue_def\<close>)
    define z1 where "z1 = set_proc p ((procs y p)\<lparr>p_context := \<lparr>cx_edi = 0, cx_esi = 0, cx_ebx = 0, cx_ebp = 0, cx_eip = AtForkret\<rparr>\<rparr>) y"
    define z where "z = set_proc p ((procs z1 p)\<lparr>p_mux_ptrs := (\<lambda>i. if i < MUX_MAXNUM then None else p_mux_ptrs (procs z1 p) i)\<rparr>) z1"
    have o1: "off_queue p z1" unfolding z1_def by (rule off_queue_set [OF oy]) (use oy in \<open>simp_all add: off_queue_def\<close>)
    have "off_queue p z" unfolding z_def by (rule off_queue_set [OF o1]) (use o1 in \<open>simp_all add: off_queue_def\<close>)
    moreover have "off_queue p (set_proc p ((procs y p)\<lparr>p_state := UNUSED\<rparr>) y)" by (rule off_queue_set [OF oy]) simp_all
    moreover have "t = (if k = 0 then set_proc p ((procs y p)\<lparr>p_state := UNUSED\<rparr>) y else z)"
      using assms(2) u Some w
      by (cases "k = 0") (simp_all add: allocproc_def Let_def v1_def [symmetric] v2_def [symmetric] v_def [symmetric] y_def z1_def z_def cong: if_cong)
    ultimately show ?thesis by (simp add: off_queue_def)
  qed
qed

lemma wake_waiter_inv:
  assumes "cpu_ok c u" "free_lock PtableLock u" "sched_inv u" "asleep_waiter (Some q) u" "make_eligible q u = Inr t"
  shows "sched_inv t"
proof -
  have q: "q < NPROC" "p_state (procs u q) \<noteq> RUNNABLE" using assms(4) by (simp_all add: asleep_waiter_def)
  show ?thesis using make_eligible_eq [OF assms(1-3) q] make_runnable(2) [OF assms(3) q] assms(5) by simp
qed

lemma munlock_inv:
  assumes "sched_inv s" "may_call c p (DoMunlock x) s" "sys_munlock x s = Inr (r, t)"
  shows "sched_inv t"
proof -
  obtain i m where m: "mux_call c p i m s" and w: "asleep_waiter (wqueue s 0) s" using assms(2) by auto
  note d = mux_callD [OF m]
  show ?thesis
  proof (cases "m_state (muxes s m) = 1")
    case True
    let ?u = "(mux_state m 0 s)\<lparr>wqueue := shift_left WQSIZE 0 (wqueue s)\<rparr>"
    have u: "cpu_ok c ?u" "free_lock PtableLock ?u" "sched_inv ?u" "procs ?u = procs s"
      using d assms(1) by (simp_all add: lock_simps)
    show ?thesis
    proof (cases "wqueue s 0")
      case None
      then show ?thesis using assms(1,3) by (auto simp: munlock_eq [OF m True] lock_simps)
    next
      case (Some q)
      then have "asleep_waiter (Some q) ?u" using w u(4) by (simp add: asleep_waiter_def)
      moreover have "make_eligible q ?u = Inr t" using assms(3) Some by (auto simp: munlock_eq [OF m True] bnd_eq_Inr)
      ultimately show ?thesis using wake_waiter_inv [OF u(1-3)] by blast
    qed
  next
    case False
    then show ?thesis using assms(1,3) d by (simp add: sys_munlock_def mux_arg [OF m] Let_def)
  qed
qed

lemma signalcv_inv:
  assumes "sched_inv s" "may_call c p (DoSignalcv x) s" "sys_signalcv x s = Inr (r, t)"
  shows "sched_inv t"
proof -
  obtain i m where m: "mux_call c p i m s" and w: "asleep_waiter (m_cv (muxes s m) 0) s" using assms(2) by auto
  note d = mux_callD [OF m]
  show ?thesis
  proof (cases "m_state (muxes s m) = 1")
    case True
    let ?u = "set_mux m ((muxes s m)\<lparr>m_cv := shift_left WQSIZE 0 (m_cv (muxes s m))\<rparr>) s"
    have u: "cpu_ok c ?u" "free_lock PtableLock ?u" "sched_inv ?u" "procs ?u = procs s"
      using d assms(1) by (simp_all add: lock_simps)
    show ?thesis
    proof (cases "m_cv (muxes s m) 0")
      case None
      then show ?thesis using assms(1,3) by (simp add: signalcv_eq [OF m True])
    next
      case (Some q)
      then have "asleep_waiter (Some q) ?u" using w u(4) by (simp add: asleep_waiter_def)
      moreover have "make_eligible q ?u = Inr t" using assms(3) Some by (auto simp: signalcv_eq [OF m True] bnd_eq_Inr)
      ultimately show ?thesis using wake_waiter_inv [OF u(1-3)] by blast
    qed
  next
    case False
    then show ?thesis using assms(1,3) d by (simp add: sys_signalcv_def mux_arg [OF m] Let_def)
  qed
qed

lemma prio_set_inv:
  assumes "sched_inv s" "may_call c p (DoPrioSet x y) s" "sys_prio_set x y s = Inr (r, t)"
  shows "sched_inv t"
proof -
  obtain pid priority where m: "prio_call c p pid priority s" "0 \<le> sint priority" using assms(2) by auto
  then have "t = s \<or> (\<exists>q. t = set_priority q priority s) \<and> sint priority < PRIO_MAX"
    using assms(3) by (auto simp: prio_set_eq [OF m(1)] bnd_eq_Inr split: if_splits option.splits simp del: ancestor_walk.simps)
  then show ?thesis using assms(1) m(2) reprio_inv [of s priority] by (auto simp: set_priority_def)
qed

lemma call_keeps_inv:
  assumes "sched_inv s" "may_call c p k s" "\<forall>u. sched_inv u \<longrightarrow> sched_inv (others u)" "\<forall>q u. sched_inv u \<longrightarrow> sched_inv (run q u)"
    and "call_result others run c k s = Inr t"
  shows "sched_inv t"
proof (cases k)
  case DoAllocproc
  then show ?thesis using assms(5) allocproc_inv [OF assms(1)] by (auto simp: bnd_eq_Inr)
next
  case (DoWakeup ch)
  then show ?thesis using assms wakeup_all [OF assms(1), of c ch] by auto
next
  case (DoKill pid)
  then have d: "cpu_ok c s" "free_lock PtableLock s" "\<exists>r. kill pid s = Inr (r, t)" using assms(2,5) by (auto simp: bnd_eq_Inr)
  from assms(1) d(1,2) show ?thesis by (cases rule: kill_cases [where pid = pid]) (use d(3) assms(1) in auto)
next
  case DoYield
  then show ?thesis using yield_inv [OF assms(1) _ assms(3)] assms(2,5) by (metis call_result.simps(4))
next
  case (DoSleep ch lk)
  then show ?thesis using sleep_inv [OF assms(1) _ assms(3)] assms(2,5) by (metis call_result.simps(5))
next
  case DoPass
  then show ?thesis using pass_inv [OF assms(1) _ assms(4)] assms(2,5) by (metis call_result.simps(6))
next
  case (DoMunlock x)
  then show ?thesis using munlock_inv [OF assms(1) assms(2) [unfolded DoMunlock]] assms(5) by (auto simp: bnd_eq_Inr)
next
  case (DoSignalcv x)
  then show ?thesis using signalcv_inv [OF assms(1) assms(2) [unfolded DoSignalcv]] assms(5) by (auto simp: bnd_eq_Inr)
next
  case (DoPrioSet x y)
  then show ?thesis using prio_set_inv [OF assms(1) assms(2) [unfolded DoPrioSet]] assms(5) by (auto simp: bnd_eq_Inr)
qed

text \<open>
  A sequence of such calls on any CPUs, by any processes. Between two of them anything may happen
  that leaves the process table and the queues as they are, and while a caller is off the CPU
  anything that keeps the invariant.
\<close>

inductive sched_run :: "'z sync_state_scheme \<Rightarrow> 'z sync_state_scheme \<Rightarrow> bool" for s where
  start: "sched_run s s"
| call: "sched_run s t \<Longrightarrow> may_call c p k t \<Longrightarrow> \<forall>u. sched_inv u \<longrightarrow> sched_inv (others u) \<Longrightarrow>
    \<forall>q u. sched_inv u \<longrightarrow> sched_inv (run q u) \<Longrightarrow> call_result others run c k t = Inr u \<Longrightarrow> sched_run s u"
| elsewhere: "sched_run s t \<Longrightarrow> procs u = procs t \<Longrightarrow> pqueues u = pqueues t \<Longrightarrow> head_tail u = head_tail t \<Longrightarrow> sched_run s u"

lemma sched_run_inv: "sched_run s t \<Longrightarrow> sched_inv s \<Longrightarrow> sched_inv t"
  by (induction rule: sched_run.induct) (auto intro: call_keeps_inv sched_inv_cong [THEN iffD2])

text \<open>C2. Along every sequence of calls of \<open>allocproc\<close>, \<open>wakeup\<close>, \<open>kill\<close>, \<open>yield\<close>, \<open>sleep\<close>, \<open>munlock\<close>, \<open>signalcv\<close>,
  \<open>prio_set\<close> and passes of the scheduler, the queues hold each \<open>RUNNABLE\<close> process exactly once and
  nothing else; hence no ring is ever full, and whenever a process is \<open>RUNNABLE\<close> the scheduler's
  dequeue returns one that is. Three cases are excluded, in which the code breaks this: the first
  pass of the scheduler, a waiter that \<open>munlock\<close> or \<open>signalcv\<close> finds not asleep, and a negative priority.\<close>

theorem runnable_queued_once:
  assumes "sched_run s t" and "sched_inv s"
  shows "distinct (entries t) \<and> set (entries t) = Some ` runnable t
    \<and> (\<forall>pr. 0 \<le> pr \<longrightarrow> pr < PRIO_MAX \<longrightarrow> length (pq_items t pr) < 99)
    \<and> (if runnable t = {} then pq_dequeue t = Inr (NULL, t)
       else \<exists>p u. pq_dequeue t = Inr (Entry (Some p), u) \<and> p \<in> runnable t)"
proof -
  have inv: "sched_inv t" by (rule sched_run_inv [OF assms])
  then have "if runnable t = {} then pq_dequeue t = Inr (NULL, t)
       else \<exists>p u. pq_dequeue t = Inr (Entry (Some p), u) \<and> p \<in> runnable t"
    by (cases rule: dequeue_inv) auto
  with inv sched_inv_room [OF inv] show ?thesis by (simp add: sched_inv_def)
qed

text \<open>Process 0 unlocks the mutex for which processes 1 and 2 wait, then wakes process 2 through the channel it sleeps on.\<close>

theorem runnable_queued_once_witness:
  "\<exists>t u. sys_munlock 0 (mux_demo 1 two_waiting (\<lambda>_. None)) = Inr (1, t) \<and> wakeup ChTicks t = Inr u
    \<and> distinct (entries u) \<and> set (entries u) = Some ` runnable u"
proof -
  let ?s = "mux_demo 1 two_waiting (\<lambda>_. None)"
  note d = mux_callD [OF mux_demo_ok(1), of 1 two_waiting "\<lambda>_. None"]
  have w: "asleep_waiter (Some 1) ((mux_state 2 0 ?s)\<lparr>wqueue := shift_left WQSIZE 0 two_waiting\<rparr>)"
    by (simp add: asleep_waiter_def NPROC_def lock_simps)
  let ?t = "made_runnable 1 ((mux_state 2 0 ?s)\<lparr>wqueue := shift_left WQSIZE 0 two_waiting\<rparr>)"
  have t: "sys_munlock 0 ?s = Inr (1, ?t)"
    using make_eligible_eq [of 0 "(mux_state 2 0 ?s)\<lparr>wqueue := shift_left WQSIZE 0 two_waiting\<rparr>" 1] w d mux_demo_ok(2)
    by (simp add: munlock_eq [OF mux_demo_ok(1)] waiting_queues asleep_waiter_def lock_simps)
  have m: "may_call 0 0 (DoMunlock 0) ?s" "may_call 0 0 (DoWakeup ChTicks) ?t"
    using exI [of "\<lambda>i. \<exists>m. mux_call 0 0 i m ?s", OF exI, OF mux_demo_ok(1)] d
    by (simp_all add: asleep_waiter_def waiting_queues NPROC_def lock_simps)
  have id: "\<forall>u. sched_inv u \<longrightarrow> sched_inv (id u :: sync_state)" "\<forall>q u. sched_inv u \<longrightarrow> sched_inv ((\<lambda>_. id) (q :: nat) u :: sync_state)"
    by simp_all
  have r: "sched_run ?s ?t" by (rule sched_run.call [OF sched_run.start m(1) id]) (simp add: t)
  then obtain u where u: "wakeup ChTicks ?t = Inr u" using wakeup_all [of ?t 0 ChTicks] sched_run_inv [OF r mux_demo_ok(2)] m(2) by auto
  have "sched_run ?s u" by (rule sched_run.call [OF r m(2) id]) (simp only: call_result.simps u)
  from runnable_queued_once [OF this mux_demo_ok(2)] t u show ?thesis by blast
qed

end
