(* ===== verification/Blocks.thy ===== *)
theory Blocks
  imports Memory
begin

text \<open>
  The contents of a disk block: a list of 512 bytes, in which the code lays integers and
  structures by casting the pointer to the data.
\<close>

definition BSIZE :: nat where "BSIZE = 512"

definition get16 :: "uchar list \<Rightarrow> nat \<Rightarrow> ushort" where
  "get16 d i = ucast (d ! i) OR push_bit 8 (ucast (d ! (i + 1)))"

definition put16 :: "uchar list \<Rightarrow> nat \<Rightarrow> ushort \<Rightarrow> uchar list" where
  "put16 d i v = d[i := ucast v, i + 1 := ucast (drop_bit 8 v)]"

definition get32 :: "uchar list \<Rightarrow> nat \<Rightarrow> uint" where
  "get32 d i = ucast (d ! i) OR push_bit 8 (ucast (d ! (i + 1)))
     OR push_bit 16 (ucast (d ! (i + 2))) OR push_bit 24 (ucast (d ! (i + 3)))"

definition put32 :: "uchar list \<Rightarrow> nat \<Rightarrow> uint \<Rightarrow> uchar list" where
  "put32 d i v = d[i := ucast v, i + 1 := ucast (drop_bit 8 v),
     i + 2 := ucast (drop_bit 16 v), i + 3 := ucast (drop_bit 24 v)]"

lemma length_put [simp]: "length (put16 d i v) = length d" "length (put32 d i w) = length d"
  by (simp_all add: put16_def put32_def)

lemma word16_of_bytes:
  "ucast (ucast v :: uchar) OR push_bit 8 (ucast (ucast (drop_bit 8 v) :: uchar)) = (v :: ushort)"
proof (rule bit_word_eqI)
  fix n :: nat
  assume n: "n < LENGTH(16)"
  consider "n < 8" | "8 \<le> n" by linarith
  then show "bit (ucast (ucast v :: uchar) OR push_bit 8 (ucast (ucast (drop_bit 8 v) :: uchar)) :: ushort) n = bit v n"
    by cases (use n in \<open>auto simp: bit_simps\<close>)
qed

lemma get16_put16: "i + 1 < length d \<Longrightarrow> get16 (put16 d i v) i = v"
  by (simp add: get16_def put16_def word16_of_bytes)

lemma get32_put32: "i + 3 < length d \<Longrightarrow> get32 (put32 d i v) i = v"
  by (simp add: get32_def put32_def word32_of_bytes)

lemma put32_other: "j < i \<or> i + 4 \<le> j \<Longrightarrow> put32 d i v ! j = d ! j"
  by (elim disjE) (simp_all add: put32_def)

lemma get32_put32_other: "j + 4 \<le> i \<or> i + 4 \<le> j \<Longrightarrow> get32 (put32 d i v) j = get32 d j"
  by (elim disjE) (simp_all add: get32_def put32_other)

lemma put16_other: "j < i \<or> i + 2 \<le> j \<Longrightarrow> put16 d i v ! j = d ! j"
  by (elim disjE) (simp_all add: put16_def)

lemma get16_put16_other: "j + 2 \<le> i \<or> i + 2 \<le> j \<Longrightarrow> get16 (put16 d i v) j = get16 d j"
  by (elim disjE) (simp_all add: get16_def put16_other)

lemma get16_put32_other: "j + 2 \<le> i \<or> i + 4 \<le> j \<Longrightarrow> get16 (put32 d i v) j = get16 d j"
  by (elim disjE) (simp_all add: get16_def put32_other)

lemma get32_put16_other: "j + 4 \<le> i \<or> i + 2 \<le> j \<Longrightarrow> get32 (put16 d i v) j = get32 d j"
  by (elim disjE) (simp_all add: get32_def put16_other)

lemmas block_simps = get16_put16 get32_put32 get32_put32_other get16_put16_other get16_put32_other
  get32_put16_other

end
