(* ===== verification/Bio.thy ===== *)
theory Bio
  imports Sync Blocks
begin

text \<open>
  Sleep locks (\<open>sleeplock.c\<close>), the buffer cache (\<open>bio.c\<close>) and the in-memory disk
  (\<open>memide.c\<close>). The cache is a doubly linked list through the entries of the array, headed
  by a node of its own, here index \<open>NBUF\<close>.
\<close>

section \<open>State\<close>

record sleeplock =
  sl_locked :: bool
  sl_name :: string
  sl_pid :: int

definition NBUF :: nat where "NBUF = 30"
definition B_VALID :: uint where "B_VALID = 2"
definition B_DIRTY :: uint where "B_DIRTY = 4"

record buf =
  b_flags :: uint
  b_dev :: uint
  b_blockno :: uint
  b_refcnt :: uint
  b_prev :: nat
  b_next :: nat
  b_qnext :: "nat option"
  b_data :: "uchar list"

record bio_state = sync_state +
  sleeplocks :: "sleepid \<Rightarrow> sleeplock"
  bufs :: "nat \<Rightarrow> buf"
  memdisk :: "uint \<Rightarrow> uchar list"
  disksize :: uint

text \<open>
  The buffer that an operation copies bytes to or from. A sink stores bytes at an offset of the
  buffer, a source reads a number of bytes at an offset; both see the state at the moment of the
  copy. A buffer in a kernel variable keeps the bytes in the result instead.
\<close>

type_synonym 's sink = "nat \<Rightarrow> uchar list \<Rightarrow> 's \<Rightarrow> 's result"
type_synonym 's source = "nat \<Rightarrow> nat \<Rightarrow> 's \<Rightarrow> uchar list result"

definition keep :: "'s sink" where
  "keep i bs s = Inr s"

definition from_bytes :: "uchar list \<Rightarrow> 's source" where
  "from_bytes bs i n s = Inr (take n (drop i bs))"

definition to_user :: "uint \<Rightarrow> 'z vm_state_scheme sink" where
  "to_user addr i bs s = store_bytes (addr + of_nat i) bs s"

definition from_user :: "uint \<Rightarrow> 'z vm_state_scheme source" where
  "from_user addr i n s = load_bytes (addr + of_nat i) n s"

text \<open>
  What the routines above the cache depend on: what the rest of the system does while a
  thread is off the CPU; the disk driver, of which the repository has two; and the table
  \<open>devsw\<close> of the read and write routines of character devices, by major number, which the
  console's initialisation fills.
\<close>

record 's env =
  e_others :: "'s \<Rightarrow> 's"
  e_iderw :: "nat \<Rightarrow> 's \<Rightarrow> 's result"
  e_devread :: "int \<Rightarrow> (nat \<Rightarrow> 's sink \<Rightarrow> uint \<Rightarrow> 's \<Rightarrow> ((int \<times> uchar list) \<times> 's) result) option"
  e_devwrite :: "int \<Rightarrow> (nat \<Rightarrow> 's source \<Rightarrow> uint \<Rightarrow> 's \<Rightarrow> (int \<times> 's) result) option"

definition set_sleeplock :: "sleepid \<Rightarrow> sleeplock \<Rightarrow> 'z bio_state_scheme \<Rightarrow> 'z bio_state_scheme" where
  "set_sleeplock l v s = s\<lparr>sleeplocks := (sleeplocks s)(l := v)\<rparr>"

definition set_buf :: "nat \<Rightarrow> buf \<Rightarrow> 'z bio_state_scheme \<Rightarrow> 'z bio_state_scheme" where
  "set_buf b v s = s\<lparr>bufs := (bufs s)(b := v)\<rparr>"

section \<open>Sleep locks\<close>

definition initsleeplock :: "sleepid \<Rightarrow> string \<Rightarrow> 'z bio_state_scheme \<Rightarrow> 'z bio_state_scheme" where
  "initsleeplock l nm s =
     set_sleeplock l \<lparr>sl_locked = False, sl_name = nm, sl_pid = 0\<rparr> (initlock (SleepLk l) ''sleep lock'' s)"

function acquiresleep_loop ::
  "('z bio_state_scheme \<Rightarrow> 'z bio_state_scheme) \<Rightarrow> sleepid \<Rightarrow> 'z bio_state_scheme \<Rightarrow> 'z bio_state_scheme result"
where
  "acquiresleep_loop others l s =
     (if sl_locked (sleeplocks s l) then
        bnd (sleep others (ChSleep l) (SleepLk l) s) (\<lambda>s. acquiresleep_loop others l s)
      else Inr s)"
  by pat_completeness auto
termination
  by (relation "measure (\<lambda>(others, l, s). switches s)") (auto dest!: sleep_switches)

declare acquiresleep_loop.simps [simp del]

definition acquiresleep ::
  "('z bio_state_scheme \<Rightarrow> 'z bio_state_scheme) \<Rightarrow> sleepid \<Rightarrow> 'z bio_state_scheme \<Rightarrow> 'z bio_state_scheme result"
where
  "acquiresleep others l s =
     bnd (acquire (SleepLk l) s) (\<lambda>s.
     bnd (acquiresleep_loop others l s) (\<lambda>s.
     let s = set_sleeplock l ((sleeplocks s l)\<lparr>sl_locked := True\<rparr>) s in
     bnd (curproc s) (\<lambda>(p, s).
     let s = set_sleeplock l ((sleeplocks s l)\<lparr>sl_pid := p_pid (procs s p)\<rparr>) s in
     release (SleepLk l) s)))"

definition releasesleep :: "sleepid \<Rightarrow> 'z bio_state_scheme \<Rightarrow> 'z bio_state_scheme result" where
  "releasesleep l s =
     bnd (acquire (SleepLk l) s) (\<lambda>s.
     let s = set_sleeplock l ((sleeplocks s l)\<lparr>sl_locked := False\<rparr>) s;
         s = set_sleeplock l ((sleeplocks s l)\<lparr>sl_pid := 0\<rparr>) s in
     bnd (wakeup (ChSleep l) s) (\<lambda>s.
     release (SleepLk l) s))"

definition holdingsleep :: "sleepid \<Rightarrow> 'z bio_state_scheme \<Rightarrow> (bool \<times> 'z bio_state_scheme) result" where
  "holdingsleep l s =
     bnd (acquire (SleepLk l) s) (\<lambda>s.
     let r = sl_locked (sleeplocks s l) in
     bnd (release (SleepLk l) s) (\<lambda>s. Inr (r, s)))"

section \<open>The buffer cache\<close>

definition binit_buf :: "nat \<Rightarrow> 'z bio_state_scheme \<Rightarrow> 'z bio_state_scheme" where
  "binit_buf b s =
     (let s = set_buf b ((bufs s b)\<lparr>b_next := b_next (bufs s NBUF)\<rparr>) s;
          s = set_buf b ((bufs s b)\<lparr>b_prev := NBUF\<rparr>) s;
          s = initsleeplock (BufLock b) ''buffer'' s;
          s = set_buf (b_next (bufs s NBUF)) ((bufs s (b_next (bufs s NBUF)))\<lparr>b_prev := b\<rparr>) s in
      set_buf NBUF ((bufs s NBUF)\<lparr>b_next := b\<rparr>) s)"

definition binit :: "'z bio_state_scheme \<Rightarrow> 'z bio_state_scheme" where
  "binit s =
     (let s = initlock BcacheLock ''bcache'' s;
          s = set_buf NBUF ((bufs s NBUF)\<lparr>b_prev := NBUF\<rparr>) s;
          s = set_buf NBUF ((bufs s NBUF)\<lparr>b_next := NBUF\<rparr>) s in
      fold binit_buf [0..<NBUF] s)"

text \<open>
  A scan along the links, until it is back at the head. The list has \<open>NBUF + 1\<close> nodes; a longer
  scan goes round a cycle without the head.
\<close>

fun scan_bufs :: "nat \<Rightarrow> (nat \<Rightarrow> nat) \<Rightarrow> (nat \<Rightarrow> bool) \<Rightarrow> nat \<Rightarrow> nat option result" where
  "scan_bufs 0 link P b = Inl Spin"
| "scan_bufs (Suc n) link P b =
     (if b = NBUF then Inr None else if P b then Inr (Some b) else scan_bufs n link P (link b))"

definition bget ::
  "'z bio_state_scheme env \<Rightarrow> uint \<Rightarrow> uint \<Rightarrow> 'z bio_state_scheme \<Rightarrow> (nat \<times> 'z bio_state_scheme) result"
where
  "bget ev dev blockno s =
     bnd (acquire BcacheLock s) (\<lambda>s.
     bnd (scan_bufs (NBUF + 1) (\<lambda>b. b_next (bufs s b))
            (\<lambda>b. b_dev (bufs s b) = dev \<and> b_blockno (bufs s b) = blockno) (b_next (bufs s NBUF))) (\<lambda>hit.
     case hit of
       Some b \<Rightarrow>
         let s = set_buf b ((bufs s b)\<lparr>b_refcnt := b_refcnt (bufs s b) + 1\<rparr>) s in
         bnd (release BcacheLock s) (\<lambda>s.
         bnd (acquiresleep (e_others ev) (BufLock b) s) (\<lambda>s. Inr (b, s)))
     | None \<Rightarrow>
         bnd (scan_bufs (NBUF + 1) (\<lambda>b. b_prev (bufs s b))
                (\<lambda>b. b_refcnt (bufs s b) = 0 \<and> b_flags (bufs s b) AND B_DIRTY = 0) (b_prev (bufs s NBUF))) (\<lambda>free.
         case free of
           Some b \<Rightarrow>
             let s = set_buf b ((bufs s b)\<lparr>b_dev := dev, b_blockno := blockno, b_flags := 0, b_refcnt := 1\<rparr>) s in
             bnd (release BcacheLock s) (\<lambda>s.
             bnd (acquiresleep (e_others ev) (BufLock b) s) (\<lambda>s. Inr (b, s)))
         | None \<Rightarrow> Inl (Panic ''bget: no buffers''))))"

definition bread ::
  "'z bio_state_scheme env \<Rightarrow> uint \<Rightarrow> uint \<Rightarrow> 'z bio_state_scheme \<Rightarrow> (nat \<times> 'z bio_state_scheme) result"
where
  "bread ev dev blockno s =
     bnd (bget ev dev blockno s) (\<lambda>(b, s).
     if b_flags (bufs s b) AND B_VALID = 0 then bnd (e_iderw ev b s) (\<lambda>s. Inr (b, s)) else Inr (b, s))"

definition bwrite :: "'z bio_state_scheme env \<Rightarrow> nat \<Rightarrow> 'z bio_state_scheme \<Rightarrow> 'z bio_state_scheme result" where
  "bwrite ev b s =
     bnd (holdingsleep (BufLock b) s) (\<lambda>(h, s).
     if \<not> h then Inl (Panic ''bwrite'')
     else e_iderw ev b (set_buf b ((bufs s b)\<lparr>b_flags := b_flags (bufs s b) OR B_DIRTY\<rparr>) s))"

text \<open>The moves of a buffer to the front of the list, in the order of the assignments.\<close>

definition unlink_front :: "nat \<Rightarrow> 'z bio_state_scheme \<Rightarrow> 'z bio_state_scheme" where
  "unlink_front b s =
     (let n = b_next (bufs s b); s = set_buf n ((bufs s n)\<lparr>b_prev := b_prev (bufs s b)\<rparr>) s;
          p = b_prev (bufs s b); s = set_buf p ((bufs s p)\<lparr>b_next := b_next (bufs s b)\<rparr>) s;
          s = set_buf b ((bufs s b)\<lparr>b_next := b_next (bufs s NBUF)\<rparr>) s;
          s = set_buf b ((bufs s b)\<lparr>b_prev := NBUF\<rparr>) s;
          f = b_next (bufs s NBUF); s = set_buf f ((bufs s f)\<lparr>b_prev := b\<rparr>) s in
      set_buf NBUF ((bufs s NBUF)\<lparr>b_next := b\<rparr>) s)"

definition brelse :: "nat \<Rightarrow> 'z bio_state_scheme \<Rightarrow> 'z bio_state_scheme result" where
  "brelse b s =
     bnd (holdingsleep (BufLock b) s) (\<lambda>(h, s).
     if \<not> h then Inl (Panic ''brelse'')
     else
       bnd (releasesleep (BufLock b) s) (\<lambda>s.
       bnd (acquire BcacheLock s) (\<lambda>s.
       let s = set_buf b ((bufs s b)\<lparr>b_refcnt := b_refcnt (bufs s b) - 1\<rparr>) s;
           s = (if b_refcnt (bufs s b) = 0 then unlink_front b s else s) in
       release BcacheLock s)))"

section \<open>The in-memory disk\<close>

definition memide_init :: "(uint \<Rightarrow> uchar list) \<Rightarrow> uint \<Rightarrow> 'z bio_state_scheme \<Rightarrow> 'z bio_state_scheme" where
  "memide_init img img_size s = s\<lparr>memdisk := img, disksize := img_size div of_nat BSIZE\<rparr>"

definition memide_rw :: "nat \<Rightarrow> 'z bio_state_scheme \<Rightarrow> 'z bio_state_scheme result" where
  "memide_rw b s =
     bnd (holdingsleep (BufLock b) s) (\<lambda>(h, s).
     if \<not> h then Inl (Panic ''iderw: buf not locked'')
     else if b_flags (bufs s b) AND (B_VALID OR B_DIRTY) = B_VALID then Inl (Panic ''iderw: nothing to do'')
     else if b_dev (bufs s b) \<noteq> 1 then Inl (Panic ''iderw: request not for disk 1'')
     else if disksize s \<le> b_blockno (bufs s b) then Inl (Panic ''iderw: block out of range'')
     else
       let blk = b_blockno (bufs s b);
           s = (if b_flags (bufs s b) AND B_DIRTY \<noteq> 0 then
                  let s = set_buf b ((bufs s b)\<lparr>b_flags := b_flags (bufs s b) AND NOT B_DIRTY\<rparr>) s in
                  s\<lparr>memdisk := (memdisk s)(blk := b_data (bufs s b))\<rparr>
                else set_buf b ((bufs s b)\<lparr>b_data := memdisk s blk\<rparr>) s) in
       Inr (set_buf b ((bufs s b)\<lparr>b_flags := b_flags (bufs s b) OR B_VALID\<rparr>) s))"

text \<open>The environment of a kernel on the in-memory disk, before a console is attached.\<close>

definition mem_env :: "('z bio_state_scheme \<Rightarrow> 'z bio_state_scheme) \<Rightarrow> 'z bio_state_scheme env" where
  "mem_env others = \<lparr>e_others = others, e_iderw = memide_rw, e_devread = (\<lambda>_. None), e_devwrite = (\<lambda>_. None)\<rparr>"

section \<open>A machine with an in-memory disk\<close>

text \<open>Every buffer is free and empty, in the order of the table; the disk has 1000 blocks of zeros.\<close>

definition bio_demo :: bio_state where
  "bio_demo = sync_state.extend (mux_demo 0 (\<lambda>_. None) (\<lambda>_. None))
     \<lparr>sleeplocks = (\<lambda>_. \<lparr>sl_locked = False, sl_name = [], sl_pid = 0\<rparr>),
      bufs = (\<lambda>b. \<lparr>b_flags = 0, b_dev = 0, b_blockno = 0, b_refcnt = 0, b_prev = (b + NBUF) mod (NBUF + 1),
                b_next = (b + 1) mod (NBUF + 1), b_qnext = None, b_data = replicate BSIZE 0\<rparr>),
      memdisk = (\<lambda>_. replicate BSIZE 0), disksize = 1000\<rparr>"

lemmas bio_demo_defs = bio_demo_def sync_state.defs

lemma bio_demo_ok: "cpu_ok 0 bio_demo" "free_lock l bio_demo" "sched_inv bio_demo" "cproc (cpus bio_demo c) = Some 0"
proof -
  show "sched_inv bio_demo"
    using mux_demo_ok(2) [of 0 "\<lambda>_. None" "\<lambda>_. None"] sched_inv_cong [of bio_demo "mux_demo 0 (\<lambda>_. None) (\<lambda>_. None)"]
    by (simp add: bio_demo_defs)
qed (simp_all add: cpu_ok_def this_cpu_def free_lock_def bio_demo_defs mux_demo_defs)

end
