(* ===== verification/Log.thy ===== *)
theory Log
  imports Bio
begin

text \<open>
  The redo log of \<open>log.c\<close>: transactions bracketed by \<open>begin_op\<close> and \<open>end_op\<close>, their commit, and
  recovery after a crash. The header block holds the number of logged blocks and their home
  block numbers, as 32-bit integers.
\<close>

section \<open>State\<close>

definition MAXOPBLOCKS :: int where "MAXOPBLOCKS = 10"
definition LOGSIZE :: int where "LOGSIZE = MAXOPBLOCKS * 3"

record superblock =
  sb_size :: uint
  sb_nblocks :: uint
  sb_ninodes :: uint
  sb_nlog :: uint
  sb_logstart :: uint
  sb_inodestart :: uint
  sb_bmapstart :: uint

record log_state = bio_state +
  lg_start :: int
  lg_size :: int
  lg_outstanding :: int
  lg_committing :: bool
  lg_dev :: uint
  lh_n :: int
  lh_block :: "int \<Rightarrow> int"

definition superblock_of :: "uchar list \<Rightarrow> superblock" where
  "superblock_of d = \<lparr>sb_size = get32 d 0, sb_nblocks = get32 d 4, sb_ninodes = get32 d 8, sb_nlog = get32 d 12,
     sb_logstart = get32 d 16, sb_inodestart = get32 d 20, sb_bmapstart = get32 d 24\<rparr>"

definition readsb ::
  "'z log_state_scheme env \<Rightarrow> uint \<Rightarrow> 'z log_state_scheme \<Rightarrow> (superblock \<times> 'z log_state_scheme) result"
where
  "readsb ev dev s =
     bnd (bread ev dev 1 s) (\<lambda>(b, s).
     let sb = superblock_of (b_data (bufs s b)) in
     bnd (brelse b s) (\<lambda>s. Inr (sb, s)))"

section \<open>Blocks of the log\<close>

definition set_data :: "nat \<Rightarrow> uchar list \<Rightarrow> 'z bio_state_scheme \<Rightarrow> 'z bio_state_scheme" where
  "set_data b d s = set_buf b ((bufs s b)\<lparr>b_data := d\<rparr>) s"

definition log_blockno :: "'z log_state_scheme \<Rightarrow> int \<Rightarrow> uint" where
  "log_blockno s tail = word_of_int (lg_start s + tail + 1)"

definition home_blockno :: "'z log_state_scheme \<Rightarrow> int \<Rightarrow> uint" where
  "home_blockno s tail = word_of_int (lh_block s tail)"

definition install_one :: "'z log_state_scheme env \<Rightarrow> int \<Rightarrow> 'z log_state_scheme \<Rightarrow> 'z log_state_scheme result" where
  "install_one ev tail s =
     bnd (bread ev (lg_dev s) (log_blockno s tail) s) (\<lambda>(lbuf, s).
     bnd (bread ev (lg_dev s) (home_blockno s tail) s) (\<lambda>(dbuf, s).
     let s = set_data dbuf (b_data (bufs s lbuf)) s in
     bnd (bwrite ev dbuf s) (\<lambda>s.
     bnd (brelse lbuf s) (\<lambda>s.
     brelse dbuf s))))"

definition install_trans :: "'z log_state_scheme env \<Rightarrow> 'z log_state_scheme \<Rightarrow> 'z log_state_scheme result" where
  "install_trans ev s = for_each (install_one ev) [0..lh_n s - 1] s"

text \<open>The header in a block: the count, then the block numbers.\<close>

definition head_n :: "uchar list \<Rightarrow> int" where
  "head_n d = sint (get32 d 0)"

definition head_block :: "uchar list \<Rightarrow> int \<Rightarrow> int" where
  "head_block d i = sint (get32 d (nat (4 + 4 * i)))"

definition read_head :: "'z log_state_scheme env \<Rightarrow> 'z log_state_scheme \<Rightarrow> 'z log_state_scheme result" where
  "read_head ev s =
     bnd (bread ev (lg_dev s) (word_of_int (lg_start s)) s) (\<lambda>(b, s).
     let d = b_data (bufs s b); s = s\<lparr>lh_n := head_n d\<rparr> in
     if LOGSIZE < lh_n s then Inl (Fault ''log.lh.block[i]'')
     else
       let s = s\<lparr>lh_block := (\<lambda>i. if 0 \<le> i \<and> i < lh_n s then head_block d i else lh_block s i)\<rparr> in
       brelse b s)"

fun put_head :: "int list \<Rightarrow> (int \<Rightarrow> int) \<Rightarrow> uchar list \<Rightarrow> uchar list" where
  "put_head [] blk d = d"
| "put_head (i # is) blk d = put_head is blk (put32 d (nat (4 + 4 * i)) (word_of_int (blk i)))"

definition write_head :: "'z log_state_scheme env \<Rightarrow> 'z log_state_scheme \<Rightarrow> 'z log_state_scheme result" where
  "write_head ev s =
     bnd (bread ev (lg_dev s) (word_of_int (lg_start s)) s) (\<lambda>(b, s).
     let d = put32 (b_data (bufs s b)) 0 (word_of_int (lh_n s));
         d = put_head [0..lh_n s - 1] (lh_block s) d;
         s = set_data b d s in
     bnd (bwrite ev b s) (\<lambda>s.
     brelse b s))"

definition recover_from_log :: "'z log_state_scheme env \<Rightarrow> 'z log_state_scheme \<Rightarrow> 'z log_state_scheme result" where
  "recover_from_log ev s =
     bnd (read_head ev s) (\<lambda>s.
     bnd (install_trans ev s) (\<lambda>s.
     write_head ev (s\<lparr>lh_n := 0\<rparr>)))"

definition initlog :: "'z log_state_scheme env \<Rightarrow> uint \<Rightarrow> 'z log_state_scheme \<Rightarrow> 'z log_state_scheme result" where
  "initlog ev dev s =
     (if int BSIZE \<le> 4 + 4 * LOGSIZE then Inl (Panic ''initlog: too big logheader'')
      else
        bnd (readsb ev dev (initlock LogLock ''log'' s)) (\<lambda>(sb, s).
        recover_from_log ev
          (s\<lparr>lg_start := sint (sb_logstart sb), lg_size := sint (sb_nlog sb), lg_dev := dev\<rparr>)))"

section \<open>Transactions\<close>

function begin_op_loop ::
  "('z log_state_scheme \<Rightarrow> 'z log_state_scheme) \<Rightarrow> 'z log_state_scheme \<Rightarrow> 'z log_state_scheme result"
where
  "begin_op_loop others s =
     (if lg_committing s then
        bnd (sleep others ChLog LogLock s) (\<lambda>s. begin_op_loop others s)
      else if LOGSIZE < lh_n s + (lg_outstanding s + 1) * MAXOPBLOCKS then
        bnd (sleep others ChLog LogLock s) (\<lambda>s. begin_op_loop others s)
      else release LogLock (s\<lparr>lg_outstanding := lg_outstanding s + 1\<rparr>))"
  by pat_completeness auto
termination
  by (relation "measure (\<lambda>(others, s). switches s)") (auto dest!: sleep_switches)

declare begin_op_loop.simps [simp del]

definition begin_op :: "('z log_state_scheme \<Rightarrow> 'z log_state_scheme) \<Rightarrow> 'z log_state_scheme \<Rightarrow> 'z log_state_scheme result" where
  "begin_op others s = bnd (acquire LogLock s) (\<lambda>s. begin_op_loop others s)"

definition write_log_one :: "'z log_state_scheme env \<Rightarrow> int \<Rightarrow> 'z log_state_scheme \<Rightarrow> 'z log_state_scheme result" where
  "write_log_one ev tail s =
     bnd (bread ev (lg_dev s) (log_blockno s tail) s) (\<lambda>(to, s).
     bnd (bread ev (lg_dev s) (home_blockno s tail) s) (\<lambda>(from, s).
     let s = set_data to (b_data (bufs s from)) s in
     bnd (bwrite ev to s) (\<lambda>s.
     bnd (brelse from s) (\<lambda>s.
     brelse to s))))"

definition write_log :: "'z log_state_scheme env \<Rightarrow> 'z log_state_scheme \<Rightarrow> 'z log_state_scheme result" where
  "write_log ev s = for_each (write_log_one ev) [0..lh_n s - 1] s"

definition commit :: "'z log_state_scheme env \<Rightarrow> 'z log_state_scheme \<Rightarrow> 'z log_state_scheme result" where
  "commit ev s =
     (if 0 < lh_n s then
        bnd (write_log ev s) (\<lambda>s.
        bnd (write_head ev s) (\<lambda>s.
        bnd (install_trans ev s) (\<lambda>s.
        write_head ev (s\<lparr>lh_n := 0\<rparr>))))
      else Inr s)"

definition end_op :: "'z log_state_scheme env \<Rightarrow> 'z log_state_scheme \<Rightarrow> 'z log_state_scheme result" where
  "end_op ev s =
     bnd (acquire LogLock s) (\<lambda>s.
     let s = s\<lparr>lg_outstanding := lg_outstanding s - 1\<rparr> in
     if lg_committing s then Inl (Panic ''log.committing'')
     else
       let do_commit = (lg_outstanding s = 0) in
       bnd (if do_commit then Inr (s\<lparr>lg_committing := True\<rparr>) else wakeup ChLog s) (\<lambda>s.
       bnd (release LogLock s) (\<lambda>s.
       if do_commit then
         bnd (commit ev s) (\<lambda>s.
         bnd (acquire LogLock s) (\<lambda>s.
         bnd (wakeup ChLog (s\<lparr>lg_committing := False\<rparr>)) (\<lambda>s.
         release LogLock s)))
       else Inr s)))"

definition log_write :: "nat \<Rightarrow> 'z log_state_scheme \<Rightarrow> 'z log_state_scheme result" where
  "log_write b s =
     (if LOGSIZE \<le> lh_n s \<or> lg_size s - 1 \<le> lh_n s then Inl (Panic ''too big a transaction'')
      else if lg_outstanding s < 1 then Inl (Panic ''log_write outside of trans'')
      else
        bnd (acquire LogLock s) (\<lambda>s.
        let blk = b_blockno (bufs s b);
            i = (case find (\<lambda>i. word_of_int (lh_block s i) = blk) [0..lh_n s - 1] of Some i \<Rightarrow> i | None \<Rightarrow> max 0 (lh_n s));
            s = s\<lparr>lh_block := (lh_block s)(i := sint blk)\<rparr>;
            s = (if i = lh_n s then s\<lparr>lh_n := lh_n s + 1\<rparr> else s);
            s = set_buf b ((bufs s b)\<lparr>b_flags := b_flags (bufs s b) OR B_DIRTY\<rparr>) s in
        release LogLock s))"

section \<open>Properties of transactions\<close>

text \<open>
  The block numbers in the header, and what keeps the header well formed: every block once, and
  no more than fit.
\<close>

definition logged :: "'z log_state_scheme \<Rightarrow> int list" where
  "logged s = map (lh_block s) [0..lh_n s - 1]"

definition log_ok :: "'z log_state_scheme \<Rightarrow> bool" where
  "log_ok s \<longleftrightarrow> 0 \<le> lh_n s \<and> lh_n s \<le> LOGSIZE \<and> distinct (logged s)
     \<and> list_all (\<lambda>b. sint (word_of_int b :: uint) = b) (logged s)"

text \<open>The states in which \<open>begin_op\<close> finds itself after each sleep, up to the one in which it need not wait.\<close>

definition log_busy :: "'z log_state_scheme \<Rightarrow> bool" where
  "log_busy s \<longleftrightarrow> lg_committing s \<or> LOGSIZE < lh_n s + (lg_outstanding s + 1) * MAXOPBLOCKS"

inductive log_waits ::
  "('z log_state_scheme \<Rightarrow> 'z log_state_scheme) \<Rightarrow> 'z log_state_scheme \<Rightarrow> 'z log_state_scheme \<Rightarrow> bool" for others
where
  admitted: "\<not> log_busy s \<Longrightarrow> log_waits others s s"
| slept: "log_busy s \<Longrightarrow> sleep others ChLog LogLock s = Inr t \<Longrightarrow> log_waits others t u \<Longrightarrow> log_waits others s u"

lemma log_waits_admitted: "log_waits others s u \<Longrightarrow> \<not> log_busy u"
  by (induction rule: log_waits.induct)

lemma begin_op_loop_waits:
  "begin_op_loop others s = Inr t \<Longrightarrow>
     \<exists>u. log_waits others s u \<and> release LogLock (u\<lparr>lg_outstanding := lg_outstanding u + 1\<rparr>) = Inr t"
proof (induction others s rule: begin_op_loop.induct)
  case (1 others s)
  show ?case
  proof (cases "log_busy s")
    case True
    then obtain v where v: "sleep others ChLog LogLock s = Inr v" "begin_op_loop others v = Inr t"
      using "1.prems" by (auto simp: begin_op_loop.simps [of others s] log_busy_def bnd_eq_Inr split: if_splits)
    then have "\<exists>u. log_waits others v u \<and> release LogLock (u\<lparr>lg_outstanding := lg_outstanding u + 1\<rparr>) = Inr t"
      using "1.IH" True by (cases "lg_committing s") (auto simp: log_busy_def)
    then show ?thesis using log_waits.slept [OF True v(1)] by blast
  next
    case False
    then show ?thesis
      using "1.prems" log_waits.admitted [OF False] by (auto simp: begin_op_loop.simps [of others s] log_busy_def)
  qed
qed

lemma release_log_fields:
  "release l u = Inr v \<Longrightarrow> lg_committing v = lg_committing u \<and> lh_n v = lh_n u \<and> lg_outstanding v = lg_outstanding u"
  by (auto simp: release_def popcli_def bnd_eq_Inr Let_def set_lock_def set_cpu_def sti_def split: if_splits)

text \<open>C23. However long it has to wait, and whatever other threads do meanwhile, \<open>begin_op\<close> lets an
  operation in only outside a commit and only while the log has room for the blocks already logged
  plus the most that every operation in progress, itself included, may still write; and it counts the
  operation among those in progress: the count is one more than in the state in which it was let in.\<close>

theorem begin_op_reserves:
  assumes "begin_op others s = Inr t"
  shows "\<exists>s' u. acquire LogLock s = Inr s' \<and> log_waits others s' u
    \<and> lg_outstanding t = lg_outstanding u + 1 \<and> lh_n t = lh_n u
    \<and> \<not> lg_committing t \<and> lh_n t + lg_outstanding t * MAXOPBLOCKS \<le> LOGSIZE"
proof -
  obtain s' where s': "acquire LogLock s = Inr s'" "begin_op_loop others s' = Inr t"
    using assms by (auto simp: begin_op_def bnd_eq_Inr)
  obtain u where u: "log_waits others s' u" "release LogLock (u\<lparr>lg_outstanding := lg_outstanding u + 1\<rparr>) = Inr t"
    using begin_op_loop_waits [OF s'(2)] by blast
  then show ?thesis
    using s'(1) release_log_fields [OF u(2)] log_waits_admitted [OF u(1)]
    by (intro exI [of _ s'] exI [of _ u]) (simp add: log_busy_def)
qed

definition log_demo :: log_state where
  "log_demo = bio_state.extend bio_demo \<lparr>lg_start = 2, lg_size = 40, lg_outstanding = 1, lg_committing = False, lg_dev = 1,
     lh_n = 2, lh_block = (\<lambda>i. 60 + i)\<rparr>"

lemmas log_demo_defs = log_demo_def bio_state.defs

lemma log_demo_ok: "cpu_ok 0 log_demo" "free_lock l log_demo" "log_ok log_demo"
  using bio_demo_ok(1) bio_demo_ok(2) [of l]
  by (simp_all add: cpu_ok_def this_cpu_def free_lock_def log_demo_defs log_ok_def logged_def LOGSIZE_def MAXOPBLOCKS_def upto.simps)

lemma begin_op_free:
  assumes "cpu_ok c s" "free_lock LogLock s" "\<not> lg_committing s" "lh_n s + (lg_outstanding s + 1) * MAXOPBLOCKS \<le> LOGSIZE"
  shows "begin_op others s = Inr (s\<lparr>lg_outstanding := lg_outstanding s + 1\<rparr>)"
proof -
  let ?t = "s\<lparr>lg_outstanding := lg_outstanding s + 1\<rparr>"
  have "(locked_by c LogLock s)\<lparr>lg_outstanding := lg_outstanding s + 1\<rparr> = locked_by c LogLock ?t"
    by (simp add: locked_by_def)
  moreover have "release LogLock (locked_by c LogLock ?t) = Inr ?t"
    by (rule release_locked_by) (use assms in \<open>simp_all add: cpu_ok_def this_cpu_def free_lock_def\<close>)
  moreover have "lg_committing (locked_by c LogLock s) = lg_committing s" "lh_n (locked_by c LogLock s) = lh_n s"
    "lg_outstanding (locked_by c LogLock s) = lg_outstanding s"
    by (simp_all add: locked_by_def)
  ultimately show ?thesis
    using assms by (simp add: begin_op_def acquire_free [where c = c] begin_op_loop.simps)
qed

theorem begin_op_reserves_witness:
  "begin_op id (log_demo\<lparr>lh_n := 0\<rparr>) = Inr (log_demo\<lparr>lh_n := 0, lg_outstanding := 2\<rparr>)
    \<and> (\<exists>s' u. acquire LogLock (log_demo\<lparr>lh_n := 0\<rparr>) = Inr s' \<and> log_waits id s' u \<and> lg_outstanding u = 1)"
proof -
  have "begin_op id (log_demo\<lparr>lh_n := 0\<rparr>) = Inr (log_demo\<lparr>lh_n := 0, lg_outstanding := 2\<rparr>)"
    using log_demo_ok(1) log_demo_ok(2) [of LogLock]
    by (subst begin_op_free [where c = 0])
      (simp_all add: cpu_ok_def this_cpu_def free_lock_def log_demo_defs LOGSIZE_def MAXOPBLOCKS_def)
  with begin_op_reserves [OF this] show ?thesis by auto
qed

lemma logged_find_Some:
  assumes "log_ok s" "find (\<lambda>i. word_of_int (lh_block s i) = blk) [0..lh_n s - 1] = Some i"
  shows "lh_block s i = sint (blk :: uint)" "i < lh_n s" "sint blk \<in> set (logged s)"
proof -
  have i: "i \<in> {0..lh_n s - 1}" "word_of_int (lh_block s i) = blk"
    using assms(2) by (auto simp: find_Some_iff in_set_conv_nth simp flip: set_upto intro: nth_mem)
  then have "lh_block s i \<in> set (logged s)" by (auto simp: logged_def)
  moreover from this have "sint (word_of_int (lh_block s i) :: uint) = lh_block s i"
    using assms(1) by (simp add: log_ok_def list_all_iff)
  ultimately show "lh_block s i = sint blk" "i < lh_n s" "sint blk \<in> set (logged s)"
    using i by auto
qed

lemma logged_find_None:
  assumes "find (\<lambda>i. word_of_int (lh_block s i) = (blk :: uint)) [0..lh_n s - 1] = None"
  shows "sint blk \<notin> set (logged s)"
proof
  assume "sint blk \<in> set (logged s)"
  then obtain x where x: "x \<in> set [0..lh_n s - 1]" "lh_block s x = sint blk" by (auto simp: logged_def)
  then have "word_of_int (lh_block s x) = blk" by simp
  with x(1) assms show False by (simp only: find_None_iff) blast
qed

lemma logged_append:
  "0 \<le> lh_n s \<Longrightarrow> logged (s\<lparr>lh_block := (lh_block s)(lh_n s := k), lh_n := lh_n s + 1\<rparr>) = logged s @ [k]"
  by (simp add: logged_def upto_rec2)

text \<open>The state that \<open>log_write\<close> leaves: one more block in the header, unless it was there.\<close>

definition log_added :: "nat \<Rightarrow> 'z log_state_scheme \<Rightarrow> 'z log_state_scheme" where
  "log_added b s =
     (let k = sint (b_blockno (bufs s b));
          s = (if k \<in> set (logged s) then s else s\<lparr>lh_block := (lh_block s)(lh_n s := k), lh_n := lh_n s + 1\<rparr>) in
      set_buf b ((bufs s b)\<lparr>b_flags := b_flags (bufs s b) OR B_DIRTY\<rparr>) s)"

lemma log_write_eq:
  assumes "cpu_ok c s" "free_lock LogLock s" "log_ok s" "1 \<le> lg_outstanding s" "lh_n s < LOGSIZE" "lh_n s < lg_size s - 1"
  shows "log_write b s = Inr (log_added b s)"
proof -
  let ?blk = "b_blockno (bufs s b)" and ?l = "locked_by c LogLock s"
  have fields: "bufs ?l = bufs s" "lh_block ?l = lh_block s" "lh_n ?l = lh_n s"
    by (simp_all add: locked_by_def)
  have out: "set_buf b v (?l\<lparr>lh_block := f\<rparr>) = locked_by c LogLock (set_buf b v (s\<lparr>lh_block := f\<rparr>))"
    "set_buf b v (?l\<lparr>lh_block := f, lh_n := n\<rparr>) = locked_by c LogLock (set_buf b v (s\<lparr>lh_block := f, lh_n := n\<rparr>))" for v f n
    by (simp_all add: set_buf_def locked_by_def)
  have rel: "release LogLock (locked_by c LogLock (set_buf b v (s\<lparr>lh_block := f, lh_n := n\<rparr>)))
      = Inr (set_buf b v (s\<lparr>lh_block := f, lh_n := n\<rparr>))"
    "release LogLock (locked_by c LogLock (set_buf b v (s\<lparr>lh_block := f\<rparr>))) = Inr (set_buf b v (s\<lparr>lh_block := f\<rparr>))" for v f n
    by (rule release_locked_by; use assms(1,2) in \<open>simp add: cpu_ok_def this_cpu_def free_lock_def set_buf_def\<close>)+
  have n: "0 \<le> lh_n s" using assms(3) by (simp add: log_ok_def)
  show ?thesis
  proof (cases "find (\<lambda>i. word_of_int (lh_block s i) = ?blk) [0..lh_n s - 1]")
    case None
    then show ?thesis
      using assms n logged_find_None [OF None]
      by (simp add: log_write_def acquire_free [where c = c] fields out rel Let_def log_added_def)
  next
    case (Some i)
    note f = logged_find_Some [OF assms(3) Some]
    have "(lh_block s)(i := sint ?blk) = lh_block s" using f(1) by auto
    then show ?thesis
      using assms n f Some rel(2) [where f = "lh_block s"]
      by (simp add: log_write_def acquire_free [where c = c] fields out rel Let_def log_added_def)
  qed
qed

lemma log_added_fields:
  assumes "0 \<le> lh_n s"
  shows "logged (log_added b s) = (if sint (b_blockno (bufs s b)) \<in> set (logged s) then logged s
      else logged s @ [sint (b_blockno (bufs s b))])"
    "lh_n (log_added b s) = lh_n s + (if sint (b_blockno (bufs s b)) \<in> set (logged s) then 0 else 1)"
    "lg_outstanding (log_added b s) = lg_outstanding s" "lg_size (log_added b s) = lg_size s"
    "lg_committing (log_added b s) = lg_committing s" "b_blockno (bufs (log_added b s) d) = b_blockno (bufs s d)"
    "cpu_ok c (log_added b s) = cpu_ok c s" "free_lock l (log_added b s) = free_lock l s"
    "sched_inv (log_added b s) = sched_inv s"
proof -
  have frame: "logged (set_buf b v u) = logged u" for v and u :: "'a log_state_scheme"
    by (simp add: set_buf_def logged_def)
  show "logged (log_added b s) = (if sint (b_blockno (bufs s b)) \<in> set (logged s) then logged s
      else logged s @ [sint (b_blockno (bufs s b))])"
    using assms by (simp add: log_added_def Let_def frame logged_append)
  show "sched_inv (log_added b s) = sched_inv s"
    by (rule sched_inv_cong) (simp_all add: log_added_def Let_def set_buf_def)
qed (simp_all add: log_added_def Let_def set_buf_def cpu_ok_def this_cpu_def free_lock_def)

lemma log_ok_added:
  assumes "log_ok s" "lh_n s < LOGSIZE"
  shows "log_ok (log_added b s)"
  using assms log_added_fields(1,2) [of s b] by (simp add: log_ok_def)

text \<open>C25. Inside a transaction with room left, \<open>log_write\<close> succeeds: it enters the block at the end of the
  header unless it is there already, never twice, keeps the entries before it and pins the buffer
  by its dirty flag.\<close>

theorem log_write_absorbs:
  assumes "cpu_ok c s" "free_lock LogLock s" "log_ok s" "1 \<le> lg_outstanding s" "lh_n s < LOGSIZE" "lh_n s < lg_size s - 1"
  shows "\<exists>t. log_write b s = Inr t \<and> log_ok t \<and> b_flags (bufs t b) AND B_DIRTY \<noteq> 0
    \<and> logged t = (if sint (b_blockno (bufs s b)) \<in> set (logged s) then logged s
                  else logged s @ [sint (b_blockno (bufs s b))])"
proof -
  have "0 \<le> lh_n s" using assms(3) by (simp add: log_ok_def)
  moreover have "b_flags (bufs (log_added b s) b) AND B_DIRTY \<noteq> 0"
    by (simp add: log_added_def Let_def set_buf_def B_DIRTY_def bit.conj_disj_distrib2)
  ultimately show ?thesis
    using log_write_eq [OF assms] log_ok_added [OF assms(3,5)] log_added_fields(1) [of s b] by blast
qed

theorem log_write_absorbs_witness:
  "\<exists>t. log_write 3 log_demo = Inr t \<and> log_ok t \<and> b_flags (bufs t 3) AND B_DIRTY \<noteq> 0 \<and> logged t = [60, 61, 0]"
  using log_write_absorbs [OF log_demo_ok(1,2,3), of 3]
  by (auto simp: log_demo_defs bio_demo_defs logged_def upto.simps LOGSIZE_def MAXOPBLOCKS_def)

section \<open>The reservation\<close>

text \<open>
  A run of operations between two commits. With every operation in progress goes the number of
  blocks it may still write: \<open>MAXOPBLOCKS\<close> when \<open>begin_op\<close> lets it in, one less after each
  \<open>log_write\<close>. \<open>end_op\<close> of an operation that is not the last gives the rest back. Anything else may
  happen in between that leaves the log as it is; a call of \<open>begin_op\<close> that has to wait is the call
  made when it need not.
\<close>

definition log_ready :: "nat \<Rightarrow> 'z log_state_scheme \<Rightarrow> bool" where
  "log_ready c s \<longleftrightarrow> cpu_ok c s \<and> free_lock LogLock s \<and> free_lock PtableLock s \<and> sched_inv s
     \<and> log_ok s \<and> \<not> lg_committing s"

inductive log_group :: "nat \<Rightarrow> 'z log_state_scheme \<Rightarrow> int list \<Rightarrow> bool" for c where
  idle: "log_ready c s \<Longrightarrow> lg_outstanding s = 0 \<Longrightarrow> lh_n s = 0 \<Longrightarrow> LOGSIZE < lg_size s \<Longrightarrow> log_group c s []"
| begins: "log_group c s ks \<Longrightarrow> \<not> log_busy s \<Longrightarrow> begin_op others s = Inr t \<Longrightarrow> log_group c t (ks @ [MAXOPBLOCKS])"
| writes: "log_group c s ks \<Longrightarrow> i < length ks \<Longrightarrow> 0 < ks ! i \<Longrightarrow> log_write b s = Inr t \<Longrightarrow>
    log_group c t (ks[i := ks ! i - 1])"
| ends: "log_group c s (ks @ k # ls) \<Longrightarrow> ks @ ls \<noteq> [] \<Longrightarrow> end_op ev s = Inr t \<Longrightarrow> log_group c t (ks @ ls)"
| other: "log_group c s ks \<Longrightarrow> log_ready c t \<Longrightarrow> lh_n t = lh_n s \<Longrightarrow> lg_outstanding t = lg_outstanding s \<Longrightarrow>
    lg_size t = lg_size s \<Longrightarrow> log_group c t ks"

lemma end_op_more:
  assumes "log_ready c s" "lg_outstanding s \<noteq> 1"
  shows "\<exists>t. end_op ev s = Inr t \<and> log_ready c t \<and> lg_outstanding t = lg_outstanding s - 1
    \<and> lh_n t = lh_n s \<and> lg_size t = lg_size s"
proof -
  let ?s = "s\<lparr>lg_outstanding := lg_outstanding s - 1\<rparr>"
  let ?l = "locked_by c LogLock ?s"
  have r: "cpu_ok c ?s" "free_lock LogLock ?s" "free_lock PtableLock ?s" "sched_inv ?s" "\<not> lg_committing s" "log_ok s"
    using assms(1) sched_inv_cong [of ?s s]
    by (simp_all add: log_ready_def cpu_ok_def this_cpu_def free_lock_def)
  have l: "(locked_by c LogLock s)\<lparr>lg_outstanding := lg_outstanding s - 1\<rparr> = ?l"
    "lg_outstanding (locked_by c LogLock s) = lg_outstanding s" "lg_committing ?l = lg_committing s"
    "lg_committing (locked_by c LogLock s) = lg_committing s" "lg_outstanding ?l = lg_outstanding s - 1"
    by (simp_all add: locked_by_def)
  obtain t where t: "wakeup ChLog ?l = Inr t" "sched_inv t" "sched_only ?l t"
    using wakeup_all [of ?l c ChLog] r by (auto simp: lock_simps)
  define u where "u = ?s\<lparr>procs := procs t, pqueues := pqueues t, head_tail := head_tail t\<rparr>"
  have "end_op ev s = Inr u"
    using assms r t(1) l sched_only_unlock [OF t(3) r(1,2)] acquire_free [of c s LogLock]
    by (simp add: end_op_def log_ready_def Let_def u_def)
  moreover have "sched_inv u" using t(2) sched_inv_cong [of u t] by (simp add: u_def)
  moreover have "log_ready c u" using r \<open>sched_inv u\<close>
    by (simp add: log_ready_def u_def cpu_ok_def this_cpu_def free_lock_def log_ok_def logged_def)
  ultimately show ?thesis by (simp add: u_def)
qed

definition reserved :: "nat \<Rightarrow> 'z log_state_scheme \<Rightarrow> int list \<Rightarrow> bool" where
  "reserved c s ks \<longleftrightarrow> log_ready c s \<and> lg_outstanding s = int (length ks) \<and> lh_n s + sum_list ks \<le> LOGSIZE
     \<and> LOGSIZE < lg_size s \<and> (\<forall>k\<in>set ks. 0 \<le> k \<and> k \<le> MAXOPBLOCKS)"

lemma reserved_write:
  assumes "reserved c s ks" "k \<in> set ks" "0 < k"
  shows "log_write b s = Inr (log_added b s)" "log_ready c (log_added b s)"
proof -
  have "k \<le> sum_list ks" using assms(1,2) by (intro member_le_sum_list) (auto simp: reserved_def)
  moreover have "ks \<noteq> []" using assms(2) by auto
  ultimately have r: "lh_n s < LOGSIZE" "1 \<le> lg_outstanding s"
    using assms(1,3) by (cases ks; simp add: reserved_def)+
  then show "log_write b s = Inr (log_added b s)"
    using assms(1) by (intro log_write_eq [where c = c]) (simp_all add: reserved_def log_ready_def)
  have "0 \<le> lh_n s" using assms(1) by (simp add: reserved_def log_ready_def log_ok_def)
  then show "log_ready c (log_added b s)"
    using assms(1) r(1) by (simp add: reserved_def log_ready_def log_added_fields log_ok_added)
qed

lemma sum_list_dec: "i < length ks \<Longrightarrow> sum_list (ks[i := ks ! i - 1]) = sum_list ks - (1 :: int)"
  by (induction ks arbitrary: i) (auto split: nat.splits)

lemma log_group_reserved: "log_group c s ks \<Longrightarrow> reserved c s ks"
proof (induction rule: log_group.induct)
  case (idle s)
  then show ?case by (simp add: reserved_def LOGSIZE_def MAXOPBLOCKS_def)
next
  case (begins s ks others t)
  have "t = s\<lparr>lg_outstanding := lg_outstanding s + 1\<rparr>"
    using begins begin_op_free [of c s others] by (simp add: reserved_def log_ready_def log_busy_def)
  moreover have "sched_inv (s\<lparr>lg_outstanding := lg_outstanding s + 1\<rparr>) = sched_inv s" by (rule sched_inv_cong) simp_all
  moreover have "sum_list ks \<le> int (length ks) * MAXOPBLOCKS"
    using begins.IH sum_list_mono [of ks id "\<lambda>_. MAXOPBLOCKS"] by (simp add: reserved_def sum_list_triv)
  ultimately show ?case using begins
    by (auto simp: reserved_def log_ready_def log_busy_def cpu_ok_def this_cpu_def free_lock_def log_ok_def logged_def
        algebra_simps MAXOPBLOCKS_def)
next
  case (writes s ks i b t)
  note w = reserved_write [OF writes.IH nth_mem [OF writes(2)] writes(3), of b]
  have "t = log_added b s" "0 \<le> lh_n s" using w(1) writes(4,5) by (auto simp: reserved_def log_ready_def log_ok_def)
  moreover have le: "ks ! i - 1 \<le> MAXOPBLOCKS" using writes.IH nth_mem [OF writes(2)] by (fastforce simp: reserved_def)
  ultimately show ?case using writes w(2) log_added_fields(2-4) [of s b]
    by (auto simp: reserved_def sum_list_dec [OF writes(2)] intro: le dest!: set_update_subset_insert [THEN subsetD])
next
  case (ends s ks k ls ev t)
  have "lg_outstanding s \<noteq> 1" using ends by (cases ks; cases ls) (auto simp: reserved_def)
  then show ?case using ends end_op_more [of c s ev] by (auto simp: reserved_def)
next
  case (other s ks t)
  then show ?case by (simp add: reserved_def)
qed

text \<open>C24. The reservation is enough: in a log larger than \<open>LOGSIZE\<close> blocks, whatever operations \<open>begin_op\<close>
  admits and however their writes and ends interleave until the last one ends, an operation that has
  written fewer than \<open>MAXOPBLOCKS\<close> blocks can write another; \<open>log_write\<close> does not panic.\<close>

theorem reservation_enough:
  assumes "log_group c s ks" "k \<in> set ks" "0 < k"
  shows "\<exists>t. log_write b s = Inr t"
  using reserved_write(1) [OF log_group_reserved [OF assms(1)] assms(2,3)] by blast

definition log_idle :: log_state where
  "log_idle = log_demo\<lparr>lh_n := 0, lg_outstanding := 0\<rparr>"

lemma log_idle_ready: "log_ready 0 log_idle"
proof -
  have "sched_inv log_idle" using sched_inv_cong [of log_idle bio_demo] bio_demo_ok by (simp add: log_idle_def log_demo_defs)
  then show ?thesis using log_demo_ok(1) log_demo_ok(2) [of LogLock] log_demo_ok(2) [of PtableLock]
    by (simp add: log_ready_def log_idle_def cpu_ok_def this_cpu_def free_lock_def log_ok_def logged_def log_demo_defs LOGSIZE_def MAXOPBLOCKS_def)
qed

theorem reservation_enough_witness:
  "\<exists>s t. begin_op id log_idle = Inr s \<and> log_group 0 s [MAXOPBLOCKS] \<and> log_write 3 s = Inr t"
proof -
  have n: "\<not> log_busy log_idle" by (simp add: log_busy_def log_idle_def log_demo_defs LOGSIZE_def MAXOPBLOCKS_def)
  then obtain s where s: "begin_op id log_idle = Inr s"
    using begin_op_free [of 0 log_idle id] log_idle_ready by (auto simp: log_ready_def log_busy_def)
  have "log_group 0 log_idle []"
    by (rule log_group.idle [OF log_idle_ready]) (simp_all add: log_idle_def log_demo_defs LOGSIZE_def MAXOPBLOCKS_def)
  from log_group.begins [OF this n s] have g: "log_group 0 s [MAXOPBLOCKS]" by simp
  with s reservation_enough [OF g, of MAXOPBLOCKS 3] show ?thesis by (auto simp: MAXOPBLOCKS_def)
qed

lemma log_writes:
  assumes "log_ready c s" "1 \<le> lg_outstanding s" "lh_n s + int (length bs) < lg_size s" "lh_n s + int (length bs) \<le> LOGSIZE"
    and "distinct (map (\<lambda>b. b_blockno (bufs s b)) bs)" "\<forall>b\<in>set bs. sint (b_blockno (bufs s b)) \<notin> set (logged s)"
  shows "\<exists>t. for_each log_write bs s = Inr t \<and> lh_n t = lh_n s + int (length bs) \<and> lg_size t = lg_size s"
  using assms
proof (induction bs arbitrary: s)
  case (Cons b bs)
  have n: "0 \<le> lh_n s" using Cons.prems(1) by (simp add: log_ready_def log_ok_def)
  note f = log_added_fields [OF n]
  have w: "log_write b s = Inr (log_added b s)"
    using Cons.prems by (intro log_write_eq [where c = c]) (simp_all add: log_ready_def)
  have "log_ready c (log_added b s)"
    using Cons.prems by (simp add: log_ready_def f log_ok_added)
  moreover have "sint (b_blockno (bufs s d)) \<noteq> sint (b_blockno (bufs s b))" if "d \<in> set bs" for d
    using Cons.prems(5) that by (auto simp: image_iff dest!: signed_word_eqI)
  ultimately have "\<exists>t. for_each log_write bs (log_added b s) = Inr t
      \<and> lh_n t = lh_n (log_added b s) + int (length bs) \<and> lg_size t = lg_size (log_added b s)"
    using Cons.prems by (intro Cons.IH) (auto simp: f)
  then show ?case using w Cons.prems(6) by (auto simp: f)
qed simp

text \<open>C26. In a log of \<open>LOGSIZE\<close> blocks, which is what \<open>mkfs\<close> makes, the reservation is one block too much: from an
  idle log \<open>begin_op\<close> admits three operations, which may write \<open>MAXOPBLOCKS\<close> blocks each; the first 29
  different blocks they write are logged, and \<open>log_write\<close> of the thirtieth panics, since one block of the
  log is its header.\<close>

theorem reserved_block_refused:
  assumes "log_ready c s" "lg_outstanding s = 0" "lh_n s = 0" "lg_size s = LOGSIZE"
    and "length bs = nat (3 * MAXOPBLOCKS) - 1" "distinct (map (\<lambda>b. b_blockno (bufs s b)) bs)"
  shows "\<exists>t u. for_each (\<lambda>_. begin_op others) [0, 1, 2 :: nat] s = Inr t \<and> lg_outstanding t = 3
    \<and> for_each log_write bs t = Inr u \<and> log_write b u = Inl (Panic ''too big a transaction'')"
proof -
  let ?t = "\<lambda>n. s\<lparr>lg_outstanding := n\<rparr>"
  have r: "cpu_ok c (?t n)" "free_lock LogLock (?t n)" "\<not> lg_committing (?t n)" "lh_n (?t n) = 0" "log_ready c (?t n)" for n
    using assms(1,3) sched_inv_cong [of "?t n" s]
    by (simp_all add: log_ready_def cpu_ok_def this_cpu_def free_lock_def log_ok_def logged_def)
  have "begin_op others s = Inr (?t 1)"
    using begin_op_free [of c s others] assms(1-3) by (simp add: log_ready_def LOGSIZE_def MAXOPBLOCKS_def)
  then have "for_each (\<lambda>_. begin_op others) [0, 1, 2 :: nat] s = Inr (?t 3)"
    using begin_op_free [OF r(1-3), of 1 others] begin_op_free [OF r(1-3), of 2 others] assms(3)
    by (simp add: LOGSIZE_def MAXOPBLOCKS_def)
  moreover have "\<exists>u. for_each log_write bs (?t 3) = Inr u \<and> lh_n u = lh_n (?t 3) + int (length bs) \<and> lg_size u = lg_size (?t 3)"
    using assms(3-6) by (intro log_writes [OF r(5)]) (simp_all add: logged_def LOGSIZE_def MAXOPBLOCKS_def)
  then obtain u where "for_each log_write bs (?t 3) = Inr u" "lh_n u = 29" "lg_size u = 30"
    using assms(3-5) by (auto simp: LOGSIZE_def MAXOPBLOCKS_def)
  ultimately show ?thesis
    by (intro exI [of _ "?t 3"] exI [of _ u]) (simp add: log_write_def LOGSIZE_def MAXOPBLOCKS_def)
qed

definition log_mkfs :: log_state where
  "log_mkfs = log_idle\<lparr>lg_size := LOGSIZE, bufs := (\<lambda>b. (bufs log_idle b)\<lparr>b_blockno := 100 + of_nat b\<rparr>)\<rparr>"

theorem reserved_block_refused_witness:
  "\<exists>t u. for_each (\<lambda>_. begin_op id) [0, 1, 2 :: nat] log_mkfs = Inr t \<and> lg_outstanding t = 3
    \<and> for_each log_write [0..<29] t = Inr u \<and> log_write 29 u = Inl (Panic ''too big a transaction'')"
proof (rule reserved_block_refused)
  show "log_ready 0 log_mkfs" using log_idle_ready sched_inv_cong [of log_mkfs log_idle]
    by (simp add: log_ready_def log_mkfs_def cpu_ok_def this_cpu_def free_lock_def log_ok_def logged_def)
  show "distinct (map (\<lambda>b. b_blockno (bufs log_mkfs b)) [0..<29])"
    by (simp add: log_mkfs_def upt_rec)
qed (simp_all add: log_mkfs_def log_idle_def LOGSIZE_def MAXOPBLOCKS_def)

end
