(* ===== verification/Fs.thy ===== *)
theory Fs
  imports Log
begin

text \<open>
  The file system of \<open>fs.c\<close>: the block bitmap, the inode cache and the on-disk inodes, file
  contents through direct and indirect blocks, directories and path names. An inode pointer is
  the index of its entry in the cache. \<open>readi\<close> returns the bytes it copies out besides
  storing them in the caller's buffer.
  A path or a name is its list of bytes without the terminating NUL. The line that \<open>iinit\<close>
  prints on the console is left out.
\<close>

section \<open>State\<close>

definition NDIRECT :: nat where "NDIRECT = 12"
definition NINDIRECT :: nat where "NINDIRECT = 128"
definition MAXFILE :: nat where "MAXFILE = NDIRECT + NINDIRECT"
definition NINODE :: nat where "NINODE = 50"
definition NDEV :: int where "NDEV = 10"
definition ROOTDEV :: uint where "ROOTDEV = 1"
definition ROOTINO :: uint where "ROOTINO = 1"
definition DIRSIZ :: nat where "DIRSIZ = 14"
definition DIRENT_SIZE :: uint where "DIRENT_SIZE = 16"
definition DINODE_SIZE :: nat where "DINODE_SIZE = 64"
definition IPB :: uint where "IPB = 8"
definition BPB :: nat where "BPB = 4096"
definition T_DIR :: ushort where "T_DIR = 1"
definition T_FILE :: ushort where "T_FILE = 2"
definition T_DEV :: ushort where "T_DEV = 3"

record inode =
  i_dev :: uint
  i_inum :: uint
  i_ref :: int
  i_valid :: bool
  i_type :: ushort
  i_major :: ushort
  i_minor :: ushort
  i_nlink :: ushort
  i_size :: uint
  i_addrs :: "uint list"

record dinode =
  d_type :: ushort
  d_major :: ushort
  d_minor :: ushort
  d_nlink :: ushort
  d_size :: uint
  d_addrs :: "uint list"

record stat =
  st_type :: ushort
  st_dev :: uint
  st_ino :: uint
  st_nlink :: ushort
  st_size :: uint

record fs_state = log_state +
  inodes :: "nat \<Rightarrow> inode"
  fs_sb :: superblock

definition set_inode :: "nat \<Rightarrow> inode \<Rightarrow> 'z fs_state_scheme \<Rightarrow> 'z fs_state_scheme" where
  "set_inode ip v s = s\<lparr>inodes := (inodes s)(ip := v)\<rparr>"

definition IBLOCK :: "uint \<Rightarrow> superblock \<Rightarrow> uint" where
  "IBLOCK i sb = i div IPB + sb_inodestart sb"

definition BBLOCK :: "uint \<Rightarrow> superblock \<Rightarrow> uint" where
  "BBLOCK b sb = b div of_nat BPB + sb_bmapstart sb"

section \<open>Structures in blocks\<close>

text \<open>The inode at byte \<open>off\<close> of a block.\<close>

definition dinode_at :: "uchar list \<Rightarrow> nat \<Rightarrow> dinode" where
  "dinode_at d off = \<lparr>d_type = get16 d off, d_major = get16 d (off + 2), d_minor = get16 d (off + 4),
     d_nlink = get16 d (off + 6), d_size = get32 d (off + 8),
     d_addrs = map (\<lambda>k. get32 d (off + 12 + 4 * k)) [0..<NDIRECT + 1]\<rparr>"

fun put_addrs :: "uchar list \<Rightarrow> nat \<Rightarrow> uint list \<Rightarrow> uchar list" where
  "put_addrs d off [] = d"
| "put_addrs d off (a # as) = put_addrs (put32 d off a) (off + 4) as"

definition put_dinode :: "uchar list \<Rightarrow> nat \<Rightarrow> dinode \<Rightarrow> uchar list" where
  "put_dinode d off v =
     (let d = put16 d off (d_type v); d = put16 d (off + 2) (d_major v); d = put16 d (off + 4) (d_minor v);
          d = put16 d (off + 6) (d_nlink v); d = put32 d (off + 8) (d_size v) in
      put_addrs d (off + 12) (d_addrs v))"

definition zero_bytes :: "uchar list \<Rightarrow> nat \<Rightarrow> nat \<Rightarrow> uchar list" where
  "zero_bytes d off n = take off d @ replicate n 0 @ drop (off + n) d"

definition splice :: "uchar list \<Rightarrow> nat \<Rightarrow> uchar list \<Rightarrow> uchar list" where
  "splice d off bs = take off d @ bs @ drop (off + length bs) d"

definition dinode_off :: "uint \<Rightarrow> nat" where
  "dinode_off inum = DINODE_SIZE * unat (inum mod IPB)"

section \<open>Blocks\<close>

definition bzero :: "'z fs_state_scheme env \<Rightarrow> uint \<Rightarrow> uint \<Rightarrow> 'z fs_state_scheme \<Rightarrow> 'z fs_state_scheme result" where
  "bzero ev dev bno s =
     bnd (bread ev dev bno s) (\<lambda>(b, s).
     let s = set_data b (replicate BSIZE 0) s in
     bnd (log_write b s) (\<lambda>s.
     brelse b s))"

definition bit_mask :: "nat \<Rightarrow> uchar" where
  "bit_mask bi = push_bit (bi mod 8) 1"

definition bit_set :: "uchar list \<Rightarrow> nat \<Rightarrow> bool" where
  "bit_set d bi \<longleftrightarrow> d ! (bi div 8) AND bit_mask bi \<noteq> 0"

function balloc_loop ::
  "'z fs_state_scheme env \<Rightarrow> uint \<Rightarrow> nat \<Rightarrow> 'z fs_state_scheme \<Rightarrow> (uint \<times> 'z fs_state_scheme) result"
where
  "balloc_loop ev dev b s =
     (if b < unat (sb_size (fs_sb s)) then
        bnd (bread ev dev (BBLOCK (of_nat b) (fs_sb s)) s) (\<lambda>(bp, s').
        let d = b_data (bufs s' bp) in
        case find (\<lambda>bi. \<not> bit_set d bi) [0..<min BPB (unat (sb_size (fs_sb s')) - b)] of
          Some bi \<Rightarrow>
            let s' = set_data bp (d[bi div 8 := d ! (bi div 8) OR bit_mask bi]) s' in
            bnd (log_write bp s') (\<lambda>s'.
            bnd (brelse bp s') (\<lambda>s'.
            bnd (bzero ev dev (of_nat (b + bi)) s') (\<lambda>s'.
            Inr (of_nat (b + bi), s'))))
        | None \<Rightarrow>
            bnd (brelse bp s') (\<lambda>s'.
            balloc_loop ev dev (b + BPB) s'))
      else Inl (Panic ''balloc: out of blocks''))"
  by pat_completeness auto
termination
proof (relation "measure (\<lambda>(ev, dev, b, s). 2 ^ 32 - b)", goal_cases)
  case (2 ev dev b s)
  moreover have "unat (sb_size (fs_sb s)) < 2 ^ 32"
    by (rule unat_uint_less)
  ultimately show ?case
    by (auto simp: BPB_def)
qed simp

declare balloc_loop.simps [simp del]

definition balloc ::
  "'z fs_state_scheme env \<Rightarrow> uint \<Rightarrow> 'z fs_state_scheme \<Rightarrow> (uint \<times> 'z fs_state_scheme) result"
where
  "balloc ev dev s = balloc_loop ev dev 0 s"

definition bfree ::
  "'z fs_state_scheme env \<Rightarrow> uint \<Rightarrow> uint \<Rightarrow> 'z fs_state_scheme \<Rightarrow> 'z fs_state_scheme result"
where
  "bfree ev dev b s =
     bnd (readsb ev dev s) (\<lambda>(sb, s).
     let s = s\<lparr>fs_sb := sb\<rparr> in
     bnd (bread ev dev (BBLOCK b (fs_sb s)) s) (\<lambda>(bp, s).
     let bi = unat b mod BPB; d = b_data (bufs s bp) in
     if \<not> bit_set d bi then Inl (Panic ''freeing free block'')
     else
       let s = set_data bp (d[bi div 8 := d ! (bi div 8) AND NOT (bit_mask bi)]) s in
       bnd (log_write bp s) (\<lambda>s.
       brelse bp s)))"

section \<open>The inode cache\<close>

definition iinit :: "'z fs_state_scheme env \<Rightarrow> uint \<Rightarrow> 'z fs_state_scheme \<Rightarrow> 'z fs_state_scheme result" where
  "iinit ev dev s =
     (let s = initlock IcacheLock ''icache'' s;
          s = foldl (\<lambda>s i. initsleeplock (InodeLock i) ''inode'' s) s [0..<NINODE] in
      bnd (readsb ev dev s) (\<lambda>(sb, s).
      Inr (s\<lparr>fs_sb := sb\<rparr>)))"

text \<open>A cached inode is found again by device and number; the first entry without a reference is kept for a miss.\<close>

definition iget ::
  "uint \<Rightarrow> uint \<Rightarrow> 'z fs_state_scheme \<Rightarrow> (nat \<times> 'z fs_state_scheme) result"
where
  "iget dev inum s =
     bnd (acquire IcacheLock s) (\<lambda>s.
     case find (\<lambda>i. i_ref (inodes s i) > 0 \<and> i_dev (inodes s i) = dev \<and> i_inum (inodes s i) = inum) [0..<NINODE] of
       Some i \<Rightarrow>
         let s = set_inode i ((inodes s i)\<lparr>i_ref := i_ref (inodes s i) + 1\<rparr>) s in
         bnd (release IcacheLock s) (\<lambda>s. Inr (i, s))
     | None \<Rightarrow>
         (case find (\<lambda>i. i_ref (inodes s i) = 0) [0..<NINODE] of
            None \<Rightarrow> Inl (Panic ''iget: no inodes'')
          | Some i \<Rightarrow>
              let s = set_inode i ((inodes s i)\<lparr>i_dev := dev, i_inum := inum, i_ref := 1, i_valid := False\<rparr>) s in
              bnd (release IcacheLock s) (\<lambda>s. Inr (i, s))))"

function ialloc_loop ::
  "'z fs_state_scheme env \<Rightarrow> uint \<Rightarrow> ushort \<Rightarrow> nat \<Rightarrow> 'z fs_state_scheme
   \<Rightarrow> (nat \<times> 'z fs_state_scheme) result"
where
  "ialloc_loop ev dev ty inum s =
     (if inum < unat (sb_ninodes (fs_sb s)) then
        bnd (bread ev dev (IBLOCK (of_nat inum) (fs_sb s)) s) (\<lambda>(bp, s').
        let d = b_data (bufs s' bp); off = dinode_off (of_nat inum) in
        if d_type (dinode_at d off) = 0 then
          let s' = set_data bp (put16 (zero_bytes d off DINODE_SIZE) off ty) s' in
          bnd (log_write bp s') (\<lambda>s'.
          bnd (brelse bp s') (\<lambda>s'.
          iget dev (of_nat inum) s'))
        else
          bnd (brelse bp s') (\<lambda>s'.
          ialloc_loop ev dev ty (Suc inum) s'))
      else Inl (Panic ''ialloc: no inodes''))"
  by pat_completeness auto
termination
proof (relation "measure (\<lambda>(ev, dev, ty, inum, s). 2 ^ 32 - inum)", goal_cases)
  case (2 ev dev ty inum s)
  moreover have "unat (sb_ninodes (fs_sb s)) < 2 ^ 32"
    by (rule unat_uint_less)
  ultimately show ?case
    by auto
qed simp

declare ialloc_loop.simps [simp del]

definition ialloc ::
  "'z fs_state_scheme env \<Rightarrow> uint \<Rightarrow> ushort \<Rightarrow> 'z fs_state_scheme \<Rightarrow> (nat \<times> 'z fs_state_scheme) result"
where
  "ialloc ev dev ty s = ialloc_loop ev dev ty 1 s"

definition dinode_of :: "inode \<Rightarrow> dinode" where
  "dinode_of v = \<lparr>d_type = i_type v, d_major = i_major v, d_minor = i_minor v, d_nlink = i_nlink v,
     d_size = i_size v, d_addrs = i_addrs v\<rparr>"

definition iupdate :: "'z fs_state_scheme env \<Rightarrow> nat \<Rightarrow> 'z fs_state_scheme \<Rightarrow> 'z fs_state_scheme result" where
  "iupdate ev ip s =
     bnd (bread ev (i_dev (inodes s ip)) (IBLOCK (i_inum (inodes s ip)) (fs_sb s)) s) (\<lambda>(bp, s).
     let v = inodes s ip;
         s = set_data bp (put_dinode (b_data (bufs s bp)) (dinode_off (i_inum v)) (dinode_of v)) s in
     bnd (log_write bp s) (\<lambda>s.
     brelse bp s))"

definition idup :: "nat \<Rightarrow> 'z fs_state_scheme \<Rightarrow> (nat \<times> 'z fs_state_scheme) result" where
  "idup ip s =
     bnd (acquire IcacheLock s) (\<lambda>s.
     let s = set_inode ip ((inodes s ip)\<lparr>i_ref := i_ref (inodes s ip) + 1\<rparr>) s in
     bnd (release IcacheLock s) (\<lambda>s.
     Inr (ip, s)))"

definition ilock :: "'z fs_state_scheme env \<Rightarrow> nat \<Rightarrow> 'z fs_state_scheme \<Rightarrow> 'z fs_state_scheme result" where
  "ilock ev ip s =
     (if i_ref (inodes s ip) < 1 then Inl (Panic ''ilock'')
      else
        bnd (acquiresleep (e_others ev) (InodeLock ip) s) (\<lambda>s.
        if i_valid (inodes s ip) then Inr s
        else
          bnd (bread ev (i_dev (inodes s ip)) (IBLOCK (i_inum (inodes s ip)) (fs_sb s)) s) (\<lambda>(bp, s).
          let di = dinode_at (b_data (bufs s bp)) (dinode_off (i_inum (inodes s ip)));
              s = set_inode ip ((inodes s ip)\<lparr>i_type := d_type di, i_major := d_major di, i_minor := d_minor di,
                i_nlink := d_nlink di, i_size := d_size di, i_addrs := d_addrs di\<rparr>) s in
          bnd (brelse bp s) (\<lambda>s.
          let s = set_inode ip ((inodes s ip)\<lparr>i_valid := True\<rparr>) s in
          if i_type (inodes s ip) = 0 then Inl (Panic ''ilock: no type'') else Inr s))))"

definition iunlock :: "nat \<Rightarrow> 'z fs_state_scheme \<Rightarrow> 'z fs_state_scheme result" where
  "iunlock ip s =
     bnd (holdingsleep (InodeLock ip) s) (\<lambda>(r, s).
     if \<not> r \<or> i_ref (inodes s ip) < 1 then Inl (Panic ''iunlock'')
     else releasesleep (InodeLock ip) s)"

section \<open>File contents\<close>

text \<open>The block number of block \<open>bn\<close> of a file; a missing block, or a missing indirect block, is allocated.\<close>

definition set_addr :: "nat \<Rightarrow> nat \<Rightarrow> uint \<Rightarrow> 'z fs_state_scheme \<Rightarrow> 'z fs_state_scheme" where
  "set_addr ip k a s = set_inode ip ((inodes s ip)\<lparr>i_addrs := (i_addrs (inodes s ip))[k := a]\<rparr>) s"

definition addr_or_alloc ::
  "'z fs_state_scheme env \<Rightarrow> nat \<Rightarrow> nat \<Rightarrow> 'z fs_state_scheme \<Rightarrow> (uint \<times> 'z fs_state_scheme) result"
where
  "addr_or_alloc ev ip k s =
     (if i_addrs (inodes s ip) ! k = 0 then
        bnd (balloc ev (i_dev (inodes s ip)) s) (\<lambda>(a, s).
        Inr (a, set_addr ip k a s))
      else Inr (i_addrs (inodes s ip) ! k, s))"

definition bmap ::
  "'z fs_state_scheme env \<Rightarrow> nat \<Rightarrow> uint \<Rightarrow> 'z fs_state_scheme \<Rightarrow> (uint \<times> 'z fs_state_scheme) result"
where
  "bmap ev ip bn s =
     (if bn < of_nat NDIRECT then addr_or_alloc ev ip (unat bn) s
      else
        let bn = bn - of_nat NDIRECT in
        if bn < of_nat NINDIRECT then
          bnd (addr_or_alloc ev ip NDIRECT s) (\<lambda>(addr, s).
          bnd (bread ev (i_dev (inodes s ip)) addr s) (\<lambda>(bp, s).
          let addr = get32 (b_data (bufs s bp)) (4 * unat bn) in
          if addr = 0 then
            bnd (balloc ev (i_dev (inodes s ip)) s) (\<lambda>(addr, s).
            let s = set_data bp (put32 (b_data (bufs s bp)) (4 * unat bn) addr) s in
            bnd (log_write bp s) (\<lambda>s.
            bnd (brelse bp s) (\<lambda>s.
            Inr (addr, s))))
          else
            bnd (brelse bp s) (\<lambda>s.
            Inr (addr, s))))
        else Inl (Panic ''bmap: out of range''))"

definition trunc_direct ::
  "'z fs_state_scheme env \<Rightarrow> nat \<Rightarrow> nat \<Rightarrow> 'z fs_state_scheme \<Rightarrow> 'z fs_state_scheme result"
where
  "trunc_direct ev ip i s =
     (if i_addrs (inodes s ip) ! i \<noteq> 0 then
        bnd (bfree ev (i_dev (inodes s ip)) (i_addrs (inodes s ip) ! i) s) (\<lambda>s.
        Inr (set_addr ip i 0 s))
      else Inr s)"

definition trunc_indirect ::
  "'z fs_state_scheme env \<Rightarrow> nat \<Rightarrow> nat \<Rightarrow> nat \<Rightarrow> 'z fs_state_scheme \<Rightarrow> 'z fs_state_scheme result"
where
  "trunc_indirect ev ip bp j s =
     (let a = get32 (b_data (bufs s bp)) (4 * j) in
      if a \<noteq> 0 then bfree ev (i_dev (inodes s ip)) a s else Inr s)"

definition itrunc :: "'z fs_state_scheme env \<Rightarrow> nat \<Rightarrow> 'z fs_state_scheme \<Rightarrow> 'z fs_state_scheme result" where
  "itrunc ev ip s =
     bnd (for_each (trunc_direct ev ip) [0..<NDIRECT] s) (\<lambda>s.
     bnd (if i_addrs (inodes s ip) ! NDIRECT \<noteq> 0 then
            bnd (bread ev (i_dev (inodes s ip)) (i_addrs (inodes s ip) ! NDIRECT) s) (\<lambda>(bp, s).
            bnd (for_each (trunc_indirect ev ip bp) [0..<NINDIRECT] s) (\<lambda>s.
            bnd (brelse bp s) (\<lambda>s.
            bnd (bfree ev (i_dev (inodes s ip)) (i_addrs (inodes s ip) ! NDIRECT) s) (\<lambda>s.
            Inr (set_addr ip NDIRECT 0 s)))))
          else Inr s) (\<lambda>s.
     let s = set_inode ip ((inodes s ip)\<lparr>i_size := 0\<rparr>) s in
     iupdate ev ip s))"

definition iput :: "'z fs_state_scheme env \<Rightarrow> nat \<Rightarrow> 'z fs_state_scheme \<Rightarrow> 'z fs_state_scheme result" where
  "iput ev ip s =
     bnd (acquiresleep (e_others ev) (InodeLock ip) s) (\<lambda>s.
     bnd (if i_valid (inodes s ip) \<and> i_nlink (inodes s ip) = 0 then
            bnd (acquire IcacheLock s) (\<lambda>s.
            let r = i_ref (inodes s ip) in
            bnd (release IcacheLock s) (\<lambda>s.
            if r = 1 then
              bnd (itrunc ev ip s) (\<lambda>s.
              let s = set_inode ip ((inodes s ip)\<lparr>i_type := 0\<rparr>) s in
              bnd (iupdate ev ip s) (\<lambda>s.
              Inr (set_inode ip ((inodes s ip)\<lparr>i_valid := False\<rparr>) s)))
            else Inr s))
          else Inr s) (\<lambda>s.
     bnd (releasesleep (InodeLock ip) s) (\<lambda>s.
     bnd (acquire IcacheLock s) (\<lambda>s.
     let s = set_inode ip ((inodes s ip)\<lparr>i_ref := i_ref (inodes s ip) - 1\<rparr>) s in
     release IcacheLock s))))"

definition iunlockput :: "'z fs_state_scheme env \<Rightarrow> nat \<Rightarrow> 'z fs_state_scheme \<Rightarrow> 'z fs_state_scheme result" where
  "iunlockput ev ip s = bnd (iunlock ip s) (iput ev ip)"

definition stati :: "nat \<Rightarrow> 'z fs_state_scheme \<Rightarrow> stat" where
  "stati ip s =
     \<lparr>st_type = i_type (inodes s ip), st_dev = i_dev (inodes s ip), st_ino = i_inum (inodes s ip),
      st_nlink = i_nlink (inodes s ip), st_size = i_size (inodes s ip)\<rparr>"

text \<open>The bytes of one round of a transfer at \<open>off\<close> that has done \<open>tot\<close> of its \<open>n\<close> bytes.\<close>

definition chunk :: "uint \<Rightarrow> uint \<Rightarrow> uint \<Rightarrow> uint" where
  "chunk n tot off = min (n - tot) (of_nat BSIZE - off mod of_nat BSIZE)"

lemma chunk_pos:
  assumes "tot < n"
  shows "0 < chunk n tot off" "chunk n tot off \<le> n - tot"
proof -
  have "off mod of_nat BSIZE < of_nat BSIZE"
    by (simp add: BSIZE_def word_mod_less_divisor)
  then have "0 < of_nat BSIZE - off mod of_nat BSIZE"
    by (simp add: BSIZE_def word_less_nat_alt unat_sub_if')
  moreover have "0 < n - tot"
    using assms by (simp add: word_less_nat_alt unat_sub_if')
  ultimately show "0 < chunk n tot off"
    by (simp add: chunk_def)
qed (simp add: chunk_def)

lemma chunk_progress:
  assumes "tot < n"
  shows "unat (n - (tot + chunk n tot off)) < unat (n - tot)"
proof -
  have "unat (n - tot - chunk n tot off) = unat (n - tot) - unat (chunk n tot off)"
    by (rule unat_sub) (rule chunk_pos [OF assms])
  then show ?thesis
    using chunk_pos [OF assms, of off]
    by (simp only: diff_diff_eq [symmetric]) (simp add: word_less_nat_alt word_le_nat_alt)
qed

function readi_loop ::
  "'z fs_state_scheme env \<Rightarrow> nat \<Rightarrow> 'z fs_state_scheme sink \<Rightarrow> uint \<Rightarrow> uint \<Rightarrow> uint \<Rightarrow> 'z fs_state_scheme
   \<Rightarrow> (uchar list \<times> 'z fs_state_scheme) result"
where
  "readi_loop ev ip dst off n tot s =
     (if tot < n then
        bnd (bmap ev ip (off div of_nat BSIZE) s) (\<lambda>(a, s).
        bnd (bread ev (i_dev (inodes s ip)) a s) (\<lambda>(bp, s).
        let m = chunk n tot off;
            bytes = take (unat m) (drop (unat (off mod of_nat BSIZE)) (b_data (bufs s bp))) in
        bnd (dst (unat tot) bytes s) (\<lambda>s.
        bnd (brelse bp s) (\<lambda>s.
        bnd (readi_loop ev ip dst (off + m) n (tot + m) s) (\<lambda>(rest, s).
        Inr (bytes @ rest, s))))))
      else Inr ([], s))"
  by pat_completeness auto
termination
  by (relation "measure (\<lambda>(ev, ip, dst, off, n, tot, s). unat (n - tot))") (simp_all add: chunk_progress)

declare readi_loop.simps [simp del]

text \<open>A signed major number outside the device table has no driver.\<close>

definition major_of :: "inode \<Rightarrow> int option" where
  "major_of v = (if sint (i_major v) < 0 \<or> sint (i_major v) \<ge> NDEV then None else Some (sint (i_major v)))"

definition readi ::
  "'z fs_state_scheme env \<Rightarrow> nat \<Rightarrow> 'z fs_state_scheme sink \<Rightarrow> uint \<Rightarrow> uint \<Rightarrow> 'z fs_state_scheme
   \<Rightarrow> ((int \<times> uchar list) \<times> 'z fs_state_scheme) result"
where
  "readi ev ip dst off n s =
     (if i_type (inodes s ip) = T_DEV then
        case Option.bind (major_of (inodes s ip)) (e_devread ev) of
          None \<Rightarrow> Inr ((-1, []), s)
        | Some rd \<Rightarrow> rd ip dst n s
      else if i_size (inodes s ip) < off \<or> off + n < off then Inr ((-1, []), s)
      else
        let n = (if i_size (inodes s ip) < off + n then i_size (inodes s ip) - off else n) in
        bnd (readi_loop ev ip dst off n 0 s) (\<lambda>(bytes, s).
        Inr ((sint n, bytes), s)))"

function writei_loop ::
  "'z fs_state_scheme env \<Rightarrow> nat \<Rightarrow> 'z fs_state_scheme source \<Rightarrow> uint \<Rightarrow> uint \<Rightarrow> uint \<Rightarrow> 'z fs_state_scheme
   \<Rightarrow> (uint \<times> 'z fs_state_scheme) result"
where
  "writei_loop ev ip src off n tot s =
     (if tot < n then
        bnd (bmap ev ip (off div of_nat BSIZE) s) (\<lambda>(a, s).
        bnd (bread ev (i_dev (inodes s ip)) a s) (\<lambda>(bp, s).
        let m = chunk n tot off in
        bnd (src (unat tot) (unat m) s) (\<lambda>bytes.
        let s = set_data bp (splice (b_data (bufs s bp)) (unat (off mod of_nat BSIZE)) bytes) s in
        bnd (log_write bp s) (\<lambda>s.
        bnd (brelse bp s) (\<lambda>s.
        writei_loop ev ip src (off + m) n (tot + m) s)))))
      else Inr (off, s))"
  by pat_completeness auto
termination
  by (relation "measure (\<lambda>(ev, ip, src, off, n, tot, s). unat (n - tot))") (simp_all add: chunk_progress)

declare writei_loop.simps [simp del]

definition writei ::
  "'z fs_state_scheme env \<Rightarrow> nat \<Rightarrow> 'z fs_state_scheme source \<Rightarrow> uint \<Rightarrow> uint \<Rightarrow> 'z fs_state_scheme
   \<Rightarrow> (int \<times> 'z fs_state_scheme) result"
where
  "writei ev ip src off n s =
     (if i_type (inodes s ip) = T_DEV then
        case Option.bind (major_of (inodes s ip)) (e_devwrite ev) of
          None \<Rightarrow> Inr (-1, s)
        | Some wr \<Rightarrow> wr ip src n s
      else if i_size (inodes s ip) < off \<or> off + n < off then Inr (-1, s)
      else if of_nat (MAXFILE * BSIZE) < off + n then Inr (-1, s)
      else
        bnd (writei_loop ev ip src off n 0 s) (\<lambda>(off, s).
        if 0 < n \<and> i_size (inodes s ip) < off then
          let s = set_inode ip ((inodes s ip)\<lparr>i_size := off\<rparr>) s in
          bnd (iupdate ev ip s) (\<lambda>s.
          Inr (sint n, s))
        else Inr (sint n, s)))"

section \<open>Directories\<close>

text \<open>
  The string comparison and copy that directory names use. A byte past the end of a list is
  the NUL that ends the string; a name of \<open>DIRSIZ\<close> bytes has none and is not read further.
\<close>

definition char_at :: "uchar list \<Rightarrow> uchar" where
  "char_at xs = (case xs of [] \<Rightarrow> 0 | c # _ \<Rightarrow> c)"

fun strncmp_bytes :: "nat \<Rightarrow> uchar list \<Rightarrow> uchar list \<Rightarrow> int" where
  "strncmp_bytes 0 p q = 0"
| "strncmp_bytes (Suc n) p q =
     (if char_at p \<noteq> 0 \<and> char_at p = char_at q then strncmp_bytes n (tl p) (tl q)
      else uint (char_at p) - uint (char_at q))"

definition namecmp :: "uchar list \<Rightarrow> uchar list \<Rightarrow> int" where
  "namecmp s t = strncmp_bytes DIRSIZ s t"

definition strncpy_bytes :: "nat \<Rightarrow> uchar list \<Rightarrow> uchar list" where
  "strncpy_bytes n t =
     (let c = take n (takeWhile (\<lambda>b. b \<noteq> 0) t) in c @ replicate (n - length c) 0)"

definition de_inum :: "uchar list \<Rightarrow> ushort" where
  "de_inum de = get16 de 0"

definition de_name :: "uchar list \<Rightarrow> uchar list" where
  "de_name de = take DIRSIZ (drop 2 de)"

definition mk_dirent :: "ushort \<Rightarrow> uchar list \<Rightarrow> uchar list" where
  "mk_dirent i nm = put16 [0, 0] 0 i @ strncpy_bytes DIRSIZ nm"

text \<open>Entries of a directory sit at the multiples of their size; the offset of a match is part of the result.\<close>

function dirlookup_loop ::
  "'z fs_state_scheme env \<Rightarrow> nat \<Rightarrow> uchar list \<Rightarrow> uint \<Rightarrow> 'z fs_state_scheme
   \<Rightarrow> ((nat \<times> uint) option \<times> 'z fs_state_scheme) result"
where
  "dirlookup_loop ev dp name off s =
     (if off < i_size (inodes s dp) then
        bnd (readi ev dp keep off DIRENT_SIZE s) (\<lambda>((r, de), s).
        if r \<noteq> 16 then Inl (Panic ''dirlookup read'')
        else if de_inum de \<noteq> 0 \<and> namecmp name (de_name de) = 0 then
          bnd (iget (i_dev (inodes s dp)) (ucast (de_inum de)) s) (\<lambda>(ip, s).
          Inr (Some (ip, off), s))
        else if off + DIRENT_SIZE \<le> off then Inl Spin
        else dirlookup_loop ev dp name (off + DIRENT_SIZE) s)
      else Inr (None, s))"
  by pat_completeness auto
termination
  by (relation "measure (\<lambda>(ev, dp, name, off, s). 2 ^ 32 - unat off)") 
    (auto simp: word_le_nat_alt not_le intro!: diff_less_mono2 unat_uint_less [simplified])

declare dirlookup_loop.simps [simp del]

definition dirlookup ::
  "'z fs_state_scheme env \<Rightarrow> nat \<Rightarrow> uchar list \<Rightarrow> 'z fs_state_scheme
   \<Rightarrow> ((nat \<times> uint) option \<times> 'z fs_state_scheme) result"
where
  "dirlookup ev dp name s =
     (if i_type (inodes s dp) \<noteq> T_DIR then Inl (Panic ''dirlookup not DIR'')
      else dirlookup_loop ev dp name 0 s)"

text \<open>The offset of the first free entry, or the end of the directory.\<close>

function free_dirent ::
  "'z fs_state_scheme env \<Rightarrow> nat \<Rightarrow> uint \<Rightarrow> 'z fs_state_scheme \<Rightarrow> (uint \<times> 'z fs_state_scheme) result"
where
  "free_dirent ev dp off s =
     (if off < i_size (inodes s dp) then
        bnd (readi ev dp keep off DIRENT_SIZE s) (\<lambda>((r, de), s).
        if r \<noteq> 16 then Inl (Panic ''dirlink read'')
        else if de_inum de = 0 then Inr (off, s)
        else if off + DIRENT_SIZE \<le> off then Inl Spin
        else free_dirent ev dp (off + DIRENT_SIZE) s)
      else Inr (off, s))"
  by pat_completeness auto
termination
  by (relation "measure (\<lambda>(ev, dp, off, s). 2 ^ 32 - unat off)")
    (auto simp: word_le_nat_alt not_le intro!: diff_less_mono2 unat_uint_less [simplified])

declare free_dirent.simps [simp del]

definition dirlink ::
  "'z fs_state_scheme env \<Rightarrow> nat \<Rightarrow> uchar list \<Rightarrow> uint \<Rightarrow> 'z fs_state_scheme
   \<Rightarrow> (int \<times> 'z fs_state_scheme) result"
where
  "dirlink ev dp name inum s =
     bnd (dirlookup ev dp name s) (\<lambda>(found, s).
     case found of
       Some (ip, _) \<Rightarrow> bnd (iput ev ip s) (\<lambda>s. Inr (-1, s))
     | None \<Rightarrow>
         bnd (free_dirent ev dp 0 s) (\<lambda>(off, s).
         bnd (writei ev dp (from_bytes (mk_dirent (ucast inum) name)) off DIRENT_SIZE s) (\<lambda>(r, s).
         if r \<noteq> 16 then Inl (Panic ''dirlink'') else Inr (0, s))))"

section \<open>Paths\<close>

definition slash :: uchar where
  "slash = 47"

text \<open>
  The next element of a path, copied into a buffer of \<open>DIRSIZ\<close> bytes, and the path after it.
  A long element is cut; a short one leaves the rest of the buffer as it was.
\<close>

definition name_into :: "uchar list \<Rightarrow> uchar list \<Rightarrow> uchar list" where
  "name_into elem name =
     (if DIRSIZ \<le> length elem then take DIRSIZ elem else elem @ [0] @ drop (length elem + 1) name)"

definition skipelem :: "uchar list \<Rightarrow> uchar list \<Rightarrow> (uchar list \<times> uchar list) option" where
  "skipelem path name =
     (let path = dropWhile (\<lambda>c. c = slash) path in
      if path = [] then None
      else
        let elem = takeWhile (\<lambda>c. c \<noteq> slash) path; path = dropWhile (\<lambda>c. c \<noteq> slash) path in
        Some (dropWhile (\<lambda>c. c = slash) path, name_into elem name))"

lemma skipelem_shorter:
  assumes "skipelem path name = Some (path', name')"
  shows "length path' < length path"
proof -
  let ?p = "dropWhile (\<lambda>c. c = slash) path"
  have "?p \<noteq> []" and path': "path' = dropWhile (\<lambda>c. c = slash) (dropWhile (\<lambda>c. c \<noteq> slash) ?p)"
    using assms by (auto simp: skipelem_def Let_def split: if_splits)
  then obtain x xs where p: "?p = x # xs" and "x \<noteq> slash"
    by (metis (full_types) hd_dropWhile list.exhaust list.sel(1))
  then have "length path' \<le> length xs"
    unfolding path' p by (simp add: order.trans [OF length_dropWhile_le length_dropWhile_le])
  moreover have "length ?p \<le> length path"
    by (rule length_dropWhile_le)
  ultimately show ?thesis
    by (simp add: p)
qed

function namex_loop ::
  "'z fs_state_scheme env \<Rightarrow> bool \<Rightarrow> uchar list \<Rightarrow> uchar list \<Rightarrow> nat \<Rightarrow> 'z fs_state_scheme
   \<Rightarrow> ((nat option \<times> uchar list) \<times> 'z fs_state_scheme) result"
where
  "namex_loop ev parent path name ip s =
     (case skipelem path name of
        None \<Rightarrow>
          if parent then bnd (iput ev ip s) (\<lambda>s. Inr ((None, name), s))
          else Inr ((Some ip, name), s)
      | Some (path, name) \<Rightarrow>
          bnd (ilock ev ip s) (\<lambda>s.
          if i_type (inodes s ip) \<noteq> T_DIR then
            bnd (iunlockput ev ip s) (\<lambda>s. Inr ((None, name), s))
          else if parent \<and> path = [] then
            bnd (iunlock ip s) (\<lambda>s. Inr ((Some ip, name), s))
          else
            bnd (dirlookup ev ip name s) (\<lambda>(next, s).
            bnd (iunlockput ev ip s) (\<lambda>s.
            case next of
              None \<Rightarrow> Inr ((None, name), s)
            | Some (ip', _) \<Rightarrow> namex_loop ev parent path name ip' s))))"
  by pat_completeness auto
termination
  by (relation "measure (\<lambda>(ev, parent, path, name, ip, s). length path)") (auto dest: skipelem_shorter)

declare namex_loop.simps [simp del]

text \<open>\<open>name\<close> is the content of the caller's buffer, which a local array leaves undefined.\<close>

definition namex ::
  "'z fs_state_scheme env \<Rightarrow> uchar list \<Rightarrow> bool \<Rightarrow> uchar list \<Rightarrow> 'z fs_state_scheme
   \<Rightarrow> ((nat option \<times> uchar list) \<times> 'z fs_state_scheme) result"
where
  "namex ev path parent name s =
     (if char_at path = slash then
        bnd (iget ROOTDEV ROOTINO s) (\<lambda>(ip, s). namex_loop ev parent path name ip s)
      else
        bnd (curproc s) (\<lambda>(p, s).
        case p_cwd (procs s p) of
          None \<Rightarrow> Inl (Fault ''idup(0)'')
        | Some cwd \<Rightarrow> bnd (idup cwd s) (\<lambda>(ip, s). namex_loop ev parent path name ip s)))"

definition namei ::
  "'z fs_state_scheme env \<Rightarrow> uchar list \<Rightarrow> 'z fs_state_scheme \<Rightarrow> (nat option \<times> 'z fs_state_scheme) result"
where
  "namei ev path s =
     bnd (namex ev path False (replicate DIRSIZ 0) s) (\<lambda>((ip, _), s). Inr (ip, s))"

definition nameiparent ::
  "'z fs_state_scheme env \<Rightarrow> uchar list \<Rightarrow> uchar list \<Rightarrow> 'z fs_state_scheme
   \<Rightarrow> ((nat option \<times> uchar list) \<times> 'z fs_state_scheme) result"
where
  "nameiparent ev path name s = namex ev path True name s"

section \<open>Properties of paths\<close>

text \<open>The elements of a path: its maximal pieces without a slash.\<close>

fun path_elems :: "uchar list \<Rightarrow> uchar list list" where
  "path_elems [] = []"
| "path_elems (c # cs) =
     (if c = slash then path_elems cs
      else if cs = [] \<or> hd cs = slash then [c] # path_elems cs
      else (c # hd (path_elems cs)) # tl (path_elems cs))"

lemma path_elems_slashes: "path_elems (dropWhile (\<lambda>c. c = slash) p) = path_elems p"
  by (induction p) simp_all

lemma path_elems_first:
  "p \<noteq> [] \<Longrightarrow> hd p \<noteq> slash \<Longrightarrow>
   path_elems p = takeWhile (\<lambda>c. c \<noteq> slash) p # path_elems (dropWhile (\<lambda>c. c \<noteq> slash) p)"
proof (induction p)
  case (Cons c cs)
  then show ?case by (cases cs) auto
qed simp

lemma path_elems_empty: "path_elems p = [] \<longleftrightarrow> dropWhile (\<lambda>c. c = slash) p = []"
  by (induction p) auto

text \<open>C29. \<open>skipelem\<close> takes a path apart into its elements: it returns null exactly when none is left,
  otherwise it copies the first element, cut to 14 bytes, and returns a path with the remaining
  elements, which is the empty string exactly when there are none.\<close>

theorem skipelem_elems:
  "case path_elems path of
     [] \<Rightarrow> skipelem path name = None
   | e # es \<Rightarrow> \<exists>rest. skipelem path name = Some (rest, name_into e name) \<and> path_elems rest = es \<and> (rest = [] \<longleftrightarrow> es = [])"
proof (cases "dropWhile (\<lambda>c. c = slash) path")
  case Nil
  then have "path_elems path = []" by (simp add: path_elems_empty)
  with Nil show ?thesis by (simp add: skipelem_def)
next
  case (Cons c cs)
  then have "c \<noteq> slash" using hd_dropWhile [of "\<lambda>c. c = slash" path] by simp
  then have pe: "path_elems path = takeWhile (\<lambda>c. c \<noteq> slash) (c # cs) # path_elems (dropWhile (\<lambda>c. c \<noteq> slash) (c # cs))"
    using path_elems_first [of "c # cs"] path_elems_slashes [of path] Cons by simp
  let ?rest = "dropWhile (\<lambda>c. c = slash) (dropWhile (\<lambda>c. c \<noteq> slash) (c # cs))"
  have "skipelem path name = Some (?rest, name_into (takeWhile (\<lambda>c. c \<noteq> slash) (c # cs)) name)"
    by (simp only: skipelem_def Cons Let_def list.distinct if_False)
  moreover have "path_elems ?rest = path_elems (dropWhile (\<lambda>c. c \<noteq> slash) (c # cs))"
    by (rule path_elems_slashes)
  moreover have "?rest = [] \<longleftrightarrow> path_elems (dropWhile (\<lambda>c. c \<noteq> slash) (c # cs)) = []"
    by (rule path_elems_empty [symmetric])
  ultimately show ?thesis
    unfolding pe list.case by (intro exI [of _ ?rest] conjI)
qed

section \<open>Properties of directory entries\<close>

lemma strncmp_bytes_zero:
  "strncmp_bytes n p q = 0 \<longleftrightarrow> take n (takeWhile (\<lambda>b. b \<noteq> 0) p) = take n (takeWhile (\<lambda>b. b \<noteq> 0) q)"
proof (induction n arbitrary: p q)
  case (Suc n)
  show ?case
    by (cases p; cases q) (auto simp: char_at_def Suc word_uint_eq_iff)
qed simp

lemma takeWhile_strncpy: "takeWhile (\<lambda>b. b \<noteq> 0) (strncpy_bytes n t) = take n (takeWhile (\<lambda>b. b \<noteq> 0) t)"
proof -
  have "takeWhile (\<lambda>b. b \<noteq> 0) (take n (takeWhile (\<lambda>b. b \<noteq> 0) t) @ replicate k 0) = take n (takeWhile (\<lambda>b. b \<noteq> 0) t)" for k
    by (subst takeWhile_append2) (auto dest!: in_set_takeD set_takeWhileD)
  then show ?thesis by (simp add: strncpy_bytes_def Let_def)
qed

lemma length_strncpy: "length (strncpy_bytes n t) = n"
  by (simp add: strncpy_bytes_def Let_def)

text \<open>A directory entry is read back as it was written: its inode number, and its name as far as
  names are told apart, by their first 14 bytes before a NUL. Another name matches the entry
  exactly when it agrees with the one written in those bytes.\<close>

theorem dirent_roundtrip:
  "length (mk_dirent i nm) = 16 \<and> de_inum (mk_dirent i nm) = i
   \<and> (namecmp other (de_name (mk_dirent i nm)) = 0
        \<longleftrightarrow> take DIRSIZ (takeWhile (\<lambda>b. b \<noteq> 0) other) = take DIRSIZ (takeWhile (\<lambda>b. b \<noteq> 0) nm))"
proof -
  have "get16 (put16 [0, 0] 0 i @ ys) 0 = i" for ys
    using get16_put16 [of 0 "[0, 0]" i] by (simp add: get16_def nth_append)
  then show ?thesis
    by (simp add: mk_dirent_def de_inum_def de_name_def namecmp_def strncmp_bytes_zero takeWhile_strncpy
        length_strncpy DIRSIZ_def)
qed

section \<open>Properties of inodes on disk\<close>

lemma length_put_addrs [simp]: "length (put_addrs d off as) = length d"
  by (induction as arbitrary: d off) simp_all

lemma put_addrs_other: "j + 4 \<le> off \<or> off + 4 * length as \<le> j \<Longrightarrow> get32 (put_addrs d off as) j = get32 d j"
proof (induction as arbitrary: d off)
  case (Cons a as)
  then have "j + 4 \<le> off + 4 \<or> off + 4 + 4 * length as \<le> j" by auto
  with Cons show ?case by (auto simp: block_simps)
qed simp

lemma put_addrs_other16: "j + 2 \<le> off \<or> off + 4 * length as \<le> j \<Longrightarrow> get16 (put_addrs d off as) j = get16 d j"
proof (induction as arbitrary: d off)
  case (Cons a as)
  then have "j + 2 \<le> off + 4 \<or> off + 4 + 4 * length as \<le> j" by auto
  with Cons show ?case by (auto simp: block_simps)
qed simp

lemma put_addrs_get:
  "off + 4 * length as \<le> length d \<Longrightarrow> k < length as \<Longrightarrow> get32 (put_addrs d off as) (off + 4 * k) = as ! k"
proof (induction as arbitrary: d off k)
  case (Cons a as)
  show ?case
  proof (cases k)
    case 0
    then show ?thesis using Cons.prems by (simp add: put_addrs_other block_simps)
  next
    case (Suc j)
    then show ?thesis using Cons.IH [of "off + 4" "put32 d off a" j] Cons.prems by (simp add: algebra_simps)
  qed
qed simp

lemma put_dinode_fields:
  assumes "off + 12 \<le> length d"
  shows "get16 (put_dinode d off v) off = d_type v" "get16 (put_dinode d off v) (off + 2) = d_major v"
    "get16 (put_dinode d off v) (off + 4) = d_minor v" "get16 (put_dinode d off v) (off + 6) = d_nlink v"
    "get32 (put_dinode d off v) (off + 8) = d_size v"
  using assms by (simp_all add: put_dinode_def Let_def put_addrs_other put_addrs_other16 block_simps)

lemma put_dinode_addrs:
  assumes "off + 12 + 4 * length (d_addrs v) \<le> length d"
  shows "map (\<lambda>k. get32 (put_dinode d off v) (off + 12 + 4 * k)) [0..<length (d_addrs v)] = d_addrs v"
  using assms by (intro nth_equalityI) (simp_all add: put_dinode_def Let_def put_addrs_get)

lemma put_dinode_other:
  assumes "j + k \<le> off \<or> off + 12 + 4 * length (d_addrs v) \<le> j"
  shows "k = 4 \<Longrightarrow> get32 (put_dinode d off v) j = get32 d j" "k = 2 \<Longrightarrow> get16 (put_dinode d off v) j = get16 d j"
  using assms
  by (elim disjE; simp add: put_dinode_def Let_def put_addrs_other put_addrs_other16 block_simps)+

lemma dinode_at_put_other:
  assumes "j + 64 \<le> off \<or> off + 64 \<le> j" "length (d_addrs v) = NDIRECT + 1"
  shows "dinode_at (put_dinode d off v) j = dinode_at d j"
proof -
  have "get32 (put_dinode d off v) (j + 12 + 4 * k) = get32 d (j + 12 + 4 * k)" if "k < NDIRECT + 1" for k
    by (rule put_dinode_other(1) [where k = 4]) (use assms that in \<open>auto simp: NDIRECT_def\<close>)
  moreover have "get32 (put_dinode d off v) (j + 8) = get32 d (j + 8)"
    by (rule put_dinode_other(1) [where k = 4]) (use assms in \<open>auto simp: NDIRECT_def\<close>)
  moreover have "get16 (put_dinode d off v) (j + l) = get16 d (j + l)" if "l \<le> 6" for l
    by (rule put_dinode_other(2) [where k = 2]) (use assms that in \<open>auto simp: NDIRECT_def\<close>)
  note this [of 0] this [of 2] this [of 4] this [of 6]
  ultimately show ?thesis by (simp add: dinode_at_def)
qed

text \<open>An inode written into its slot of an inode block is read back unchanged, and the other seven
  inodes of the block keep their contents.\<close>

theorem dinode_roundtrip:
  assumes "length d = BSIZE" "length (d_addrs v) = NDIRECT + 1"
  shows "dinode_at (put_dinode d (dinode_off i) v) (dinode_off i) = v
    \<and> (i mod IPB \<noteq> j mod IPB \<longrightarrow> dinode_at (put_dinode d (dinode_off i) v) (dinode_off j) = dinode_at d (dinode_off j))"
proof -
  have le: "unat (k mod IPB) \<le> 7" for k
    using word_mod_less_divisor [of IPB k] by (simp add: IPB_def word_less_nat_alt)
  have off: "dinode_off i + 64 \<le> length d"
    using le [of i] assms(1) by (simp add: dinode_off_def DINODE_SIZE_def BSIZE_def)
  have sep: "dinode_off j + 64 \<le> dinode_off i \<or> dinode_off i + 64 \<le> dinode_off j" if "i mod IPB \<noteq> j mod IPB"
  proof -
    have "unat (i mod IPB) \<noteq> unat (j mod IPB)" using that by (simp add: word_unat_eq_iff)
    then show ?thesis by (auto simp: dinode_off_def DINODE_SIZE_def)
  qed
  have "dinode_at (put_dinode d (dinode_off i) v) (dinode_off i) = v"
    using off put_dinode_fields [of "dinode_off i" d v] put_dinode_addrs [of "dinode_off i" v d]
    by (simp add: dinode_at_def assms(2) NDIRECT_def)
  with sep dinode_at_put_other [of "dinode_off j" "dinode_off i" v d] assms(2) show ?thesis by blast
qed

theorem dinode_roundtrip_witness:
  "dinode_at (put_dinode (replicate BSIZE 0) (dinode_off 11)
      \<lparr>d_type = T_FILE, d_major = 0, d_minor = 0, d_nlink = 1, d_size = 700, d_addrs = replicate 13 40\<rparr>) (dinode_off 11)
    = \<lparr>d_type = T_FILE, d_major = 0, d_minor = 0, d_nlink = 1, d_size = 700, d_addrs = replicate 13 40\<rparr>"
  using dinode_roundtrip [of "replicate BSIZE 0"
    "\<lparr>d_type = T_FILE, d_major = 0, d_minor = 0, d_nlink = 1, d_size = 700, d_addrs = replicate 13 40\<rparr>" 11 0]
  by (simp add: NDIRECT_def)

section \<open>A machine with an empty inode cache\<close>

definition fs_demo :: fs_state where
  "fs_demo = log_state.extend log_demo
     \<lparr>inodes = (\<lambda>_. \<lparr>i_dev = 0, i_inum = 0, i_ref = 0, i_valid = False, i_type = 0, i_major = 0, i_minor = 0, i_nlink = 0,
         i_size = 0, i_addrs = replicate 13 0\<rparr>),
      fs_sb = \<lparr>sb_size = 1000, sb_nblocks = 900, sb_ninodes = 200, sb_nlog = 40, sb_logstart = 2, sb_inodestart = 42,
         sb_bmapstart = 68\<rparr>\<rparr>"

lemmas fs_demo_defs = fs_demo_def log_state.defs log_demo_defs

lemma fs_demo_ok: "cpu_ok 0 fs_demo" "free_lock l fs_demo" "sched_inv fs_demo" "cproc (cpus fs_demo c) = Some 0"
  using bio_demo_ok(1) bio_demo_ok(2) [of l] bio_demo_ok(3) bio_demo_ok(4) [of c] sched_inv_cong [of fs_demo bio_demo]
  by (simp_all add: cpu_ok_def this_cpu_def free_lock_def fs_demo_defs)

end
