(* ===== verification/Pipe.thy ===== *)
theory Pipe
  imports Fs
begin

text \<open>
  Pipes (\<open>pipe.c\<close>): a ring of \<open>PIPESIZE\<close> bytes between two counters that only grow, modulo
  \<open>2 ^ 32\<close>. A pipe fills a page of the allocator and is named by the page's address; its fields
  are kept as a record rather than as bytes of the page. \<open>pipealloc\<close> is with the files it makes,
  in \<open>File\<close>.
\<close>

section \<open>Operations\<close>

definition PIPESIZE :: uint where "PIPESIZE = 512"

record pipe =
  pi_data :: "uchar list"
  pi_nread :: uint
  pi_nwrite :: uint
  pi_readopen :: bool
  pi_writeopen :: bool

record pipe_state = fs_state +
  pipes :: "uint \<Rightarrow> pipe"

definition set_pipe :: "uint \<Rightarrow> pipe \<Rightarrow> 'z pipe_state_scheme \<Rightarrow> 'z pipe_state_scheme" where
  "set_pipe p v s = s\<lparr>pipes := (pipes s)(p := v)\<rparr>"

definition pipeclose :: "uint \<Rightarrow> bool \<Rightarrow> 'z pipe_state_scheme \<Rightarrow> 'z pipe_state_scheme result" where
  "pipeclose p writable s =
     bnd (acquire (PipeLk p) s) (\<lambda>s.
     bnd (if writable then wakeup (ChPipeR p) (set_pipe p ((pipes s p)\<lparr>pi_writeopen := False\<rparr>) s)
          else wakeup (ChPipeW p) (set_pipe p ((pipes s p)\<lparr>pi_readopen := False\<rparr>) s)) (\<lambda>s.
     if \<not> pi_readopen (pipes s p) \<and> \<not> pi_writeopen (pipes s p) then
       bnd (release (PipeLk p) s) (\<lambda>s. kfree p s)
     else release (PipeLk p) s))"

text \<open>One byte in and one byte out.\<close>

definition pipe_put :: "uchar \<Rightarrow> pipe \<Rightarrow> pipe" where
  "pipe_put b q =
     q\<lparr>pi_data := (pi_data q)[unat (pi_nwrite q mod PIPESIZE) := b], pi_nwrite := pi_nwrite q + 1\<rparr>"

definition pipe_get :: "pipe \<Rightarrow> uchar \<times> pipe" where
  "pipe_get q =
     (pi_data q ! unat (pi_nread q mod PIPESIZE), q\<lparr>pi_nread := pi_nread q + 1\<rparr>)"

lemma wakeup1_slot_switches: "wakeup1_slot ch p s = Inr t \<Longrightarrow> switches t = switches s"
  by (auto simp: wakeup1_slot_def enqueue_or_panic_def pq_enqueue_def set_proc_def bnd_eq_Inr Let_def
      split: if_splits)

lemma wakeup_switches:
  assumes "wakeup ch s = Inr t"
  shows "switches t = switches s"
proof -
  from assms obtain u v where a: "acquire PtableLock s = Inr u" and w: "wakeup1 ch u = Inr v"
    and r: "release PtableLock v = Inr t"
    by (auto simp: wakeup_def bnd_eq_Inr)
  from w have "switches v = switches u"
    unfolding wakeup1_def
    by (rule for_each_inv [where P = "\<lambda>v. switches v = switches u"]) (auto dest: wakeup1_slot_switches)
  then show ?thesis
    using acquire_switches [OF a] release_switches [OF r] by simp
qed

text \<open>
  Before each byte the writer waits for room. The result is \<open>False\<close> when it gives up, because
  no reader is left or the process has been killed; the lock is then released.
\<close>

definition writer_gives_up :: "uint \<Rightarrow> 'z pipe_state_scheme \<Rightarrow> (bool \<times> 'z pipe_state_scheme) result" where
  "writer_gives_up p s =
     (if \<not> pi_readopen (pipes s p) then Inr (True, s)
      else bnd (curproc s) (\<lambda>(q, s). Inr (p_killed (procs s q), s)))"

lemma writer_gives_up_switches: "writer_gives_up p s = Inr (b, t) \<Longrightarrow> switches t = switches s"
  by (auto simp: writer_gives_up_def bnd_eq_Inr split: if_splits dest: curproc_switches)

function pipe_room ::
  "('z pipe_state_scheme \<Rightarrow> 'z pipe_state_scheme) \<Rightarrow> uint \<Rightarrow> 'z pipe_state_scheme
   \<Rightarrow> (bool \<times> 'z pipe_state_scheme) result"
where
  "pipe_room others p s =
     (if pi_nwrite (pipes s p) = pi_nread (pipes s p) + PIPESIZE then
        bnd (writer_gives_up p s) (\<lambda>(out, s).
        if out then bnd (release (PipeLk p) s) (\<lambda>s. Inr (False, s))
        else
          bnd (wakeup (ChPipeR p) s) (\<lambda>s.
          bnd (sleep others (ChPipeW p) (PipeLk p) s) (\<lambda>s.
          pipe_room others p s)))
      else Inr (True, s))"
  by pat_completeness auto
termination
  by (relation "measure (\<lambda>(others, p, s). switches s)")
    (auto dest!: sleep_switches wakeup_switches writer_gives_up_switches)

declare pipe_room.simps [simp del]

text \<open>\<open>k\<close> bytes are still to be written, the next one at offset \<open>i\<close> of the source.\<close>

fun pipewrite_loop ::
  "('z pipe_state_scheme \<Rightarrow> 'z pipe_state_scheme) \<Rightarrow> uint \<Rightarrow> 'z pipe_state_scheme source \<Rightarrow> nat \<Rightarrow> nat
   \<Rightarrow> 'z pipe_state_scheme \<Rightarrow> (bool \<times> 'z pipe_state_scheme) result"
where
  "pipewrite_loop others p src i 0 s = Inr (True, s)"
| "pipewrite_loop others p src i (Suc k) s =
     bnd (pipe_room others p s) (\<lambda>(ok, s).
     if \<not> ok then Inr (False, s)
     else
       bnd (src i 1 s) (\<lambda>bs.
       let s = set_pipe p (pipe_put (char_at bs) (pipes s p)) s in
       pipewrite_loop others p src (Suc i) k s))"

definition pipewrite ::
  "('z pipe_state_scheme \<Rightarrow> 'z pipe_state_scheme) \<Rightarrow> uint \<Rightarrow> 'z pipe_state_scheme source \<Rightarrow> int
   \<Rightarrow> 'z pipe_state_scheme \<Rightarrow> (int \<times> 'z pipe_state_scheme) result"
where
  "pipewrite others p src n s =
     bnd (acquire (PipeLk p) s) (\<lambda>s.
     bnd (pipewrite_loop others p src 0 (nat n) s) (\<lambda>(ok, s).
     if \<not> ok then Inr (-1, s)
     else
       bnd (wakeup (ChPipeR p) s) (\<lambda>s.
       bnd (release (PipeLk p) s) (\<lambda>s.
       Inr (n, s)))))"

function pipe_await ::
  "('z pipe_state_scheme \<Rightarrow> 'z pipe_state_scheme) \<Rightarrow> uint \<Rightarrow> 'z pipe_state_scheme
   \<Rightarrow> (bool \<times> 'z pipe_state_scheme) result"
where
  "pipe_await others p s =
     (if pi_nread (pipes s p) = pi_nwrite (pipes s p) \<and> pi_writeopen (pipes s p) then
        bnd (curproc s) (\<lambda>(q, s).
        if p_killed (procs s q) then bnd (release (PipeLk p) s) (\<lambda>s. Inr (False, s))
        else
          bnd (sleep others (ChPipeR p) (PipeLk p) s) (\<lambda>s.
          pipe_await others p s))
      else Inr (True, s))"
  by pat_completeness auto
termination
  by (relation "measure (\<lambda>(others, p, s). switches s)") (auto dest!: sleep_switches curproc_switches)

declare pipe_await.simps [simp del]

fun piperead_loop ::
  "uint \<Rightarrow> 'z pipe_state_scheme sink \<Rightarrow> nat \<Rightarrow> nat \<Rightarrow> 'z pipe_state_scheme
   \<Rightarrow> (uchar list \<times> 'z pipe_state_scheme) result"
where
  "piperead_loop p dst i 0 s = Inr ([], s)"
| "piperead_loop p dst i (Suc k) s =
     (if pi_nread (pipes s p) = pi_nwrite (pipes s p) then Inr ([], s)
      else
        let (b, q) = pipe_get (pipes s p) in
        bnd (dst i [b] (set_pipe p q s)) (\<lambda>s.
        bnd (piperead_loop p dst (Suc i) k s) (\<lambda>(bs, s).
        Inr (b # bs, s))))"

definition piperead ::
  "('z pipe_state_scheme \<Rightarrow> 'z pipe_state_scheme) \<Rightarrow> uint \<Rightarrow> 'z pipe_state_scheme sink \<Rightarrow> int
   \<Rightarrow> 'z pipe_state_scheme \<Rightarrow> ((int \<times> uchar list) \<times> 'z pipe_state_scheme) result"
where
  "piperead others p dst n s =
     bnd (acquire (PipeLk p) s) (\<lambda>s.
     bnd (pipe_await others p s) (\<lambda>(ok, s).
     if \<not> ok then Inr ((-1, []), s)
     else
       bnd (piperead_loop p dst 0 (nat n) s) (\<lambda>(bs, s).
       bnd (wakeup (ChPipeW p) s) (\<lambda>s.
       bnd (release (PipeLk p) s) (\<lambda>s.
       Inr ((int (length bs), bs), s))))))"

section \<open>The ring as a bounded queue\<close>

text \<open>
  The bytes in a pipe are those between the two counters. The counters wrap at \<open>2 ^ 32\<close>, a
  multiple of \<open>PIPESIZE\<close>, so that the positions stay right when they do.
\<close>

definition pipe_items :: "pipe \<Rightarrow> uchar list" where
  "pipe_items q = map (\<lambda>k. pi_data q ! ((unat (pi_nread q) + k) mod 512)) [0..<unat (pi_nwrite q - pi_nread q)]"

definition pipe_ok :: "pipe \<Rightarrow> bool" where
  "pipe_ok q \<longleftrightarrow> length (pi_data q) = 512 \<and> pi_nwrite q - pi_nread q \<le> PIPESIZE"

lemma unat_mod_512: "unat (x mod PIPESIZE) = unat x mod 512"
  by (simp add: PIPESIZE_def unat_mod)

lemma unat_add_mod_512: "unat (x + y :: uint) mod 512 = (unat x + unat y) mod 512"
  by (simp add: unat_word_ariths mod_mod_cancel)

lemma length_pipe_items: "length (pipe_items q) = unat (pi_nwrite q - pi_nread q)"
  by (simp add: pipe_items_def)

lemma pipe_ok_iff: "pipe_ok q \<longleftrightarrow> length (pi_data q) = 512 \<and> length (pipe_items q) \<le> 512"
  by (simp add: pipe_ok_def length_pipe_items PIPESIZE_def word_le_nat_alt)

lemma pipe_full_iff: "pi_nwrite q = pi_nread q + PIPESIZE \<longleftrightarrow> length (pipe_items q) = 512"
proof -
  have "pi_nwrite q = pi_nread q + PIPESIZE \<longleftrightarrow> pi_nwrite q - pi_nread q = PIPESIZE"
    by (auto simp: algebra_simps)
  then show ?thesis
    by (simp add: length_pipe_items PIPESIZE_def word_unat_eq_iff)
qed

lemma pipe_put_items:
  assumes "pipe_ok q" "length (pipe_items q) < 512"
  shows "pipe_items (pipe_put b q) = pipe_items q @ [b]" "pipe_ok (pipe_put b q)"
proof -
  let ?n = "unat (pi_nwrite q - pi_nread q)"
  have n: "?n < 512" using assms(2) by (simp add: length_pipe_items)
  then have n': "unat (pi_nwrite q + 1 - pi_nread q) = ?n + 1"
    using unat_plus_one [of "pi_nwrite q - pi_nread q"] by (simp add: algebra_simps)
  have w: "unat (pi_nwrite q mod PIPESIZE) = (unat (pi_nread q) + ?n) mod 512"
    using unat_add_mod_512 [of "pi_nread q" "pi_nwrite q - pi_nread q"] by (simp add: unat_mod_512)
  have ne: "(unat (pi_nread q) + ?n) mod 512 \<noteq> (unat (pi_nread q) + k) mod 512" if "k < ?n" for k
  proof
    assume "(unat (pi_nread q) + ?n) mod 512 = (unat (pi_nread q) + k) mod 512"
    then have "512 dvd ?n - k"
      using mod_eq_dvd_iff_nat [of "unat (pi_nread q) + k" "unat (pi_nread q) + ?n" 512] that by simp
    with that n show False by (auto dest: dvd_imp_le)
  qed
  show "pipe_items (pipe_put b q) = pipe_items q @ [b]"
    using assms(1) ne by (auto simp: pipe_items_def pipe_put_def n' w pipe_ok_def)
  then show "pipe_ok (pipe_put b q)"
    using assms by (simp add: pipe_ok_iff) (simp add: pipe_put_def)
qed

lemma pipe_get_items:
  assumes "pipe_ok q" "pipe_items q = b # bs"
  shows "fst (pipe_get q) = b" "pipe_items (snd (pipe_get q)) = bs" "pipe_ok (snd (pipe_get q))"
proof -
  let ?n = "unat (pi_nwrite q - pi_nread q)"
  have n: "?n = Suc (length bs)" using assms(2) by (simp flip: length_pipe_items)
  then have "pi_nwrite q - pi_nread q \<noteq> 0" by auto
  then have n': "unat (pi_nwrite q - (pi_nread q + 1)) = length bs"
    using unat_minus_one [of "pi_nwrite q - pi_nread q"] n by (simp add: diff_diff_eq)
  have nth: "(b # bs) ! k = pi_data q ! ((unat (pi_nread q) + k) mod 512)" if "k < Suc (length bs)" for k
    using arg_cong [OF assms(2), of "\<lambda>xs. xs ! k"] that by (simp add: pipe_items_def n del: upt_Suc)
  show "fst (pipe_get q) = b"
    using nth [of 0] by (simp add: pipe_get_def unat_mod_512)
  have "(unat (pi_nread q + 1) + k) mod 512 = (unat (pi_nread q) + Suc k) mod 512" for k
    using mod_add_left_eq [of "unat (pi_nread q + 1)" 512 k] mod_add_left_eq [of "unat (pi_nread q) + 1" 512 k]
      unat_add_mod_512 [of "pi_nread q" 1] by simp
  then show items: "pipe_items (snd (pipe_get q)) = bs"
    using nth [of "Suc _"] by (intro nth_equalityI) (simp_all add: pipe_items_def pipe_get_def n' )
  show "pipe_ok (snd (pipe_get q))"
    using assms items by (simp add: pipe_ok_iff) (simp add: pipe_get_def)
qed

section \<open>Reading and writing without waiting\<close>

lemma set_pipe_lock [lock_out]: "set_pipe p v (locked_by c l s) = locked_by c l (set_pipe p v s)"
  by (simp add: set_pipe_def locked_by_def)

lemma pipe_frames [lock_simps]:
  "pipes (locked_by c l s) = pipes s" "pipes (set_pipe p v s) = (pipes s)(p := v)"
  "cpu_ok c (set_pipe p v s) = cpu_ok c s" "free_lock l (set_pipe p v s) = free_lock l s"
  "sched_inv (set_pipe p v s) = sched_inv s" "procs (set_pipe p v s) = procs s"
  by (simp_all add: set_pipe_def locked_by_def cpu_ok_def this_cpu_def free_lock_def)
    (rule sched_inv_cong; simp)

lemma pipewrite_loop_room:
  assumes "pipe_ok (pipes s p)" "length (pipe_items (pipes s p)) + k \<le> 512" "i + k \<le> length bs"
  shows "\<exists>q. pipewrite_loop others p (from_bytes bs) i k s = Inr (True, set_pipe p q s) \<and> pipe_ok q
    \<and> pipe_items q = pipe_items (pipes s p) @ take k (drop i bs)"
  using assms
proof (induction k arbitrary: i s)
  case 0
  then show ?case by (intro exI [of _ "pipes s p"]) (simp add: set_pipe_def)
next
  case (Suc k)
  let ?b = "bs ! i" and ?s = "set_pipe p (pipe_put (bs ! i) (pipes s p)) s"
  have "take 1 (drop i bs) = [?b]" "drop i bs = ?b # drop (Suc i) bs"
    using Suc.prems(3) by (simp_all add: take_Suc_conv_app_nth Cons_nth_drop_Suc take_Suc hd_drop_conv_nth)
  moreover have "length (pipe_items (pipes s p)) < 512" using Suc.prems(2) by simp
  note put = pipe_put_items [OF Suc.prems(1) this, of ?b]
  moreover have "pipe_room others p s = Inr (True, s)"
    using \<open>length (pipe_items (pipes s p)) < 512\<close> by (simp add: pipe_room.simps pipe_full_iff)
  ultimately show ?case
    using Suc.IH [of ?s "Suc i"] Suc.prems
    by (simp add: from_bytes_def lock_simps char_at_def Let_def) (simp add: set_pipe_def)
qed

lemma pipe_await_item:
  assumes "pipe_items (pipes s p) \<noteq> []"
  shows "pipe_await others p s = Inr (True, s)"
  using assms by (subst pipe_await.simps) (auto simp: pipe_items_def)

lemma piperead_loop_items:
  assumes "pipe_ok (pipes s p)" "n \<le> length (pipe_items (pipes s p))"
  shows "\<exists>q. piperead_loop p keep i n s = Inr (take n (pipe_items (pipes s p)), set_pipe p q s) \<and> pipe_ok q
    \<and> pipe_items q = drop n (pipe_items (pipes s p))"
  using assms
proof (induction n arbitrary: i s)
  case 0
  then show ?case by (intro exI [of _ "pipes s p"]) (simp add: set_pipe_def)
next
  case (Suc n)
  then obtain b bs where q: "pipe_items (pipes s p) = b # bs" by (cases "pipe_items (pipes s p)") auto
  have ne: "pi_nread (pipes s p) \<noteq> pi_nwrite (pipes s p)"
    using arg_cong [OF q, of length] by (auto simp: length_pipe_items)
  note get = pipe_get_items [OF Suc.prems(1) q]
  then obtain v where v: "pipe_get (pipes s p) = (b, v)" "pipe_items v = bs" "pipe_ok v"
    by (cases "pipe_get (pipes s p)") simp
  then show ?case
    using Suc.IH [of "set_pipe p v s" "Suc i"] Suc.prems ne q
    by (auto simp: keep_def lock_simps) (auto simp: set_pipe_def)
qed

text \<open>A change inside the critical section of the pipe, followed by a wake-up and the release.\<close>

lemma pipe_section_end:
  assumes "cpu_ok c s" "free_lock (PipeLk p) s" "free_lock PtableLock s" "sched_inv s"
  obtains t where "bnd (wakeup ch (locked_by c (PipeLk p) s)) (\<lambda>s. release (PipeLk p) s) = Inr t"
    "sched_only s t" "sched_inv t" "procs t = awake ch s"
proof -
  let ?s = "locked_by c (PipeLk p) s"
  obtain u where u: "wakeup ch ?s = Inr u" "sched_inv u" "sched_only ?s u" "procs u = awake ch ?s"
    using wakeup_all [of ?s c ch] assms by (auto simp: lock_simps)
  let ?t = "s\<lparr>procs := procs u, pqueues := pqueues u, head_tail := head_tail u\<rparr>"
  show thesis
  proof (rule that)
    show "bnd (wakeup ch ?s) (\<lambda>s. release (PipeLk p) s) = Inr ?t"
      using sched_only_unlock [OF u(3) assms(1,2)] u(1) by simp
    show "sched_only s ?t" by (auto simp: sched_only_def)
    show "sched_inv ?t" using u(2) sched_inv_cong [of ?t u] by simp
    show "procs ?t = awake ch s" using u(4) awake_cong [of s ?s ch] by (simp add: lock_simps)
  qed
qed

lemma pipes_sched_only: "sched_only s t \<Longrightarrow> pipes t = pipes s"
  by (auto simp: sched_only_def)

lemma pipewrite_room:
  assumes "cpu_ok c s" "free_lock (PipeLk p) s" "free_lock PtableLock s" "sched_inv s"
    and "pipe_ok (pipes s p)" "length (pipe_items (pipes s p)) + length bs \<le> 512"
  obtains q t where "pipewrite others p (from_bytes bs) (int (length bs)) s = Inr (int (length bs), t)"
    "sched_only (set_pipe p q s) t" "sched_inv t" "pipe_ok q" "pipe_items q = pipe_items (pipes s p) @ bs"
    "procs t = awake (ChPipeR p) s"
proof -
  obtain q where q: "pipewrite_loop others p (from_bytes bs) 0 (length bs) (locked_by c (PipeLk p) s)
      = Inr (True, set_pipe p q (locked_by c (PipeLk p) s))" "pipe_ok q" "pipe_items q = pipe_items (pipes s p) @ bs"
    using pipewrite_loop_room [of "locked_by c (PipeLk p) s" p "length bs" 0 bs others] assms(5,6)
    by (auto simp: lock_simps)
  obtain t where t: "bnd (wakeup (ChPipeR p) (locked_by c (PipeLk p) (set_pipe p q s))) (\<lambda>s. release (PipeLk p) s) = Inr t"
    "sched_only (set_pipe p q s) t" "sched_inv t" "procs t = awake (ChPipeR p) (set_pipe p q s)"
    by (rule pipe_section_end [of c "set_pipe p q s" p "ChPipeR p"]) (use assms in \<open>simp_all add: lock_simps\<close>)
  have "pipewrite others p (from_bytes bs) (int (length bs)) s = Inr (int (length bs), t)"
    using t(1) q(1) assms(1,2)
    by (simp add: pipewrite_def acquire_free [where c = c] lock_out bnd_eq_Inr)
  moreover have "procs t = awake (ChPipeR p) s"
    using t(4) awake_cong [of s "set_pipe p q s" "ChPipeR p"] by (simp add: lock_simps)
  ultimately show thesis
    using that t(2,3) q(2,3) by blast
qed

lemma piperead_items:
  assumes "cpu_ok c s" "free_lock (PipeLk p) s" "free_lock PtableLock s" "sched_inv s"
    and "pipe_ok (pipes s p)" "n \<le> length (pipe_items (pipes s p))" "0 < n"
  obtains q t where "piperead others p keep (int n) s = Inr ((int n, take n (pipe_items (pipes s p))), t)"
    "sched_only (set_pipe p q s) t" "sched_inv t" "pipe_ok q" "pipe_items q = drop n (pipe_items (pipes s p))"
    "procs t = awake (ChPipeW p) s"
proof -
  have ne: "pipe_items (pipes s p) \<noteq> []" using assms(6,7) by auto
  obtain q where q: "piperead_loop p keep 0 n (locked_by c (PipeLk p) s)
      = Inr (take n (pipe_items (pipes s p)), set_pipe p q (locked_by c (PipeLk p) s))" "pipe_ok q"
      "pipe_items q = drop n (pipe_items (pipes s p))"
    using piperead_loop_items [of "locked_by c (PipeLk p) s" p n 0] assms(5,6) by (auto simp: lock_simps)
  obtain t where t: "bnd (wakeup (ChPipeW p) (locked_by c (PipeLk p) (set_pipe p q s))) (\<lambda>s. release (PipeLk p) s) = Inr t"
    "sched_only (set_pipe p q s) t" "sched_inv t" "procs t = awake (ChPipeW p) (set_pipe p q s)"
    by (rule pipe_section_end [of c "set_pipe p q s" p "ChPipeW p"]) (use assms in \<open>simp_all add: lock_simps\<close>)
  have "pipe_await others p (locked_by c (PipeLk p) s) = Inr (True, locked_by c (PipeLk p) s)"
    by (rule pipe_await_item) (simp add: lock_simps ne)
  then have "piperead others p keep (int n) s = Inr ((int n, take n (pipe_items (pipes s p))), t)"
    using t(1) q(1) assms(1,2,6) by (simp add: piperead_def acquire_free [where c = c] lock_out bnd_eq_Inr)
  moreover have "procs t = awake (ChPipeW p) s"
    using t(4) awake_cong [of s "set_pipe p q s" "ChPipeW p"] by (simp add: lock_simps)
  ultimately show thesis
    using that t(2,3) q(2,3) by blast
qed

lemma machine_sched_only:
  "sched_only (set_pipe p q s) t \<Longrightarrow> cpu_ok c t = cpu_ok c s" "sched_only (set_pipe p q s) t \<Longrightarrow> free_lock l t = free_lock l s"
  "sched_only (set_pipe p q s) t \<Longrightarrow> pipes t p = q"
  by (auto simp: sched_only_def set_pipe_def cpu_ok_def this_cpu_def free_lock_def)

text \<open>C27. What is written to a pipe with room for it is what a reader gets: \<open>pipewrite\<close> takes all the bytes
  without blocking and wakes every reader, and \<open>piperead\<close> then returns the oldest bytes, in order,
  leaves the rest and wakes every writer.\<close>

theorem pipe_write_read:
  assumes "cpu_ok c s" "free_lock (PipeLk p) s" "free_lock PtableLock s" "sched_inv s" "pipe_ok (pipes s p)"
    and "length (pipe_items (pipes s p) @ bs) \<le> 512" "0 < n" "n \<le> length (pipe_items (pipes s p) @ bs)"
  shows "\<exists>t u. pipewrite others p (from_bytes bs) (int (length bs)) s = Inr (int (length bs), t)
    \<and> procs t = awake (ChPipeR p) s
    \<and> piperead others p keep (int n) t = Inr ((int n, take n (pipe_items (pipes s p) @ bs)), u)
    \<and> pipe_items (pipes u p) = drop n (pipe_items (pipes s p) @ bs) \<and> procs u = awake (ChPipeW p) t"
proof -
  obtain q t where t: "pipewrite others p (from_bytes bs) (int (length bs)) s = Inr (int (length bs), t)"
    "sched_only (set_pipe p q s) t" "sched_inv t" "pipe_ok q" "pipe_items q = pipe_items (pipes s p) @ bs"
    "procs t = awake (ChPipeR p) s"
    by (rule pipewrite_room [OF assms(1-5)]) (use assms(6) in simp_all)
  note m = machine_sched_only [OF t(2)]
  obtain q' u where u: "piperead others p keep (int n) t = Inr ((int n, take n (pipe_items (pipes t p))), u)"
    "sched_only (set_pipe p q' t) u" "pipe_items q' = drop n (pipe_items (pipes t p))" "procs u = awake (ChPipeW p) t"
    by (rule piperead_items [of c t p n]) (use assms m t(3-5) in simp_all)
  show ?thesis
    using t(1,5,6) u(1,3,4) m(3) machine_sched_only(3) [OF u(2)] by auto
qed

definition pipe_demo :: pipe_state where
  "pipe_demo = fs_state.extend fs_demo
     \<lparr>pipes = (\<lambda>_. \<lparr>pi_data = replicate 512 0, pi_nread = - 2, pi_nwrite = - 2, pi_readopen = True, pi_writeopen = True\<rparr>)\<rparr>"

lemmas pipe_demo_defs = pipe_demo_def fs_state.defs

lemma pipe_demo_ok:
  "cpu_ok 0 pipe_demo" "free_lock l pipe_demo" "sched_inv pipe_demo" "pipe_ok (pipes pipe_demo p)"
  "pipe_items (pipes pipe_demo p) = []"
  using fs_demo_ok(1) fs_demo_ok(2) [of l] fs_demo_ok(3) sched_inv_cong [of pipe_demo fs_demo]
  by (simp_all add: cpu_ok_def this_cpu_def free_lock_def pipe_demo_defs pipe_ok_def pipe_items_def)

theorem pipe_write_read_witness:
  "\<exists>t u. pipewrite id 0x803f0000 (from_bytes [5, 6, 7, 8]) 4 pipe_demo = Inr (4, t)
    \<and> piperead id 0x803f0000 keep 3 t = Inr ((3, [5, 6, 7]), u) \<and> pipe_items (pipes u 0x803f0000) = [8]"
  using pipe_write_read [where c = 0 and s = pipe_demo and p = "0x803f0000" and bs = "[5, 6, 7, 8]" and n = 3 and others = id]
  by (auto simp: pipe_demo_ok)

section \<open>The bound of the ring\<close>

abbreviation pipes_ok :: "'z pipe_state_scheme \<Rightarrow> bool" where
  "pipes_ok s \<equiv> (\<forall>p. pipe_ok (pipes s p))"

lemma locks_keep_pipes:
  fixes s t :: "'z pipe_state_scheme"
  shows "pushcli s = Inr t \<Longrightarrow> pipes t = pipes s" "popcli s = Inr t \<Longrightarrow> pipes t = pipes s"
    "acquire l s = Inr t \<Longrightarrow> pipes t = pipes s" "release l s = Inr t \<Longrightarrow> pipes t = pipes s"
    "myproc s = Inr (mp, t) \<Longrightarrow> pipes t = pipes s" "curproc s = Inr (p, t) \<Longrightarrow> pipes t = pipes s"
proof -
  show push: "pushcli s = Inr t \<Longrightarrow> pipes t = pipes s" for s t :: "'z pipe_state_scheme"
    by (auto simp: pushcli_def bnd_eq_Inr Let_def cli_def set_cpu_def split: if_splits)
  show pop: "popcli s = Inr t \<Longrightarrow> pipes t = pipes s" for s t :: "'z pipe_state_scheme"
    by (auto simp: popcli_def bnd_eq_Inr Let_def sti_def set_cpu_def split: if_splits)
  show "acquire l s = Inr t \<Longrightarrow> pipes t = pipes s"
    by (auto simp: acquire_def bnd_eq_Inr Let_def set_lock_def split: if_splits prod.splits dest!: push)
  show "release l s = Inr t \<Longrightarrow> pipes t = pipes s"
    by (auto simp: release_def bnd_eq_Inr Let_def set_lock_def split: if_splits dest!: pop)
  show my: "myproc s = Inr (mp, t) \<Longrightarrow> pipes t = pipes s" for mp
    by (auto simp: myproc_def bnd_eq_Inr Let_def dest!: push pop)
  show "curproc s = Inr (p, t) \<Longrightarrow> pipes t = pipes s"
    by (auto simp: curproc_def bnd_eq_Inr split: option.splits dest!: my)
qed

lemma wakeup_keeps_pipes:
  fixes s t :: "'z pipe_state_scheme"
  assumes "wakeup ch s = Inr t"
  shows "pipes t = pipes s"
proof -
  from assms obtain u v where a: "acquire PtableLock s = Inr u" and w: "wakeup1 ch u = Inr v"
    and r: "release PtableLock v = Inr t"
    by (auto simp: wakeup_def bnd_eq_Inr)
  have slot: "wakeup1_slot ch p s = Inr t \<Longrightarrow> pipes t = pipes s" for p and s t :: "'z pipe_state_scheme"
    by (auto simp: wakeup1_slot_def enqueue_or_panic_def pq_enqueue_def set_proc_def bnd_eq_Inr Let_def split: if_splits)
  from w have "pipes v = pipes u"
    unfolding wakeup1_def by (rule for_each_inv [where P = "\<lambda>v. pipes v = pipes u"]) (auto dest: slot)
  then show ?thesis using locks_keep_pipes(3) [OF a] locks_keep_pipes(4) [OF r] by simp
qed

lemma sleep_pipes_ok:
  fixes s t :: "'z pipe_state_scheme"
  assumes "sleep others ch lk s = Inr t" "pipes_ok s" "\<forall>u. pipes_ok u \<longrightarrow> pipes_ok (others u)"
  shows "pipes_ok t"
proof -
  have sched: "pipes_ok v" if d: "sched others u = Inr v" and ok: "pipes_ok u" for u v :: "'z pipe_state_scheme"
  proof -
    obtain w p x where x: "pipes w = pipes u" "x = set_proc p ((procs w p)\<lparr>p_context := (p_context (procs w p))\<lparr>cx_eip := InSched\<rparr>\<rparr>) w"
      "pipes v = pipes (others x)"
      using d by (auto simp: sched_def swtch_def bnd_eq_Inr Let_def set_cpu_def split: if_splits prod.splits option.splits
          dest!: locks_keep_pipes(5))
    have "pipes x = pipes w" unfolding x(2) by (simp add: set_proc_def)
    then show ?thesis using assms(3) ok x(1,3) by simp
  qed
  show ?thesis
    using assms(1,2)
    by (auto simp: sleep_def bnd_eq_Inr Let_def set_proc_def split: option.splits if_splits
        dest!: locks_keep_pipes(3-5) sched)
qed

lemma pipe_room_ok:
  "pipe_room others p s = Inr (ok, t) \<Longrightarrow> pipes_ok s \<Longrightarrow> \<forall>u. pipes_ok u \<longrightarrow> pipes_ok (others u) \<Longrightarrow>
    pipes_ok t \<and> (ok \<longrightarrow> length (pipe_items (pipes t p)) < 512)"
proof (induction others p s rule: pipe_room.induct)
  case (1 others p s)
  show ?case
  proof (cases "pi_nwrite (pipes s p) = pi_nread (pipes s p) + PIPESIZE")
    case False
    then have "ok" "t = s" using "1.prems"(1) by (simp_all add: pipe_room.simps [of others p s])
    then show ?thesis using "1.prems"(2) False by (auto simp: pipe_full_iff pipe_ok_iff le_less)
  next
    case True
    obtain out u where u: "writer_gives_up p s = Inr (out, u)" and
      r: "(if out then bnd (release (PipeLk p) u) (\<lambda>s. Inr (False, s)) else
        bnd (wakeup (ChPipeR p) u) (\<lambda>s. bnd (sleep others (ChPipeW p) (PipeLk p) s) (pipe_room others p))) = Inr (ok, t)"
      using "1.prems"(1) True by (auto simp: pipe_room.simps [of others p s] bnd_eq_Inr)
    have pu: "pipes u = pipes s" using u by (auto simp: writer_gives_up_def bnd_eq_Inr split: if_splits dest!: locks_keep_pipes(6))
    show ?thesis
    proof (cases out)
      case True
      then show ?thesis using r "1.prems"(2) pu by (auto simp: bnd_eq_Inr dest!: locks_keep_pipes(4))
    next
      case out: False
      obtain v w where v: "wakeup (ChPipeR p) u = Inr v" "sleep others (ChPipeW p) (PipeLk p) v = Inr w" "pipe_room others p w = Inr (ok, t)"
        using r out by (auto simp: bnd_eq_Inr)
      have "pipes_ok w" using sleep_pipes_ok [OF v(2) _ "1.prems"(3)] wakeup_keeps_pipes [OF v(1)] pu "1.prems"(2) by simp
      then show ?thesis using "1.IH" [OF True u refl out v(1,2) v(3)] "1.prems"(3) by blast
    qed
  qed
qed

lemma pipewrite_loop_ok:
  assumes "\<forall>u. pipes_ok u \<longrightarrow> pipes_ok (others u)"
  shows "pipewrite_loop others p src i k s = Inr (ok, t) \<Longrightarrow> pipes_ok s \<Longrightarrow> pipes_ok t"
proof (induction k arbitrary: i s)
  case (Suc k)
  obtain r u where u: "pipe_room others p s = Inr (r, u)" using Suc.prems(1) by (auto simp: bnd_eq_Inr)
  note ok = pipe_room_ok [OF u Suc.prems(2) assms]
  show ?case
  proof (cases r)
    case True
    then obtain b where b: "pipewrite_loop others p src (Suc i) k (set_pipe p (pipe_put b (pipes u p)) u) = Inr (ok, t)"
      using Suc.prems(1) u by (auto simp: bnd_eq_Inr Let_def)
    have "pipes_ok (set_pipe p (pipe_put b (pipes u p)) u)"
      using ok True pipe_put_items(2) [of "pipes u p" b] by (simp add: set_pipe_def)
    then show ?thesis by (rule Suc.IH [OF b])
  next
    case False
    then show ?thesis using Suc.prems(1) u ok by (simp add: bnd_eq_Inr)
  qed
qed simp

lemma pipe_await_ok:
  "pipe_await others p s = Inr (ok, t) \<Longrightarrow> pipes_ok s \<Longrightarrow> \<forall>u. pipes_ok u \<longrightarrow> pipes_ok (others u) \<Longrightarrow> pipes_ok t"
proof (induction others p s rule: pipe_await.induct)
  case (1 others p s)
  show ?case
  proof (cases "pi_nread (pipes s p) = pi_nwrite (pipes s p) \<and> pi_writeopen (pipes s p)")
    case False
    then have "pipe_await others p s = Inr (True, s)" by (subst pipe_await.simps) (simp only: if_False)
    then show ?thesis using "1.prems" by simp
  next
    case True
    then obtain q u where u: "curproc s = Inr (q, u)" and
      r: "(if p_killed (procs u q) then bnd (release (PipeLk p) u) (\<lambda>s. Inr (False, s))
        else bnd (sleep others (ChPipeR p) (PipeLk p) u) (pipe_await others p)) = Inr (ok, t)"
      using "1.prems"(1) by (auto simp: pipe_await.simps [of others p s] bnd_eq_Inr)
    have pu: "pipes_ok u" using locks_keep_pipes(6) [OF u] "1.prems"(2) by simp
    show ?thesis
    proof (cases "p_killed (procs u q)")
      case True
      then show ?thesis using r pu by (auto simp: bnd_eq_Inr dest!: locks_keep_pipes(4))
    next
      case k: False
      obtain v where v: "sleep others (ChPipeR p) (PipeLk p) u = Inr v" "pipe_await others p v = Inr (ok, t)"
        using r k by (auto simp: bnd_eq_Inr)
      show ?thesis using "1.IH" [OF True u refl k v(1) v(2)] sleep_pipes_ok [OF v(1) pu "1.prems"(3)] "1.prems"(3) by blast
    qed
  qed
qed

lemma piperead_loop_ok:
  assumes "\<forall>i bs u v. dst i bs u = Inr v \<longrightarrow> pipes v = pipes u"
  shows "piperead_loop p dst i k s = Inr (bs, t) \<Longrightarrow> pipes_ok s \<Longrightarrow> pipes_ok t"
proof (induction k arbitrary: i s bs)
  case (Suc k)
  show ?case
  proof (cases "pi_nread (pipes s p) = pi_nwrite (pipes s p)")
    case False
    then have "pipe_items (pipes s p) \<noteq> []" using length_pipe_items [of "pipes s p"] by (auto simp: unat_eq_zero)
    then obtain x xs where "pipe_items (pipes s p) = x # xs" by (cases "pipe_items (pipes s p)") auto
    then have g: "pipe_ok (snd (pipe_get (pipes s p)))" using pipe_get_items(3) Suc.prems(2) by blast
    obtain u cs where u: "dst i [fst (pipe_get (pipes s p))] (set_pipe p (snd (pipe_get (pipes s p))) s) = Inr u"
      "piperead_loop p dst (Suc i) k u = Inr (cs, t)"
      using Suc.prems(1) False by (auto simp: bnd_eq_Inr case_prod_beta Let_def)
    have "pipes_ok u" using assms u(1) g Suc.prems(2) by (simp add: set_pipe_def)
    then show ?thesis by (rule Suc.IH [OF u(2)])
  qed (use Suc.prems in simp)
qed simp

text \<open>C28. A pipe never holds more than 512 bytes. However many bytes \<open>pipewrite\<close> is given and however often it
  waits for room, and whatever \<open>piperead\<close> takes, the difference of the 32-bit counters stays at most
  \<open>PIPESIZE\<close> in every pipe, provided that the threads that run meanwhile keep it so and that copying the
  bytes to the reader changes no pipe.\<close>

theorem pipe_bounded:
  assumes "pipes_ok s" "\<forall>u. pipes_ok u \<longrightarrow> pipes_ok (others u)" "\<forall>i bs u v. dst i bs u = Inr v \<longrightarrow> pipes v = pipes u"
  shows "(pipewrite others p src n s = Inr (r, t) \<longrightarrow> (\<forall>q. pi_nwrite (pipes t q) - pi_nread (pipes t q) \<le> PIPESIZE))
    \<and> (piperead others p dst n s = Inr (r', t') \<longrightarrow> (\<forall>q. pi_nwrite (pipes t' q) - pi_nread (pipes t' q) \<le> PIPESIZE))"
proof -
  have "pipes_ok t" if w: "pipewrite others p src n s = Inr (r, t)"
  proof -
    obtain u ok v where u: "acquire (PipeLk p) s = Inr u" "pipewrite_loop others p src 0 (nat n) u = Inr (ok, v)"
      and t: "ok \<longrightarrow> (\<exists>x. wakeup (ChPipeR p) v = Inr x \<and> release (PipeLk p) x = Inr t)" "\<not> ok \<longrightarrow> t = v"
      using w by (auto simp: pipewrite_def bnd_eq_Inr split: if_splits)
    have "pipes_ok v" using pipewrite_loop_ok [OF assms(2) u(2)] locks_keep_pipes(3) [OF u(1)] assms(1) by simp
    then show ?thesis using t by (cases ok) (auto dest!: wakeup_keeps_pipes locks_keep_pipes(4))
  qed
  moreover have "pipes_ok t'" if w: "piperead others p dst n s = Inr (r', t')"
  proof -
    obtain u ok v where u: "acquire (PipeLk p) s = Inr u" "pipe_await others p u = Inr (ok, v)"
      and t: "ok \<longrightarrow> (\<exists>bs x y. piperead_loop p dst 0 (nat n) v = Inr (bs, x) \<and> wakeup (ChPipeW p) x = Inr y \<and> release (PipeLk p) y = Inr t')"
        "\<not> ok \<longrightarrow> t' = v"
      using w by (auto simp: piperead_def bnd_eq_Inr split: if_splits)
    have "pipes_ok v" using pipe_await_ok [OF u(2) _ assms(2)] locks_keep_pipes(3) [OF u(1)] assms(1) by simp
    then show ?thesis using t piperead_loop_ok [OF assms(3), of p 0 "nat n" v]
      by (cases ok) (auto dest!: wakeup_keeps_pipes locks_keep_pipes(4))
  qed
  ultimately show ?thesis by (simp add: pipe_ok_def)
qed

theorem pipe_bounded_witness:
  "\<exists>t. pipewrite id 0x803f0000 (from_bytes [5, 6, 7, 8]) 4 pipe_demo = Inr (4, t)
    \<and> pi_nwrite (pipes t 0x803f0000) - pi_nread (pipes t 0x803f0000) \<le> PIPESIZE"
proof -
  obtain q t where "pipewrite id 0x803f0000 (from_bytes [5, 6, 7, 8]) (int (length [5, 6, 7, 8 :: uchar])) pipe_demo
      = Inr (int (length [5, 6, 7, 8 :: uchar]), t)"
    by (rule pipewrite_room [where c = 0 and s = pipe_demo and p = "0x803f0000" and bs = "[5, 6, 7, 8]" and others = id])
      (simp_all add: pipe_demo_ok)
  then have t: "pipewrite id 0x803f0000 (from_bytes [5, 6, 7, 8]) 4 pipe_demo = Inr (4, t)" by simp
  moreover have "\<forall>u. pipes_ok u \<longrightarrow> pipes_ok (id u :: pipe_state)" "\<forall>i bs u v. keep i bs u = Inr v \<longrightarrow> pipes v = pipes (u :: pipe_state)"
    by (simp_all add: keep_def)
  ultimately show ?thesis
    using pipe_bounded [where s = pipe_demo and others = id and dst = keep] pipe_demo_ok(4) by blast
qed

end
