(* ===== verification/File.thy ===== *)
theory File
  imports Pipe
begin

text \<open>
  Open files (\<open>file.c\<close>) and the allocation of a pipe with its two files (\<open>pipealloc\<close> of
  \<open>pipe.c\<close>). A file pointer is the index of the file in the table.
\<close>

definition NFILE :: nat where "NFILE = 100"

datatype fdtype = FD_NONE | FD_PIPE | FD_INODE

record open_file =
  f_type :: fdtype
  f_ref :: int
  f_readable :: bool
  f_writable :: bool
  f_pipe :: uint
  f_ip :: nat
  f_off :: uint

record file_state = pipe_state +
  files :: "nat \<Rightarrow> open_file"

definition set_file :: "nat \<Rightarrow> open_file \<Rightarrow> 'z file_state_scheme \<Rightarrow> 'z file_state_scheme" where
  "set_file f v s = s\<lparr>files := (files s)(f := v)\<rparr>"

definition fileinit :: "'z file_state_scheme \<Rightarrow> 'z file_state_scheme" where
  "fileinit s = initlock FtableLock ''ftable'' s"

definition filealloc :: "'z file_state_scheme \<Rightarrow> (nat option \<times> 'z file_state_scheme) result" where
  "filealloc s =
     bnd (acquire FtableLock s) (\<lambda>s.
     case find (\<lambda>f. f_ref (files s f) = 0) [0..<NFILE] of
       Some f \<Rightarrow>
         let s = set_file f ((files s f)\<lparr>f_ref := 1\<rparr>) s in
         bnd (release FtableLock s) (\<lambda>s. Inr (Some f, s))
     | None \<Rightarrow> bnd (release FtableLock s) (\<lambda>s. Inr (None, s)))"

definition filedup :: "nat \<Rightarrow> 'z file_state_scheme \<Rightarrow> (nat \<times> 'z file_state_scheme) result" where
  "filedup f s =
     bnd (acquire FtableLock s) (\<lambda>s.
     if f_ref (files s f) < 1 then Inl (Panic ''filedup'')
     else
       let s = set_file f ((files s f)\<lparr>f_ref := f_ref (files s f) + 1\<rparr>) s in
       bnd (release FtableLock s) (\<lambda>s. Inr (f, s)))"

definition fileclose :: "'z file_state_scheme env \<Rightarrow> nat \<Rightarrow> 'z file_state_scheme \<Rightarrow> 'z file_state_scheme result" where
  "fileclose ev f s =
     bnd (acquire FtableLock s) (\<lambda>s.
     if f_ref (files s f) < 1 then Inl (Panic ''fileclose'')
     else
       let s = set_file f ((files s f)\<lparr>f_ref := f_ref (files s f) - 1\<rparr>) s in
       if f_ref (files s f) > 0 then release FtableLock s
       else
         let ff = files s f;
             s = set_file f ((files s f)\<lparr>f_ref := 0, f_type := FD_NONE\<rparr>) s in
         bnd (release FtableLock s) (\<lambda>s.
         case f_type ff of
           FD_PIPE \<Rightarrow> pipeclose (f_pipe ff) (f_writable ff) s
         | FD_INODE \<Rightarrow>
             bnd (begin_op (e_others ev) s) (\<lambda>s.
             bnd (iput ev (f_ip ff) s) (\<lambda>s.
             end_op ev s))
         | FD_NONE \<Rightarrow> Inr s))"

text \<open>\<open>put\<close> stores the stat structure in the caller's buffer.\<close>

definition filestat ::
  "'z file_state_scheme env \<Rightarrow> nat \<Rightarrow> (stat \<Rightarrow> 'z file_state_scheme \<Rightarrow> 'z file_state_scheme result)
   \<Rightarrow> 'z file_state_scheme \<Rightarrow> (int \<times> 'z file_state_scheme) result"
where
  "filestat ev f put s =
     (if f_type (files s f) = FD_INODE then
        bnd (ilock ev (f_ip (files s f)) s) (\<lambda>s.
        bnd (put (stati (f_ip (files s f)) s) s) (\<lambda>s.
        bnd (iunlock (f_ip (files s f)) s) (\<lambda>s.
        Inr (0, s))))
      else Inr (-1, s))"

definition fileread ::
  "'z file_state_scheme env \<Rightarrow> nat \<Rightarrow> 'z file_state_scheme sink \<Rightarrow> int \<Rightarrow> 'z file_state_scheme
   \<Rightarrow> ((int \<times> uchar list) \<times> 'z file_state_scheme) result"
where
  "fileread ev f dst n s =
     (if \<not> f_readable (files s f) then Inr ((-1, []), s)
      else case f_type (files s f) of
        FD_PIPE \<Rightarrow> piperead (e_others ev) (f_pipe (files s f)) dst n s
      | FD_INODE \<Rightarrow>
          bnd (ilock ev (f_ip (files s f)) s) (\<lambda>s.
          bnd (readi ev (f_ip (files s f)) dst (f_off (files s f)) (of_int n) s) (\<lambda>((r, bs), s).
          let s = (if r > 0 then set_file f ((files s f)\<lparr>f_off := f_off (files s f) + of_int r\<rparr>) s else s) in
          bnd (iunlock (f_ip (files s f)) s) (\<lambda>s.
          Inr ((r, bs), s))))
      | FD_NONE \<Rightarrow> Inl (Panic ''fileread''))"

text \<open>
  A write to an inode goes out in transactions of at most \<open>WRITE_MAX\<close> bytes. The result of the
  loop is the number of bytes written.
\<close>

definition WRITE_MAX :: int where
  "WRITE_MAX = ((LOGSIZE - 1 - 1 - 2) div 2) * 512"

definition at_offset :: "'s source \<Rightarrow> nat \<Rightarrow> 's source" where
  "at_offset src k i n s = src (k + i) n s"

function filewrite_loop ::
  "'z file_state_scheme env \<Rightarrow> nat \<Rightarrow> 'z file_state_scheme source \<Rightarrow> int \<Rightarrow> int \<Rightarrow> 'z file_state_scheme
   \<Rightarrow> (int \<times> 'z file_state_scheme) result"
where
  "filewrite_loop ev f src n i s =
     (if i < n then
        let n1 = min (n - i) WRITE_MAX in
        bnd (begin_op (e_others ev) s) (\<lambda>s.
        bnd (ilock ev (f_ip (files s f)) s) (\<lambda>s.
        bnd (writei ev (f_ip (files s f)) (at_offset src (nat i)) (f_off (files s f)) (of_int n1) s) (\<lambda>(r, s).
        let s = (if r > 0 then set_file f ((files s f)\<lparr>f_off := f_off (files s f) + of_int r\<rparr>) s else s) in
        bnd (iunlock (f_ip (files s f)) s) (\<lambda>s.
        bnd (end_op ev s) (\<lambda>s.
        if r < 0 then Inr (i, s)
        else if r \<noteq> n1 then Inl (Panic ''short filewrite'')
        else filewrite_loop ev f src n (i + r) s)))))
      else Inr (i, s))"
  by pat_completeness auto
termination
  by (relation "measure (\<lambda>(ev, f, src, n, i, s). nat (n - i))") (auto simp: WRITE_MAX_def LOGSIZE_def MAXOPBLOCKS_def)

declare filewrite_loop.simps [simp del]

definition filewrite ::
  "'z file_state_scheme env \<Rightarrow> nat \<Rightarrow> 'z file_state_scheme source \<Rightarrow> int \<Rightarrow> 'z file_state_scheme
   \<Rightarrow> (int \<times> 'z file_state_scheme) result"
where
  "filewrite ev f src n s =
     (if \<not> f_writable (files s f) then Inr (-1, s)
      else case f_type (files s f) of
        FD_PIPE \<Rightarrow> pipewrite (e_others ev) (f_pipe (files s f)) src n s
      | FD_INODE \<Rightarrow>
          bnd (filewrite_loop ev f src n 0 s) (\<lambda>(i, s).
          Inr (if i = n then n else -1, s))
      | FD_NONE \<Rightarrow> Inl (Panic ''filewrite''))"

section \<open>Pipes as files\<close>

definition close_opt :: "'z file_state_scheme env \<Rightarrow> nat option \<Rightarrow> 'z file_state_scheme \<Rightarrow> 'z file_state_scheme result" where
  "close_opt ev f s = (case f of None \<Rightarrow> Inr s | Some f \<Rightarrow> fileclose ev f s)"

text \<open>At the label \<open>bad\<close> no page has been allocated: the allocation of the page is the last step that can fail.\<close>

definition pipe_bad ::
  "'z file_state_scheme env \<Rightarrow> nat option \<Rightarrow> nat option \<Rightarrow> 'z file_state_scheme
   \<Rightarrow> ((nat \<times> nat) option \<times> 'z file_state_scheme) result"
where
  "pipe_bad ev f0 f1 s =
     bnd (close_opt ev f0 s) (\<lambda>s. bnd (close_opt ev f1 s) (\<lambda>s. Inr (None, s)))"

definition pipe_ends :: "uint \<Rightarrow> nat \<Rightarrow> nat \<Rightarrow> 'z file_state_scheme \<Rightarrow> 'z file_state_scheme" where
  "pipe_ends p f0 f1 s =
     (let s = set_pipe p ((pipes s p)\<lparr>pi_readopen := True, pi_writeopen := True, pi_nwrite := 0, pi_nread := 0\<rparr>) s;
          s = initlock (PipeLk p) ''pipe'' s;
          s = set_file f0 ((files s f0)\<lparr>f_type := FD_PIPE, f_readable := True, f_writable := False, f_pipe := p\<rparr>) s in
      set_file f1 ((files s f1)\<lparr>f_type := FD_PIPE, f_readable := False, f_writable := True, f_pipe := p\<rparr>) s)"

definition pipealloc ::
  "'z file_state_scheme env \<Rightarrow> 'z file_state_scheme \<Rightarrow> ((nat \<times> nat) option \<times> 'z file_state_scheme) result"
where
  "pipealloc ev s =
     bnd (filealloc s) (\<lambda>(r0, s).
     case r0 of None \<Rightarrow> pipe_bad ev None None s
     | Some f0 \<Rightarrow>
         bnd (filealloc s) (\<lambda>(r1, s).
         case r1 of None \<Rightarrow> pipe_bad ev (Some f0) None s
         | Some f1 \<Rightarrow>
             bnd (kalloc s) (\<lambda>(p, s).
             if p = 0 then pipe_bad ev (Some f0) (Some f1) s
             else Inr (Some (f0, f1), pipe_ends p f0 f1 s))))"

section \<open>Properties of open files\<close>

lemma file_frames [lock_simps]:
  "files (locked_by c l s) = files s" "files (set_file f v s) = (files s)(f := v)"
  "cpu_ok c (set_file f v s) = cpu_ok c s" "free_lock l (set_file f v s) = free_lock l s"
  by (simp_all add: set_file_def locked_by_def cpu_ok_def this_cpu_def free_lock_def)

lemma set_file_lock [lock_out]: "set_file f v (locked_by c l s) = locked_by c l (set_file f v s)"
  by (simp add: set_file_def locked_by_def)

lemma set_file_twice: "set_file f v (set_file f w s) = set_file f v s" "set_file f (files s f) s = s"
  by (simp_all add: set_file_def)

lemma filedup_eq:
  assumes "cpu_ok c s" "free_lock FtableLock s" "1 \<le> f_ref (files s f)"
  shows "filedup f s = Inr (f, set_file f ((files s f)\<lparr>f_ref := f_ref (files s f) + 1\<rparr>) s)"
  using assms by (simp add: filedup_def acquire_free [where c = c] lock_simps lock_out Let_def)

lemma fileclose_shared:
  assumes "cpu_ok c s" "free_lock FtableLock s" "2 \<le> f_ref (files s f)"
  shows "fileclose ev f s = Inr (set_file f ((files s f)\<lparr>f_ref := f_ref (files s f) - 1\<rparr>) s)"
  using assms by (simp add: fileclose_def acquire_free [where c = c] lock_simps lock_out Let_def)

text \<open>
  A duplicated file is closed by dropping the count only: \<open>filedup\<close> followed by \<open>fileclose\<close> gives
  back the state, whatever the file is; nothing on disk or in a pipe is touched.\<close>

theorem filedup_fileclose:
  assumes "cpu_ok c s" "free_lock FtableLock s" "1 \<le> f_ref (files s f)"
  shows "\<exists>t. filedup f s = Inr (f, t) \<and> f_ref (files t f) = f_ref (files s f) + 1 \<and> fileclose ev f t = Inr s"
  using assms
  by (simp add: filedup_eq [where c = c] fileclose_shared [where c = c] lock_simps set_file_twice)

definition file_demo :: file_state where
  "file_demo = pipe_state.extend pipe_demo
     \<lparr>files = (\<lambda>_. \<lparr>f_type = FD_NONE, f_ref = 0, f_readable = False, f_writable = False, f_pipe = 0, f_ip = 0, f_off = 0\<rparr>)
        (2 := \<lparr>f_type = FD_PIPE, f_ref = 1, f_readable = True, f_writable = False, f_pipe = 0x803f0000, f_ip = 0, f_off = 0\<rparr>)\<rparr>"

lemmas file_demo_defs = file_demo_def pipe_state.defs

lemma file_demo_ok: "cpu_ok 0 file_demo" "free_lock l file_demo" "sched_inv file_demo" "cproc (cpus file_demo c) = Some 0"
  using pipe_demo_ok(1) pipe_demo_ok(2) [of l] pipe_demo_ok(3) fs_demo_ok(4) [of c] sched_inv_cong [of file_demo pipe_demo]
  by (simp_all add: cpu_ok_def this_cpu_def free_lock_def file_demo_defs pipe_demo_defs)

theorem filedup_fileclose_witness:
  "\<exists>t. filedup 2 file_demo = Inr (2, t) \<and> f_ref (files t 2) = 2 \<and> fileclose (mem_env id) 2 t = Inr file_demo"
  using filedup_fileclose [OF file_demo_ok(1,2), of 2 "mem_env id"] by (auto simp: file_demo_defs)

end
