(* ===== verification/Sysfile.thy ===== *)
theory Sysfile
  imports File
begin

text \<open>
  The file system calls of \<open>sysfile.c\<close>, all but \<open>sys_exec\<close>. Each reads its arguments from the
  stack of the calling process and returns the value that goes into its \<open>%eax\<close>. A path is read
  from user memory when its address is fetched.
\<close>

section \<open>Arguments\<close>

definition argfd :: "nat \<Rightarrow> 'z file_state_scheme \<Rightarrow> ((nat \<times> nat) option \<times> 'z file_state_scheme) result" where
  "argfd n s =
     bnd (argint n s) (\<lambda>(r, s).
     case r of None \<Rightarrow> Inr (None, s)
     | Some fd \<Rightarrow>
         if sint fd < 0 \<or> int NOFILE \<le> sint fd then Inr (None, s)
         else
           bnd (curproc s) (\<lambda>(p, s).
           case p_ofile (procs s p) (nat (sint fd)) of
             None \<Rightarrow> Inr (None, s)
           | Some f \<Rightarrow> Inr (Some (nat (sint fd), f), s)))"

definition set_ofile :: "nat \<Rightarrow> nat \<Rightarrow> nat option \<Rightarrow> 'z proc_state_scheme \<Rightarrow> 'z proc_state_scheme" where
  "set_ofile p fd f s = set_proc p ((procs s p)\<lparr>p_ofile := (p_ofile (procs s p))(fd := f)\<rparr>) s"

definition fdalloc :: "nat \<Rightarrow> 'z file_state_scheme \<Rightarrow> (int \<times> 'z file_state_scheme) result" where
  "fdalloc f s =
     bnd (curproc s) (\<lambda>(p, s).
     case find (\<lambda>fd. p_ofile (procs s p) fd = None) [0..<NOFILE] of
       Some fd \<Rightarrow> Inr (int fd, set_ofile p fd (Some f) s)
     | None \<Rightarrow> Inr (-1, s))"

definition argpath :: "nat \<Rightarrow> 'z proc_state_scheme \<Rightarrow> (uchar list option \<times> 'z proc_state_scheme) result" where
  "argpath n s =
     bnd (argstr n s) (\<lambda>(r, s).
     case r of None \<Rightarrow> Inr (None, s)
     | Some a \<Rightarrow>
         bnd (curproc s) (\<lambda>(p, s).
         bnd (fetchstr_loop a a (p_sz (procs s p)) s) (\<lambda>l.
         case l of None \<Rightarrow> Inr (None, s)
         | Some len \<Rightarrow> bnd (load_bytes a (unat len) s) (\<lambda>bs. Inr (Some bs, s)))))"

section \<open>Descriptors\<close>

definition sys_dup :: "'z file_state_scheme \<Rightarrow> (int \<times> 'z file_state_scheme) result" where
  "sys_dup s =
     bnd (argfd 0 s) (\<lambda>(r, s).
     case r of None \<Rightarrow> Inr (-1, s)
     | Some (_, f) \<Rightarrow>
         bnd (fdalloc f s) (\<lambda>(fd, s).
         if fd < 0 then Inr (-1, s)
         else bnd (filedup f s) (\<lambda>(_, s). Inr (fd, s))))"

text \<open>The arguments of \<open>read\<close> and \<open>write\<close>: the file, the buffer and its length, read in this order: 0, 2, 1.\<close>

definition rw_args :: "'z file_state_scheme \<Rightarrow> ((nat \<times> uint \<times> int) option \<times> 'z file_state_scheme) result" where
  "rw_args s =
     bnd (argfd 0 s) (\<lambda>(r, s).
     case r of None \<Rightarrow> Inr (None, s)
     | Some (_, f) \<Rightarrow>
         bnd (argint 2 s) (\<lambda>(r, s).
         case r of None \<Rightarrow> Inr (None, s)
         | Some n \<Rightarrow>
             bnd (argptr 1 (sint n) s) (\<lambda>(r, s).
             case r of None \<Rightarrow> Inr (None, s)
             | Some p \<Rightarrow> Inr (Some (f, p, sint n), s))))"

definition sys_read ::
  "'z file_state_scheme env \<Rightarrow> 'z file_state_scheme \<Rightarrow> (int \<times> 'z file_state_scheme) result"
where
  "sys_read ev s =
     bnd (rw_args s) (\<lambda>(r, s).
     case r of None \<Rightarrow> Inr (-1, s)
     | Some (f, p, n) \<Rightarrow> bnd (fileread ev f (to_user p) n s) (\<lambda>((r, _), s). Inr (r, s)))"

definition sys_write ::
  "'z file_state_scheme env \<Rightarrow> 'z file_state_scheme \<Rightarrow> (int \<times> 'z file_state_scheme) result"
where
  "sys_write ev s =
     bnd (rw_args s) (\<lambda>(r, s).
     case r of None \<Rightarrow> Inr (-1, s)
     | Some (f, p, n) \<Rightarrow> filewrite ev f (from_user p) n s)"

definition sys_close ::
  "'z file_state_scheme env \<Rightarrow> 'z file_state_scheme \<Rightarrow> (int \<times> 'z file_state_scheme) result"
where
  "sys_close ev s =
     bnd (argfd 0 s) (\<lambda>(r, s).
     case r of None \<Rightarrow> Inr (-1, s)
     | Some (fd, f) \<Rightarrow>
         bnd (curproc s) (\<lambda>(p, s).
         let s = set_ofile p fd None s in
         bnd (fileclose ev f s) (\<lambda>s. Inr (0, s))))"

definition bytes16 :: "ushort \<Rightarrow> uchar list" where
  "bytes16 v = put16 [0, 0] 0 v"

definition bytes32 :: "uint \<Rightarrow> uchar list" where
  "bytes32 v = put32 [0, 0, 0, 0] 0 v"

definition put_stat :: "uint \<Rightarrow> stat \<Rightarrow> 'z vm_state_scheme \<Rightarrow> 'z vm_state_scheme result" where
  "put_stat a st s =
     bnd (store_bytes (a + 4) (bytes32 (st_dev st)) s) (\<lambda>s.
     bnd (store_bytes (a + 8) (bytes32 (st_ino st)) s) (\<lambda>s.
     bnd (store_bytes a (bytes16 (st_type st)) s) (\<lambda>s.
     bnd (store_bytes (a + 12) (bytes16 (st_nlink st)) s) (\<lambda>s.
     store_bytes (a + 16) (bytes32 (st_size st)) s))))"

definition sys_fstat ::
  "'z file_state_scheme env \<Rightarrow> 'z file_state_scheme \<Rightarrow> (int \<times> 'z file_state_scheme) result"
where
  "sys_fstat ev s =
     bnd (argfd 0 s) (\<lambda>(r, s).
     case r of None \<Rightarrow> Inr (-1, s)
     | Some (_, f) \<Rightarrow>
         bnd (argptr 1 20 s) (\<lambda>(r, s).
         case r of None \<Rightarrow> Inr (-1, s)
         | Some st \<Rightarrow> filestat ev f (put_stat st) s))"

section \<open>Links\<close>

definition set_nlink :: "nat \<Rightarrow> ushort \<Rightarrow> 'z fs_state_scheme \<Rightarrow> 'z fs_state_scheme" where
  "set_nlink ip n s = set_inode ip ((inodes s ip)\<lparr>i_nlink := n\<rparr>) s"

definition link_bad ::
  "'z file_state_scheme env \<Rightarrow> nat \<Rightarrow> 'z file_state_scheme \<Rightarrow> (int \<times> 'z file_state_scheme) result"
where
  "link_bad ev ip s =
     bnd (ilock ev ip s) (\<lambda>s.
     bnd (iupdate ev ip (set_nlink ip (i_nlink (inodes s ip) - 1) s)) (\<lambda>s.
     bnd (iunlockput ev ip s) (\<lambda>s.
     bnd (end_op ev s) (\<lambda>s.
     Inr (-1, s)))))"

text \<open>The part of \<open>sys_link\<close> that enters the new name.\<close>

definition link_new ::
  "'z file_state_scheme env \<Rightarrow> nat \<Rightarrow> uchar list \<Rightarrow> 'z file_state_scheme \<Rightarrow> (int \<times> 'z file_state_scheme) result"
where
  "link_new ev ip new s =
     bnd (nameiparent ev new (replicate DIRSIZ 0) s) (\<lambda>((dp, name), s).
     case dp of None \<Rightarrow> link_bad ev ip s
     | Some dp \<Rightarrow>
         bnd (ilock ev dp s) (\<lambda>s.
         bnd (if i_dev (inodes s dp) \<noteq> i_dev (inodes s ip) then Inr (-1, s)
              else dirlink ev dp name (i_inum (inodes s ip)) s) (\<lambda>(r, s).
         bnd (iunlockput ev dp s) (\<lambda>s.
         if r < 0 then link_bad ev ip s
         else
           bnd (iput ev ip s) (\<lambda>s.
           bnd (end_op ev s) (\<lambda>s.
           Inr (0, s)))))))"

definition sys_link ::
  "'z file_state_scheme env \<Rightarrow> 'z file_state_scheme \<Rightarrow> (int \<times> 'z file_state_scheme) result"
where
  "sys_link ev s =
     bnd (argpath 0 s) (\<lambda>(old, s).
     case old of None \<Rightarrow> Inr (-1, s) | Some old \<Rightarrow>
     bnd (argpath 1 s) (\<lambda>(new, s).
     case new of None \<Rightarrow> Inr (-1, s) | Some new \<Rightarrow>
     bnd (begin_op (e_others ev) s) (\<lambda>s.
     bnd (namei ev old s) (\<lambda>(ip, s).
     case ip of None \<Rightarrow> bnd (end_op ev s) (\<lambda>s. Inr (-1, s))
     | Some ip \<Rightarrow>
         bnd (ilock ev ip s) (\<lambda>s.
         if i_type (inodes s ip) = T_DIR then
           bnd (iunlockput ev ip s) (\<lambda>s. bnd (end_op ev s) (\<lambda>s. Inr (-1, s)))
         else
           bnd (iupdate ev ip (set_nlink ip (i_nlink (inodes s ip) + 1) s)) (\<lambda>s.
           bnd (iunlock ip s) (\<lambda>s.
           link_new ev ip new s)))))))"

function isdirempty_loop ::
  "'z fs_state_scheme env \<Rightarrow> nat \<Rightarrow> uint \<Rightarrow> 'z fs_state_scheme \<Rightarrow> (bool \<times> 'z fs_state_scheme) result"
where
  "isdirempty_loop ev dp off s =
     (if off < i_size (inodes s dp) then
        bnd (readi ev dp keep off DIRENT_SIZE s) (\<lambda>((r, de), s).
        if r \<noteq> 16 then Inl (Panic ''isdirempty: readi'')
        else if de_inum de \<noteq> 0 then Inr (False, s)
        else if off + DIRENT_SIZE \<le> off then Inl Spin
        else isdirempty_loop ev dp (off + DIRENT_SIZE) s)
      else Inr (True, s))"
  by pat_completeness auto
termination
  by (relation "measure (\<lambda>(ev, dp, off, s). 2 ^ 32 - unat off)")
    (auto simp: word_le_nat_alt not_le intro!: diff_less_mono2 unat_uint_less [simplified])

declare isdirempty_loop.simps [simp del]

definition isdirempty ::
  "'z fs_state_scheme env \<Rightarrow> nat \<Rightarrow> 'z fs_state_scheme \<Rightarrow> (bool \<times> 'z fs_state_scheme) result"
where
  "isdirempty ev dp s = isdirempty_loop ev dp (2 * DIRENT_SIZE) s"

definition dot :: uchar where "dot = 46"

definition unlink_bad ::
  "'z file_state_scheme env \<Rightarrow> nat \<Rightarrow> 'z file_state_scheme \<Rightarrow> (int \<times> 'z file_state_scheme) result"
where
  "unlink_bad ev dp s =
     bnd (iunlockput ev dp s) (\<lambda>s.
     bnd (end_op ev s) (\<lambda>s.
     Inr (-1, s)))"

text \<open>The entry at \<open>off\<close> of directory \<open>dp\<close> is cleared and the inode it named loses a link; both are locked.\<close>

definition unlink_entry ::
  "'z file_state_scheme env \<Rightarrow> nat \<Rightarrow> nat \<Rightarrow> uint \<Rightarrow> 'z file_state_scheme \<Rightarrow> (int \<times> 'z file_state_scheme) result"
where
  "unlink_entry ev dp ip off s =
     bnd (writei ev dp (from_bytes (replicate 16 0)) off DIRENT_SIZE s) (\<lambda>(r, s).
     if r \<noteq> 16 then Inl (Panic ''unlink: writei'')
     else
       bnd (if i_type (inodes s ip) = T_DIR then iupdate ev dp (set_nlink dp (i_nlink (inodes s dp) - 1) s)
            else Inr s) (\<lambda>s.
       bnd (iunlockput ev dp s) (\<lambda>s.
       bnd (iupdate ev ip (set_nlink ip (i_nlink (inodes s ip) - 1) s)) (\<lambda>s.
       bnd (iunlockput ev ip s) (\<lambda>s.
       bnd (end_op ev s) (\<lambda>s.
       Inr (0, s)))))))"

definition unlink_found ::
  "'z file_state_scheme env \<Rightarrow> nat \<Rightarrow> nat \<Rightarrow> uint \<Rightarrow> 'z file_state_scheme \<Rightarrow> (int \<times> 'z file_state_scheme) result"
where
  "unlink_found ev dp ip off s =
     bnd (ilock ev ip s) (\<lambda>s.
     if sint (i_nlink (inodes s ip)) < 1 then Inl (Panic ''unlink: nlink < 1'')
     else
       bnd (if i_type (inodes s ip) = T_DIR then isdirempty ev ip s else Inr (True, s)) (\<lambda>(ok, s).
       if \<not> ok then bnd (iunlockput ev ip s) (\<lambda>s. unlink_bad ev dp s)
       else unlink_entry ev dp ip off s))"

definition sys_unlink ::
  "'z file_state_scheme env \<Rightarrow> 'z file_state_scheme \<Rightarrow> (int \<times> 'z file_state_scheme) result"
where
  "sys_unlink ev s =
     bnd (argpath 0 s) (\<lambda>(path, s).
     case path of None \<Rightarrow> Inr (-1, s) | Some path \<Rightarrow>
     bnd (begin_op (e_others ev) s) (\<lambda>s.
     bnd (nameiparent ev path (replicate DIRSIZ 0) s) (\<lambda>((dp, name), s).
     case dp of None \<Rightarrow> bnd (end_op ev s) (\<lambda>s. Inr (-1, s))
     | Some dp \<Rightarrow>
         bnd (ilock ev dp s) (\<lambda>s.
         if namecmp name [dot] = 0 \<or> namecmp name [dot, dot] = 0 then unlink_bad ev dp s
         else
           bnd (dirlookup ev dp name s) (\<lambda>(found, s).
           case found of None \<Rightarrow> unlink_bad ev dp s
           | Some (ip, off) \<Rightarrow> unlink_found ev dp ip off s)))))"

section \<open>Creation\<close>

definition create_dots ::
  "'z fs_state_scheme env \<Rightarrow> nat \<Rightarrow> nat \<Rightarrow> 'z fs_state_scheme \<Rightarrow> 'z fs_state_scheme result"
where
  "create_dots ev dp ip s =
     bnd (iupdate ev dp (set_nlink dp (i_nlink (inodes s dp) + 1) s)) (\<lambda>s.
     bnd (dirlink ev ip [dot] (i_inum (inodes s ip)) s) (\<lambda>(r, s).
     if r < 0 then Inl (Panic ''create dots'')
     else
       bnd (dirlink ev ip [dot, dot] (i_inum (inodes s dp)) s) (\<lambda>(r, s).
       if r < 0 then Inl (Panic ''create dots'') else Inr s)))"

definition create_new ::
  "'z fs_state_scheme env \<Rightarrow> nat \<Rightarrow> uchar list \<Rightarrow> ushort \<Rightarrow> ushort \<Rightarrow> ushort \<Rightarrow> 'z fs_state_scheme
   \<Rightarrow> (nat \<times> 'z fs_state_scheme) result"
where
  "create_new ev dp name ty major minor s =
     bnd (ialloc ev (i_dev (inodes s dp)) ty s) (\<lambda>(ip, s).
     bnd (ilock ev ip s) (\<lambda>s.
     let s = set_inode ip ((inodes s ip)\<lparr>i_major := major, i_minor := minor, i_nlink := 1\<rparr>) s in
     bnd (iupdate ev ip s) (\<lambda>s.
     bnd (if ty = T_DIR then create_dots ev dp ip s else Inr s) (\<lambda>s.
     bnd (dirlink ev dp name (i_inum (inodes s ip)) s) (\<lambda>(r, s).
     if r < 0 then Inl (Panic ''create: dirlink'')
     else
       bnd (iunlockput ev dp s) (\<lambda>s.
       Inr (ip, s)))))))"

definition create ::
  "'z fs_state_scheme env \<Rightarrow> uchar list \<Rightarrow> ushort \<Rightarrow> ushort \<Rightarrow> ushort \<Rightarrow> 'z fs_state_scheme
   \<Rightarrow> (nat option \<times> 'z fs_state_scheme) result"
where
  "create ev path ty major minor s =
     bnd (nameiparent ev path (replicate DIRSIZ 0) s) (\<lambda>((dp, name), s).
     case dp of None \<Rightarrow> Inr (None, s)
     | Some dp \<Rightarrow>
         bnd (ilock ev dp s) (\<lambda>s.
         bnd (dirlookup ev dp name s) (\<lambda>(found, s).
         case found of
           Some (ip, _) \<Rightarrow>
             bnd (iunlockput ev dp s) (\<lambda>s.
             bnd (ilock ev ip s) (\<lambda>s.
             if ty = T_FILE \<and> i_type (inodes s ip) = T_FILE then Inr (Some ip, s)
             else bnd (iunlockput ev ip s) (\<lambda>s. Inr (None, s))))
         | None \<Rightarrow> bnd (create_new ev dp name ty major minor s) (\<lambda>(ip, s). Inr (Some ip, s)))))"

section \<open>Opening\<close>

definition O_WRONLY :: uint where "O_WRONLY = 1"
definition O_RDWR :: uint where "O_RDWR = 2"
definition O_CREATE :: uint where "O_CREATE = 0x200"

text \<open>The locked inode that \<open>open\<close> is to make a file of; on failure the transaction has ended.\<close>

definition open_inode ::
  "'z file_state_scheme env \<Rightarrow> uchar list \<Rightarrow> uint \<Rightarrow> 'z file_state_scheme
   \<Rightarrow> (nat option \<times> 'z file_state_scheme) result"
where
  "open_inode ev path omode s =
     (if omode AND O_CREATE \<noteq> 0 then
        bnd (create ev path T_FILE 0 0 s) (\<lambda>(ip, s).
        case ip of None \<Rightarrow> bnd (end_op ev s) (\<lambda>s. Inr (None, s)) | Some ip \<Rightarrow> Inr (Some ip, s))
      else
        bnd (namei ev path s) (\<lambda>(ip, s).
        case ip of None \<Rightarrow> bnd (end_op ev s) (\<lambda>s. Inr (None, s))
        | Some ip \<Rightarrow>
            bnd (ilock ev ip s) (\<lambda>s.
            if i_type (inodes s ip) = T_DIR \<and> omode \<noteq> 0 then
              bnd (iunlockput ev ip s) (\<lambda>s. bnd (end_op ev s) (\<lambda>s. Inr (None, s)))
            else Inr (Some ip, s))))"

definition open_fail ::
  "'z file_state_scheme env \<Rightarrow> nat option \<Rightarrow> nat \<Rightarrow> 'z file_state_scheme \<Rightarrow> (int \<times> 'z file_state_scheme) result"
where
  "open_fail ev f ip s =
     bnd (close_opt ev f s) (\<lambda>s.
     bnd (iunlockput ev ip s) (\<lambda>s.
     bnd (end_op ev s) (\<lambda>s.
     Inr (-1, s))))"

definition sys_open ::
  "'z file_state_scheme env \<Rightarrow> 'z file_state_scheme \<Rightarrow> (int \<times> 'z file_state_scheme) result"
where
  "sys_open ev s =
     bnd (argpath 0 s) (\<lambda>(path, s).
     case path of None \<Rightarrow> Inr (-1, s) | Some path \<Rightarrow>
     bnd (argint 1 s) (\<lambda>(omode, s).
     case omode of None \<Rightarrow> Inr (-1, s) | Some omode \<Rightarrow>
     bnd (begin_op (e_others ev) s) (\<lambda>s.
     bnd (open_inode ev path omode s) (\<lambda>(ip, s).
     case ip of None \<Rightarrow> Inr (-1, s) | Some ip \<Rightarrow>
     bnd (filealloc s) (\<lambda>(f, s).
     case f of None \<Rightarrow> open_fail ev None ip s | Some f \<Rightarrow>
     bnd (fdalloc f s) (\<lambda>(fd, s).
     if fd < 0 then open_fail ev (Some f) ip s
     else
       bnd (iunlock ip s) (\<lambda>s.
       bnd (end_op ev s) (\<lambda>s.
       Inr (fd, set_file f ((files s f)\<lparr>f_type := FD_INODE, f_ip := ip, f_off := 0,
         f_readable := omode AND O_WRONLY = 0,
         f_writable := omode AND O_WRONLY \<noteq> 0 \<or> omode AND O_RDWR \<noteq> 0\<rparr>) s)))))))))"

definition made ::
  "'z file_state_scheme env \<Rightarrow> nat option \<Rightarrow> 'z file_state_scheme \<Rightarrow> (int \<times> 'z file_state_scheme) result"
where
  "made ev r s =
     (case r of None \<Rightarrow> bnd (end_op ev s) (\<lambda>s. Inr (-1, s))
      | Some ip \<Rightarrow> bnd (iunlockput ev ip s) (\<lambda>s. bnd (end_op ev s) (\<lambda>s. Inr (0, s))))"

definition sys_mkdir ::
  "'z file_state_scheme env \<Rightarrow> 'z file_state_scheme \<Rightarrow> (int \<times> 'z file_state_scheme) result"
where
  "sys_mkdir ev s =
     bnd (begin_op (e_others ev) s) (\<lambda>s.
     bnd (argpath 0 s) (\<lambda>(path, s).
     case path of None \<Rightarrow> made ev None s
     | Some path \<Rightarrow> bnd (create ev path T_DIR 0 0 s) (\<lambda>(ip, s). made ev ip s)))"

definition sys_mknod ::
  "'z file_state_scheme env \<Rightarrow> 'z file_state_scheme \<Rightarrow> (int \<times> 'z file_state_scheme) result"
where
  "sys_mknod ev s =
     bnd (begin_op (e_others ev) s) (\<lambda>s.
     bnd (argpath 0 s) (\<lambda>(path, s).
     case path of None \<Rightarrow> made ev None s | Some path \<Rightarrow>
     bnd (argint 1 s) (\<lambda>(major, s).
     case major of None \<Rightarrow> made ev None s | Some major \<Rightarrow>
     bnd (argint 2 s) (\<lambda>(minor, s).
     case minor of None \<Rightarrow> made ev None s | Some minor \<Rightarrow>
     bnd (create ev path T_DEV (ucast major) (ucast minor) s) (\<lambda>(ip, s). made ev ip s)))))"

definition sys_chdir ::
  "'z file_state_scheme env \<Rightarrow> 'z file_state_scheme \<Rightarrow> (int \<times> 'z file_state_scheme) result"
where
  "sys_chdir ev s =
     bnd (curproc s) (\<lambda>(p, s).
     bnd (begin_op (e_others ev) s) (\<lambda>s.
     bnd (argpath 0 s) (\<lambda>(path, s).
     bnd (case path of None \<Rightarrow> Inr (None, s) | Some path \<Rightarrow> namei ev path s) (\<lambda>(ip, s).
     case ip of None \<Rightarrow> bnd (end_op ev s) (\<lambda>s. Inr (-1, s))
     | Some ip \<Rightarrow>
         bnd (ilock ev ip s) (\<lambda>s.
         if i_type (inodes s ip) \<noteq> T_DIR then
           bnd (iunlockput ev ip s) (\<lambda>s. bnd (end_op ev s) (\<lambda>s. Inr (-1, s)))
         else
           bnd (iunlock ip s) (\<lambda>s.
           bnd (case p_cwd (procs s p) of None \<Rightarrow> Inl (Fault ''iput(0)'') | Some cwd \<Rightarrow> iput ev cwd s) (\<lambda>s.
           bnd (end_op ev s) (\<lambda>s.
           Inr (0, set_proc p ((procs s p)\<lparr>p_cwd := Some ip\<rparr>) s)))))))))"

definition sys_pipe ::
  "'z file_state_scheme env \<Rightarrow> 'z file_state_scheme \<Rightarrow> (int \<times> 'z file_state_scheme) result"
where
  "sys_pipe ev s =
     bnd (argptr 0 8 s) (\<lambda>(fd, s).
     case fd of None \<Rightarrow> Inr (-1, s) | Some fd \<Rightarrow>
     bnd (pipealloc ev s) (\<lambda>(r, s).
     case r of None \<Rightarrow> Inr (-1, s) | Some (rfile, wfile) \<Rightarrow>
     bnd (fdalloc rfile s) (\<lambda>(fd0, s).
     bnd (if fd0 < 0 then Inr (-1, s) else fdalloc wfile s) (\<lambda>(fd1, s).
     if fd1 < 0 then
       bnd (if fd0 \<ge> 0 then bnd (curproc s) (\<lambda>(p, s). Inr (set_ofile p (nat fd0) None s)) else Inr s) (\<lambda>s.
       bnd (fileclose ev rfile s) (\<lambda>s.
       bnd (fileclose ev wfile s) (\<lambda>s.
       Inr (-1, s))))
     else
       bnd (store_bytes fd (bytes32 (of_int fd0)) s) (\<lambda>s.
       bnd (store_bytes (fd + 4) (bytes32 (of_int fd1)) s) (\<lambda>s.
       Inr (0, s)))))))"

end
