(* ===== verification/Shm.thy ===== *)
theory Shm
  imports Sysfile
begin

text \<open>
  Shared memory pages: \<open>shminit\<close>, \<open>shmget\<close> and \<open>shmrem\<close> of \<open>vm.c\<close> and their system calls.
  A page is looked up by its name, which the code keeps and compares as a pointer into user
  memory. An entry of \<open>shmpgs\<close> in a process points to an entry of the table and is its index;
  \<open>shm_pages\<close> is the address of the table, which the linker chooses.
\<close>

section \<open>Operations\<close>

definition SHM_MAXNUM :: nat where "SHM_MAXNUM = 32"

record shm_pg =
  sh_allocated :: uint
  sh_name :: uint
  sh_pa :: uint
  sh_ref_count :: uint

record shm_state = file_state +
  shmtable :: "nat \<Rightarrow> shm_pg"
  shm_initialized :: bool
  shm_pages :: uint

definition set_shm :: "nat \<Rightarrow> shm_pg \<Rightarrow> 'z shm_state_scheme \<Rightarrow> 'z shm_state_scheme" where
  "set_shm i v s = s\<lparr>shmtable := (shmtable s)(i := v)\<rparr>"

definition empty_shm_pg :: shm_pg where
  "empty_shm_pg = \<lparr>sh_allocated = 0, sh_name = 0, sh_pa = 0, sh_ref_count = 0\<rparr>"

definition shminit :: "'z shm_state_scheme \<Rightarrow> 'z shm_state_scheme" where
  "shminit s =
     (foldl (\<lambda>s i. set_shm i empty_shm_pg s) s [0..<SHM_MAXNUM])\<lparr>shm_initialized := True\<rparr>"

text \<open>The constant \<open>NULL\<close> of \<open>proc.h\<close>.\<close>

definition NULL_PTR :: uint where
  "NULL_PTR = -1"

text \<open>
  Page \<open>pg\<close> is mapped above the memory of process \<open>p\<close>. The result of \<open>mappages\<close> is not looked at.
\<close>

definition shm_map :: "nat \<Rightarrow> nat \<Rightarrow> 'z shm_state_scheme \<Rightarrow> (int \<times> 'z shm_state_scheme) result" where
  "shm_map p pg s =
     mappages (p_pgdir (procs s p)) (PGROUNDUP (p_sz (procs s p))) PGSIZE (V2P (sh_pa (shmtable s pg)))
       (PTE_W OR PTE_U) s"

text \<open>
  The address of entry \<open>pg\<close> of the table, whose entries have 16 bytes.
\<close>

definition shm_pg_addr :: "nat \<Rightarrow> 'z shm_state_scheme \<Rightarrow> uint" where
  "shm_pg_addr pg s = shm_pages s + 16 * of_nat pg"

text \<open>
  The store of a word \<open>a\<close> through index \<open>SHM_MAXNUM + k\<close> of \<open>shmpgs\<close>, for \<open>k < SHM_MAXNUM\<close>. As
  \<open>shmpgs\<close> is the last field of \<open>struct proc\<close>, it goes to word \<open>k\<close> of the process in the next slot
  or, from the last slot, to word \<open>k\<close> of \<open>head_tail\<close>, which follows the slots in \<open>ptable\<close>. The
  fields of words 3 (\<open>state\<close>), 5 to 8 (\<open>parent\<close>, \<open>tf\<close>, \<open>context\<close>, \<open>chan\<close>), 10 to 26 (\<open>ofile\<close>,
  \<open>cwd\<close>) and 31 (\<open>mux_ptrs[0]\<close>) are enumerators and pointers, which the model does not keep as
  words: there it stops.
\<close>

definition shm_overrun :: "nat \<Rightarrow> nat \<Rightarrow> uint \<Rightarrow> 'z proc_state_scheme \<Rightarrow> 'z proc_state_scheme result" where
  "shm_overrun p k a s =
     (if p + 1 < NPROC then
        let q = p + 1; v = procs s q in
        if k = 0 then Inr (set_proc q (v\<lparr>p_sz := a\<rparr>) s)
        else if k = 1 then Inr (set_proc q (v\<lparr>p_pgdir := a\<rparr>) s)
        else if k = 2 then Inr (set_proc q (v\<lparr>p_kstack := a\<rparr>) s)
        else if k = 4 then Inr (set_proc q (v\<lparr>p_pid := sint a\<rparr>) s)
        else if k = 9 then Inr (set_proc q (v\<lparr>p_killed := (a \<noteq> 0)\<rparr>) s)
        else if 27 \<le> k \<and> k \<le> 30 then
          let i = 4 * (k - 27) in
          Inr (set_proc q (v\<lparr>p_name := (p_name v)[i := ucast a, i + 1 := ucast (drop_bit 8 a),
            i + 2 := ucast (drop_bit 16 a), i + 3 := ucast (drop_bit 24 a)]\<rparr>) s)
        else Inl (Fault ''shmpgs[pg_num]'')
      else
        Inr (s\<lparr>head_tail := (head_tail s)(int (k div 2) := (head_tail s (int (k div 2)))(int (k mod 2) := sint a))\<rparr>))"

text \<open>The rest of both branches of \<open>shmget\<close>: the size grows and the page is entered in \<open>shmpgs\<close>.\<close>

definition shm_enter :: "nat \<Rightarrow> nat \<Rightarrow> nat \<Rightarrow> 'z shm_state_scheme \<Rightarrow> (uint \<times> 'z shm_state_scheme) result" where
  "shm_enter p pg pg_num s =
     (let vas = PGROUNDUP (p_sz (procs s p));
          s = set_proc p ((procs s p)\<lparr>p_sz := p_sz (procs s p) + PGSIZE\<rparr>) s in
      if SHM_MAXNUM \<le> pg_num then
        bnd (shm_overrun p (pg_num - SHM_MAXNUM) (shm_pg_addr pg s) s) (\<lambda>s. Inr (vas, s))
      else Inr (vas, set_proc p ((procs s p)\<lparr>p_shmpgs := (p_shmpgs (procs s p))(pg_num := Some pg)\<rparr>) s))"

definition shmget :: "uint \<Rightarrow> 'z shm_state_scheme \<Rightarrow> (uint \<times> 'z shm_state_scheme) result" where
  "shmget name s =
     (if name = 0 then Inr (NULL_PTR, s)
      else
        let s = (if shm_initialized s then s else shminit s) in
        case find (\<lambda>i. sh_name (shmtable s i) = name) [0..<SHM_MAXNUM] of
          Some pg \<Rightarrow>
            bnd (curproc s) (\<lambda>(p, s).
            bnd (shm_map p pg s) (\<lambda>(_, s).
            let s = set_shm pg ((shmtable s pg)\<lparr>sh_ref_count := sh_ref_count (shmtable s pg) + 1\<rparr>) s in
            shm_enter p pg pg s))
        | None \<Rightarrow>
            (case find (\<lambda>i. sh_name (shmtable s i) = 0) [0..<SHM_MAXNUM] of
               None \<Rightarrow> Inr (NULL_PTR, s)
             | Some pg \<Rightarrow>
                 let s = set_shm pg ((shmtable s pg)\<lparr>sh_name := name, sh_allocated := 1\<rparr>) s in
                 bnd (kalloc s) (\<lambda>(pa, s).
                 let s = set_shm pg ((shmtable s pg)\<lparr>sh_pa := pa, sh_ref_count := 1\<rparr>) s in
                 if pa = 0 then Inl (Fault ''memset(0)'')
                 else
                   let s = s\<lparr>mem := memset (mem s) pa 0 PGSIZE\<rparr> in
                   bnd (curproc s) (\<lambda>(p, s).
                   bnd (shm_map p pg s) (\<lambda>(_, s).
                   shm_enter p pg (SHM_MAXNUM + pg) s)))))"

text \<open>The loop goes on after a page whose count stays positive.\<close>

fun shmrem_loop :: "uint \<Rightarrow> nat list \<Rightarrow> 'z shm_state_scheme \<Rightarrow> (int \<times> 'z shm_state_scheme) result" where
  "shmrem_loop name [] s = Inr (-1, s)"
| "shmrem_loop name (pg # pgs) s =
     (if sh_name (shmtable s pg) = name then
        let s = set_shm pg ((shmtable s pg)\<lparr>sh_ref_count := sh_ref_count (shmtable s pg) - 1\<rparr>) s in
        if sh_ref_count (shmtable s pg) = 0 then
          bnd (curproc s) (\<lambda>(p, s).
          let s = set_proc p ((procs s p)\<lparr>p_shmpgs := (p_shmpgs (procs s p))(pg := None)\<rparr>) s in
          bnd (kfree (sh_pa (shmtable s pg)) s) (\<lambda>s.
          let s = set_shm pg ((shmtable s pg)\<lparr>sh_allocated := 0, sh_pa := 0, sh_name := 0\<rparr>) s in
          Inr (sint (sh_ref_count (shmtable s pg)), s)))
        else shmrem_loop name pgs s
      else shmrem_loop name pgs s)"

definition shmrem :: "uint \<Rightarrow> 'z shm_state_scheme \<Rightarrow> (int \<times> 'z shm_state_scheme) result" where
  "shmrem name s =
     (if name = 0 then Inr (-1, s) else shmrem_loop name [0..<SHM_MAXNUM] s)"

text \<open>\<open>failed\<close> is the address of the string constant that \<open>sys_shmget\<close> returns on a bad pointer.\<close>

definition sys_shmget :: "uint \<Rightarrow> 'z shm_state_scheme \<Rightarrow> (uint \<times> 'z shm_state_scheme) result" where
  "sys_shmget failed s =
     bnd (argptr 0 1 s) (\<lambda>(r, s).
     case r of None \<Rightarrow> Inr (failed, s) | Some name \<Rightarrow> shmget name s)"

definition sys_shmrem :: "'z shm_state_scheme \<Rightarrow> (int \<times> 'z shm_state_scheme) result" where
  "sys_shmrem s =
     bnd (argptr 0 1 s) (\<lambda>(r, s).
     case r of None \<Rightarrow> Inr (-1, s) | Some name \<Rightarrow> shmrem name s)"

definition shm_demo :: shm_state where
  "shm_demo = file_state.extend file_demo
     \<lparr>shmtable = (\<lambda>_. empty_shm_pg), shm_initialized = True, shm_pages = 0x80117000\<rparr>"

lemmas shm_demo_defs = shm_demo_def file_state.defs

end
