(* ===== verification/Shmpages.thy ===== *)
theory Shmpages
  imports Shm Pagetable
begin

text \<open>
  What \<open>shmget\<close> does for the first process that asks for a page, on page tables in byte memory.
\<close>

lemma shm_lookup:
  assumes "\<forall>i<SHM_MAXNUM. sh_name (shmtable s i) \<noteq> name" "sh_name (shmtable s 0) = 0"
  shows "find (\<lambda>i. sh_name (shmtable s i) = name) [0..<SHM_MAXNUM] = None"
    "find (\<lambda>i. sh_name (shmtable s i) = 0) [0..<SHM_MAXNUM] = Some 0"
  using assms by (auto simp: find_upt_None find_upt_Some SHM_MAXNUM_def)

lemma only_mem_shm:
  assumes "only_mem s t"
  shows "procs t = procs s" "shmtable t = shmtable s" "shm_pages t = shm_pages s" "cpus t = cpus s"
  by (subst assms [unfolded only_mem_def], simp)+

text \<open>C30. When no page has the name and the first entry of the table is free, \<open>shmget\<close> returns the address above
  the memory of the process, where a new page is mapped. But the page number has gone on counting from
  the search for the name, so that the page is not entered among those of the process: the address of the
  entry is stored as the memory size of the process in the next slot of the table.\<close>
theorem shmget_overruns:
  fixes s :: "'z shm_state_scheme"
  assumes "shm_initialized s" "name \<noteq> 0" "\<forall>i<SHM_MAXNUM. sh_name (shmtable s i) \<noteq> name" "sh_name (shmtable s 0) = 0"
    and "cproc (cpus s c) = Some p" "p + 1 < NPROC"
    and "vm_ok c s (p_pgdir (procs s p)) (pa # fs)" "1024 \<le> length fs + card (tabs (mem s) (p_pgdir (procs s p)))"
    and "ent (mem s) (p_pgdir (procs s p)) (PGROUNDUP (p_sz (procs s p))) AND PTE_P = 0"
  shows "\<exists>t. shmget name s = Inr (PGROUNDUP (p_sz (procs s p)), t)
    \<and> ent (mem t) (p_pgdir (procs s p)) (PGROUNDUP (p_sz (procs s p))) = V2P pa OR (PTE_W OR PTE_U) OR PTE_P
    \<and> procs t p = (procs s p)\<lparr>p_sz := p_sz (procs s p) + PGSIZE\<rparr>
    \<and> procs t (p + 1) = (procs s (p + 1))\<lparr>p_sz := shm_pages s\<rparr>"
proof -
  let ?d = "p_pgdir (procs s p)" and ?v = "PGROUNDUP (p_sz (procs s p))"
  define s1 where "s1 = set_shm 0 ((shmtable s 0)\<lparr>sh_name := name, sh_allocated := 1\<rparr>) s"
  have f1: "procs s1 = procs s" "mem s1 = mem s" "freelist s1 = freelist s" "cpus s1 = cpus s" "shm_pages s1 = shm_pages s"
    "vm_ok c s1 d fs = vm_ok c s d fs" for d fs
    by (simp_all add: s1_def set_shm_def vm_ok_def kmem_ready_def free_chain_def page_ok_def cpu_ok_def this_cpu_def free_lock_def)
  have ok1: "vm_ok c s1 ?d (pa # fs)" using assms(7) f1 by simp
  have so: "same_outside {pa} (mem s1) (memset (mem s) pa 0 PGSIZE)"
    using vm_okD(6) [OF assms(7), of pa] by (simp add: same_outside_def memset_byte f1)
  obtain k u where k: "kalloc s1 = Inr (pa, k)" "mem k = mem s" and u: "u = k\<lparr>mem := memset (mem s) pa 0 PGSIZE\<rparr>"
    "vm_ok c u ?d fs" "only_mem s1 u" "ent (mem u) ?d = ent (mem s) ?d" "tabs (mem u) ?d = tabs (mem s) ?d"
    using take_page [OF ok1 so] by (auto simp: f1)
  define v where "v = set_shm 0 ((shmtable k 0)\<lparr>sh_pa := pa, sh_ref_count := 1\<rparr>) u"
  have vk: "(set_shm 0 ((shmtable k 0)\<lparr>sh_pa := pa, sh_ref_count := 1\<rparr>) k)
      \<lparr>mem := memset (mem (set_shm 0 ((shmtable k 0)\<lparr>sh_pa := pa, sh_ref_count := 1\<rparr>) k)) pa 0 PGSIZE\<rparr> = v"
    by (simp add: v_def u(1) k(2) set_shm_def)
  have fv: "mem v = mem u" "procs v = procs s" "cpus v = cpus s" "shm_pages v = shm_pages s" "sh_pa (shmtable v 0) = pa"
    "vm_ok c v ?d fs" "cpu_ok c v"
    using u(2) only_mem_shm [OF u(3)] f1 vm_okD(1) [OF u(2)]
    by (simp_all add: v_def set_shm_def vm_ok_def kmem_ready_def free_chain_def page_ok_def cpu_ok_def this_cpu_def free_lock_def)
  obtain us gs t where t: "mappages ?d ?v PGSIZE (V2P pa) (PTE_W OR PTE_U) v = Inr (0, t)" "only_mem v t"
    "ent (mem t) ?d = mapped (ent (mem v) ?d) ?v ?v (V2P pa) (PTE_W OR PTE_U)"
    using map_page [OF fv(6), of ?v "V2P pa" "PTE_W OR PTE_U"] assms(8,9) PGROUNDUP_aligned fv(1) u(4,5)
    by (auto dest!: growsD(2))
  note ft = only_mem_shm [OF t(2)]
  have pa: "pa \<noteq> 0" using vm_okD(7) [OF assms(7), of pa] by simp
  let ?t = "set_proc (p + 1) ((procs s (p + 1))\<lparr>p_sz := shm_pages s\<rparr>) (set_proc p ((procs s p)\<lparr>p_sz := p_sz (procs s p) + PGSIZE\<rparr>) t)"
  have "shm_enter p 0 (SHM_MAXNUM + 0) t = Inr (?v, ?t)"
    using assms(6) by (simp add: shm_enter_def shm_overrun_def shm_pg_addr_def Let_def ft fv set_proc_def)
  then have "shmget name s = Inr (?v, ?t)"
    using assms(1,2,5) shm_lookup [OF assms(3,4)] k pa t(1) fv
    by (simp add: shmget_def Let_def s1_def [symmetric] curproc_eq [where c = c and p = p] shm_map_def vk)
  moreover have "ent (mem ?t) ?d ?v = V2P pa OR (PTE_W OR PTE_U) OR PTE_P"
    by (simp add: set_proc_def t(3) mapped_def page_self PGROUNDUP_aligned)
  ultimately show ?thesis by (auto simp: set_proc_def)
qed

text \<open>A process without memory in slot 0, its directory fresh from \<open>setupkvm\<close>, and no shared page yet.\<close>

definition shm_caller :: "memory \<Rightarrow> uint \<Rightarrow> uint \<Rightarrow> shm_state" where
  "shm_caller m f d = set_proc 0 ((procs shm_demo 0)\<lparr>p_sz := 0, p_pgdir := d\<rparr>) (shm_demo\<lparr>mem := m, freelist := f\<rparr>)"

lemma shm_caller_ok:
  assumes "vm_ok c0 (v :: kmem_state) d fs" "kend v = kend shm_demo"
  shows "vm_ok 0 (shm_caller (mem v) (freelist v) d) d fs"
  using assms file_demo_ok(1) file_demo_ok(2) [of KmemLock]
  by (simp add: vm_ok_def shm_caller_def set_proc_def kmem_ready_def free_chain_def page_ok_def shm_demo_defs
      cpu_ok_def this_cpu_def free_lock_def)

lemma kend_kfreed: "kend (fold kfreed qs s) = kend s"
  by (induction qs arbitrary: s) (simp_all add: kfreed_def)

theorem shmget_overruns_witness:
  "\<exists>m f d t. shmget 0x2000 (shm_caller m f d) = Inr (0, t) \<and> p_sz (procs t 1) = 0x80117000
    \<and> p_shmpgs (procs t 0) = p_shmpgs (procs (shm_caller m f d) 0)"
proof -
  obtain d fs v where v: "vm_ok 0 v d fs" "3000 \<le> length fs" "only_mem (free_pages 4096) v" "ent (mem v) d = kernel_entry 0x80108000"
    using fresh_directory by blast
  obtain pa fs' where fs: "fs = pa # fs'" using v(2) by (cases fs) auto
  let ?s = "shm_caller (mem v) (freelist v) d"
  have f: "shm_initialized ?s" "shmtable ?s = (\<lambda>_. empty_shm_pg)" "cproc (cpus ?s 0) = Some 0" "p_pgdir (procs ?s 0) = d"
    "p_sz (procs ?s 0) = 0" "mem ?s = mem v" "shm_pages ?s = 0x80117000"
    using file_demo_ok(4) [of 0] by (simp_all add: shm_caller_def set_proc_def shm_demo_defs)
  have "kend v = kend (free_pages 4096)" by (subst v(3) [unfolded only_mem_def]) simp
  then have "kend v = kend shm_demo" by (simp add: free_pages_def kend_kfreed)
    (simp add: shm_demo_defs file_demo_defs pipe_demo_defs fs_demo_defs log_demo_defs bio_demo_defs mux_demo_defs)
  then have ok: "vm_ok 0 ?s (p_pgdir (procs ?s 0)) (pa # fs')" using shm_caller_ok [OF v(1)] fs f(4) by simp
  have z: "PGROUNDUP 0 = 0" by (simp add: PGROUNDUP_def PGSIZE_def)
  have "\<exists>t. shmget 0x2000 ?s = Inr (PGROUNDUP (p_sz (procs ?s 0)), t)
    \<and> ent (mem t) (p_pgdir (procs ?s 0)) (PGROUNDUP (p_sz (procs ?s 0))) = V2P pa OR (PTE_W OR PTE_U) OR PTE_P
    \<and> procs t 0 = (procs ?s 0)\<lparr>p_sz := p_sz (procs ?s 0) + PGSIZE\<rparr>
    \<and> procs t (0 + 1) = (procs ?s (0 + 1))\<lparr>p_sz := shm_pages ?s\<rparr>"
    by (rule shmget_overruns [OF f(1) _ _ _ f(3) _ ok])
      (use v(2,4) fs in \<open>simp_all add: f z empty_shm_pg_def NPROC_def kernel_entry_def KERNBASE_def\<close>)
  then obtain t where "shmget 0x2000 ?s = Inr (0, t)" "procs t 0 = (procs ?s 0)\<lparr>p_sz := PGSIZE\<rparr>"
    "procs t 1 = (procs ?s 1)\<lparr>p_sz := 0x80117000\<rparr>" by (auto simp: f z)
  then show ?thesis by (intro exI [of _ "mem v"] exI [of _ "freelist v"] exI [of _ d] exI [of _ t]) simp
qed

end
