(* ===== verification/Proclife.thy ===== *)
theory Proclife
  imports Shm
begin

text \<open>
  The life of a process: \<open>userinit\<close>, \<open>fork\<close>, \<open>forkret\<close>, \<open>exit\<close> and \<open>wait\<close> of \<open>proc.c\<close>, which
  use every other part of the kernel, and their system calls. A pointer that the code follows
  without a test and that is null is a fault, as is the pointer past the process table in \<open>exit\<close>.
\<close>

section \<open>Creation\<close>

record life_state = shm_state +
  forkret_first :: bool

text \<open>
  \<open>safestrcpy\<close> into a buffer of \<open>n\<close> bytes. A string that fits is followed by two NULs, its own
  and the one the routine adds.
\<close>

definition safestrcpy_bytes :: "uchar list \<Rightarrow> uchar list \<Rightarrow> nat \<Rightarrow> uchar list" where
  "safestrcpy_bytes old src n =
     (let c = take (n - 1) (takeWhile (\<lambda>b. b \<noteq> 0) src) in
      if length c = n - 1 then c @ [0] @ drop n old else c @ [0, 0] @ drop (length c + 2) old)"

definition SEG_UCODE_SEL :: ushort where "SEG_UCODE_SEL = push_bit 3 (of_nat SEG_UCODE) OR ucast DPL_USER"
definition SEG_UDATA_SEL :: ushort where "SEG_UDATA_SEL = push_bit 3 (of_nat SEG_UDATA) OR ucast DPL_USER"
definition FL_IF :: uint where "FL_IF = 0x200"

definition chars :: "string \<Rightarrow> uchar list" where
  "chars cs = map (\<lambda>c. of_nat (of_char c)) cs"

definition init_trapframe :: trapframe where
  "init_trapframe = zero_trapframe\<lparr>tf_cs := SEG_UCODE_SEL, tf_ds := SEG_UDATA_SEL, tf_es := SEG_UDATA_SEL,
     tf_ss := SEG_UDATA_SEL, tf_eflags := FL_IF, tf_esp := PGSIZE, tf_eip := 0\<rparr>"

definition init_pqueues :: "nat \<Rightarrow> 'z proc_state_scheme \<Rightarrow> 'z proc_state_scheme" where
  "init_pqueues p s =
     (if pqueue_ready s then s
      else
        let s = s\<lparr>pqueue_ready := True\<rparr>;
            s = set_proc p ((procs s p)\<lparr>p_priority := 0\<rparr>) s in
        s\<lparr>head_tail := (\<lambda>m n. if 0 \<le> m \<and> m < PRIO_MAX \<and> (n = 0 \<or> n = 1) then 0 else head_tail s m n)\<rparr>)"

definition init_sync :: "'z sync_state_scheme \<Rightarrow> 'z sync_state_scheme" where
  "init_sync s =
     (let s = s\<lparr>muxes := (\<lambda>i. if i < MUX_MAXNUM
               then (muxes s i)\<lparr>m_name := 0, m_state := - 1, m_cv := (\<lambda>j. if j < WQSIZE then None else m_cv (muxes s i) j)\<rparr>
               else muxes s i)\<rparr>;
          s = s\<lparr>wqueue := (\<lambda>i. if i < WQSIZE then None else wqueue s i)\<rparr>;
          s = initlock MutexesLock ''mutex_table'' s in
      initlock WqueueLock ''wqueue'' s)"

text \<open>\<open>initcode\<close> is the image of the first program that the linker places in the kernel.\<close>

definition userinit ::
  "'z life_state_scheme env \<Rightarrow> uchar list \<Rightarrow> 'z life_state_scheme \<Rightarrow> 'z life_state_scheme result"
where
  "userinit ev initcode s =
     bnd (allocproc s) (\<lambda>(r, s).
     let s = s\<lparr>initproc := r\<rparr> in
     bnd (deref ''p->pgdir'' r) (\<lambda>p.
     bnd (setupkvm s) (\<lambda>(pgdir, s).
     let s = set_proc p ((procs s p)\<lparr>p_pgdir := pgdir\<rparr>) s in
     if pgdir = 0 then Inl (Panic ''userinit: out of memory?'')
     else
       bnd (inituvm pgdir initcode (of_nat (length initcode)) s) (\<lambda>s.
       let s = set_proc p ((procs s p)\<lparr>p_sz := PGSIZE, p_tf := init_trapframe,
                 p_name := safestrcpy_bytes (p_name (procs s p)) (chars ''initcode'') 16\<rparr>) s in
       bnd (namei ev [slash] s) (\<lambda>(cwd, s).
       let s = set_proc p ((procs s p)\<lparr>p_cwd := cwd\<rparr>) s in
       bnd (acquire PtableLock s) (\<lambda>s.
       let s = init_pqueues p s;
           s = set_proc p ((procs s p)\<lparr>p_state := RUNNABLE\<rparr>) s in
       bnd (enqueue_or_panic p s) (\<lambda>s.
       bnd (release PtableLock s) (\<lambda>s.
       Inr (init_sync s)))))))))"

text \<open>
  \<open>fork\<close> copies the contents of the parent's shared page entries into the entries that the
  child's slot points to, which \<open>allocproc\<close> has not set.
\<close>

definition fork_shm :: "nat \<Rightarrow> nat \<Rightarrow> nat \<Rightarrow> 'z shm_state_scheme \<Rightarrow> 'z shm_state_scheme result" where
  "fork_shm cur np i s =
     (case p_shmpgs (procs s cur) i of
        None \<Rightarrow> Inr s
      | Some src \<Rightarrow>
          bnd (deref ''np->shmpgs[pg_num]'' (p_shmpgs (procs s np) i)) (\<lambda>dst.
          Inr (set_shm dst (shmtable s src) s)))"

definition fork_file :: "nat \<Rightarrow> nat \<Rightarrow> nat \<Rightarrow> 'z file_state_scheme \<Rightarrow> 'z file_state_scheme result" where
  "fork_file cur np i s =
     (case p_ofile (procs s cur) i of
        None \<Rightarrow> Inr s
      | Some f \<Rightarrow> bnd (filedup f s) (\<lambda>(f, s). Inr (set_ofile np i (Some f) s)))"

text \<open>The mutexes and the priority are inherited after the child has been made eligible.\<close>

definition fork_inherit :: "nat \<Rightarrow> nat \<Rightarrow> 'z proc_state_scheme \<Rightarrow> 'z proc_state_scheme" where
  "fork_inherit cur np s =
     (let s = set_proc np ((procs s np)\<lparr>p_mux_ptrs := (\<lambda>i. if i < MUX_MAXNUM then p_mux_ptrs (procs s cur) i
                else p_mux_ptrs (procs s np) i)\<rparr>) s in
      set_proc np ((procs s np)\<lparr>p_priority := p_priority (procs s cur)\<rparr>) s)"

definition fork_ready :: "nat \<Rightarrow> nat \<Rightarrow> 'z life_state_scheme \<Rightarrow> (int \<times> 'z life_state_scheme) result" where
  "fork_ready cur np s =
     (let pid = p_pid (procs s np) in
      bnd (acquire PtableLock s) (\<lambda>s.
      bnd (enqueue_or_panic np (set_proc np ((procs s np)\<lparr>p_state := RUNNABLE\<rparr>) s)) (\<lambda>s.
      bnd (release PtableLock s) (\<lambda>s.
      Inr (pid, fork_inherit cur np s)))))"

definition fork :: "'z life_state_scheme \<Rightarrow> (int \<times> 'z life_state_scheme) result" where
  "fork s =
     bnd (curproc s) (\<lambda>(cur, s).
     bnd (allocproc s) (\<lambda>(r, s).
     case r of None \<Rightarrow> Inr (-1, s)
     | Some np \<Rightarrow>
         bnd (copyuvm (p_pgdir (procs s cur)) (p_sz (procs s cur)) s) (\<lambda>(d, s).
         let s = set_proc np ((procs s np)\<lparr>p_pgdir := d\<rparr>) s in
         if d = 0 then
           bnd (kfree (p_kstack (procs s np)) s) (\<lambda>s.
           Inr (-1, set_proc np ((procs s np)\<lparr>p_kstack := 0, p_state := UNUSED\<rparr>) s))
         else
           bnd (for_each (fork_shm cur np) [0..<SHM_MAXNUM] s) (\<lambda>s.
           let s = set_proc np ((procs s np)\<lparr>p_sz := p_sz (procs s cur), p_parent := Some cur,
                     p_tf := (p_tf (procs s cur))\<lparr>tf_eax := 0\<rparr>\<rparr>) s in
           bnd (for_each (fork_file cur np) [0..<NOFILE] s) (\<lambda>s.
           bnd (deref ''idup(0)'' (p_cwd (procs s cur))) (\<lambda>cwd.
           bnd (idup cwd s) (\<lambda>(cwd, s).
           let s = set_proc np ((procs s np)\<lparr>p_cwd := Some cwd,
                     p_name := safestrcpy_bytes (p_name (procs s np)) (p_name (procs s cur)) 16\<rparr>) s in
           fork_ready cur np s)))))))"

definition forkret :: "'z life_state_scheme env \<Rightarrow> 'z life_state_scheme \<Rightarrow> 'z life_state_scheme result" where
  "forkret ev s =
     bnd (release PtableLock s) (\<lambda>s.
     if forkret_first s then
       bnd (iinit ev ROOTDEV (s\<lparr>forkret_first := False\<rparr>)) (\<lambda>s.
       initlog ev ROOTDEV s)
     else Inr s)"

section \<open>Exit\<close>

definition exit_file :: "'z file_state_scheme env \<Rightarrow> nat \<Rightarrow> nat \<Rightarrow> 'z file_state_scheme \<Rightarrow> 'z file_state_scheme result" where
  "exit_file ev cur fd s =
     (case p_ofile (procs s cur) fd of
        None \<Rightarrow> Inr s
      | Some f \<Rightarrow> bnd (fileclose ev f s) (\<lambda>s. Inr (set_ofile cur fd None s)))"

text \<open>The sizes between which memory is freed are both the first byte of the page, as a signed character.\<close>

definition exit_shm :: "nat \<Rightarrow> nat \<Rightarrow> 'z shm_state_scheme \<Rightarrow> 'z shm_state_scheme result" where
  "exit_shm cur i s =
     (case p_shmpgs (procs s cur) i of
        None \<Rightarrow> Inr s
      | Some pg \<Rightarrow>
          if sh_pa (shmtable s pg) = 0 then Inl (Fault ''*curproc->shmpgs[pg_num]->pa'')
          else
            let v = scast (mem s (sh_pa (shmtable s pg))) in
            bnd (deallocuvm (p_pgdir (procs s cur)) v v s) (\<lambda>(_, s).
            Inr (set_shm i ((shmtable s i)\<lparr>sh_ref_count := sh_ref_count (shmtable s i) - 1\<rparr>) s)))"

definition proc_chan :: "nat option \<Rightarrow> chan" where
  "proc_chan r = (case r of None \<Rightarrow> NoChan | Some p \<Rightarrow> ChProc p)"

definition exit_child :: "nat \<Rightarrow> nat \<Rightarrow> 'z proc_state_scheme \<Rightarrow> 'z proc_state_scheme result" where
  "exit_child cur p s =
     (if p_parent (procs s p) = Some cur then
        let s = set_proc p ((procs s p)\<lparr>p_parent := initproc s\<rparr>) s in
        if p_state (procs s p) = ZOMBIE then wakeup1 (proc_chan (initproc s)) s else Inr s
      else Inr s)"

text \<open>
  A mutex the process can use is reset whoever else uses it. When the process waits on its
  condition variable, the queue is shifted through \<open>p\<close>, which the loop over the children has
  left past the end of the table.
\<close>

definition exit_mux :: "nat \<Rightarrow> nat \<Rightarrow> 'z sync_state_scheme \<Rightarrow> 'z sync_state_scheme result" where
  "exit_mux cur i s =
     (case p_mux_ptrs (procs s cur) i of
        None \<Rightarrow> Inr s
      | Some m \<Rightarrow>
          let s = set_mux m ((muxes s m)\<lparr>m_name := 0, m_state := 0\<rparr>) s in
          if list_ex (\<lambda>j. m_cv (muxes s m) j = Some cur) [0..<WQSIZE]
          then Inl (Fault ''p->mux_ptrs[i]->cv[k]'')
          else Inr (set_mux_ptr cur (int i) None s))"

definition exit :: "'z life_state_scheme env \<Rightarrow> 'z life_state_scheme \<Rightarrow> 'z life_state_scheme result" where
  "exit ev s =
     bnd (curproc s) (\<lambda>(cur, s).
     if Some cur = initproc s then Inl (Panic ''init exiting'')
     else
       bnd (for_each (exit_file ev cur) [0..<NOFILE] s) (\<lambda>s.
       bnd (begin_op (e_others ev) s) (\<lambda>s.
       bnd (deref ''iput(0)'' (p_cwd (procs s cur))) (\<lambda>cwd.
       bnd (iput ev cwd s) (\<lambda>s.
       bnd (end_op ev s) (\<lambda>s.
       let s = set_proc cur ((procs s cur)\<lparr>p_cwd := None\<rparr>) s in
       bnd (acquire PtableLock s) (\<lambda>s.
       bnd (wakeup1 (proc_chan (p_parent (procs s cur))) s) (\<lambda>s.
       bnd (for_each (exit_shm cur) [0..<SHM_MAXNUM] s) (\<lambda>s.
       bnd (for_each (exit_child cur) [0..<NPROC] s) (\<lambda>s.
       bnd (for_each (exit_mux cur) [0..<MUX_MAXNUM] s) (\<lambda>s.
       bnd (sched (e_others ev) (set_proc cur ((procs s cur)\<lparr>p_state := ZOMBIE\<rparr>) s)) (\<lambda>s.
       Inl (Panic ''zombie exit'')))))))))))))"

section \<open>Wait\<close>

definition reap :: "nat \<Rightarrow> 'z proc_state_scheme \<Rightarrow> (int \<times> 'z proc_state_scheme) result" where
  "reap p s =
     (let pid = p_pid (procs s p) in
      bnd (kfree (p_kstack (procs s p)) s) (\<lambda>s.
      let s = set_proc p ((procs s p)\<lparr>p_kstack := 0\<rparr>) s in
      bnd (freevm (p_pgdir (procs s p)) s) (\<lambda>s.
      let s = set_proc p ((procs s p)\<lparr>p_pid := 0, p_parent := None, p_name := (p_name (procs s p))[0 := 0],
                p_killed := False, p_state := UNUSED\<rparr>) s in
      bnd (release PtableLock s) (\<lambda>s.
      Inr (pid, s)))))"

function wait_loop ::
  "('z proc_state_scheme \<Rightarrow> 'z proc_state_scheme) \<Rightarrow> nat \<Rightarrow> 'z proc_state_scheme \<Rightarrow> (int \<times> 'z proc_state_scheme) result"
where
  "wait_loop others cur s =
     (case find (\<lambda>p. p_parent (procs s p) = Some cur \<and> p_state (procs s p) = ZOMBIE) [0..<NPROC] of
        Some p \<Rightarrow> reap p s
      | None \<Rightarrow>
          if \<not> list_ex (\<lambda>p. p_parent (procs s p) = Some cur) [0..<NPROC] \<or> p_killed (procs s cur) then
            bnd (release PtableLock s) (\<lambda>s. Inr (-1, s))
          else
            bnd (sleep others (ChProc cur) PtableLock s) (\<lambda>s. wait_loop others cur s))"
  by pat_completeness auto
termination
  by (relation "measure (\<lambda>(others, cur, s). switches s)") (auto dest!: sleep_switches)

declare wait_loop.simps [simp del]

definition wait ::
  "('z proc_state_scheme \<Rightarrow> 'z proc_state_scheme) \<Rightarrow> 'z proc_state_scheme \<Rightarrow> (int \<times> 'z proc_state_scheme) result"
where
  "wait others s =
     bnd (curproc s) (\<lambda>(cur, s).
     bnd (acquire PtableLock s) (\<lambda>s. wait_loop others cur s))"

definition sys_fork :: "'z life_state_scheme \<Rightarrow> (int \<times> 'z life_state_scheme) result" where
  "sys_fork s = fork s"

definition sys_exit :: "'z life_state_scheme env \<Rightarrow> 'z life_state_scheme \<Rightarrow> (int \<times> 'z life_state_scheme) result" where
  "sys_exit ev s = bnd (exit ev s) (\<lambda>s. Inr (0, s))"

definition sys_wait ::
  "('z proc_state_scheme \<Rightarrow> 'z proc_state_scheme) \<Rightarrow> 'z proc_state_scheme \<Rightarrow> (int \<times> 'z proc_state_scheme) result"
where
  "sys_wait others s = wait others s"

end
