(* ===== verification/Exec.thy ===== *)
theory Exec
  imports Proclife
begin

text \<open>
  Program loading: \<open>exec\<close> of \<open>exec.c\<close>, \<open>loaduvm\<close> of \<open>vm.c\<close> and \<open>sys_exec\<close> of \<open>sysfile.c\<close>.
  The argument strings are read from user memory when their addresses are fetched.
\<close>

section \<open>ELF files\<close>

definition ELF_MAGIC :: uint where "ELF_MAGIC = 0x464C457F"
definition ELF_PROG_LOAD :: uint where "ELF_PROG_LOAD = 1"
definition ELFHDR_SIZE :: uint where "ELFHDR_SIZE = 52"
definition PROGHDR_SIZE :: uint where "PROGHDR_SIZE = 32"
definition MAXARG :: nat where "MAXARG = 32"

record elfhdr =
  elf_magic :: uint
  elf_entry :: uint
  elf_phoff :: uint
  elf_phnum :: ushort

record proghdr =
  ph_type :: uint
  ph_off :: uint
  ph_vaddr :: uint
  ph_filesz :: uint
  ph_memsz :: uint

text \<open>The fields that \<open>exec\<close> reads, at their offsets in the structures of \<open>elf.h\<close>.\<close>

definition elfhdr_of :: "uchar list \<Rightarrow> elfhdr" where
  "elfhdr_of d = \<lparr>elf_magic = get32 d 0, elf_entry = get32 d 24, elf_phoff = get32 d 28, elf_phnum = get16 d 44\<rparr>"

definition proghdr_of :: "uchar list \<Rightarrow> proghdr" where
  "proghdr_of d = \<lparr>ph_type = get32 d 0, ph_off = get32 d 4, ph_vaddr = get32 d 8, ph_filesz = get32 d 16,
     ph_memsz = get32 d 20\<rparr>"

section \<open>Loading\<close>

definition to_kernel :: "uint \<Rightarrow> 'z kmem_state_scheme sink" where
  "to_kernel addr i bs s = Inr (s\<lparr>mem := put_bytes (mem s) (addr + of_nat i) bs\<rparr>)"

function loaduvm_loop ::
  "'z fs_state_scheme env \<Rightarrow> uint \<Rightarrow> uint \<Rightarrow> nat \<Rightarrow> uint \<Rightarrow> uint \<Rightarrow> uint \<Rightarrow> 'z fs_state_scheme
   \<Rightarrow> (int \<times> 'z fs_state_scheme) result"
where
  "loaduvm_loop ev pgdir addr ip offset sz i s =
     (if i < sz then
        bnd (walkpgdir pgdir (addr + i) False s) (\<lambda>(pte, s).
        if pte = 0 then Inl (Panic ''loaduvm: address should exist'')
        else
          let pa = PTE_ADDR (read32 (mem s) pte);
              n = (if sz - i < PGSIZE then sz - i else PGSIZE) in
          bnd (readi ev ip (to_kernel (P2V pa)) (offset + i) n s) (\<lambda>((r, _), s).
          if of_int r \<noteq> n then Inr (-1, s)
          else if i + PGSIZE \<le> i then Inl Spin
          else loaduvm_loop ev pgdir addr ip offset sz (i + PGSIZE) s))
      else Inr (0, s))"
  by pat_completeness auto
termination
  by (relation "measure (\<lambda>(ev, pgdir, addr, ip, offset, sz, i, s). 2 ^ 32 - unat i)")
    (auto simp: word_le_nat_alt not_le intro!: diff_less_mono2 unat_uint_less [simplified])

declare loaduvm_loop.simps [simp del]

definition loaduvm ::
  "'z fs_state_scheme env \<Rightarrow> uint \<Rightarrow> uint \<Rightarrow> nat \<Rightarrow> uint \<Rightarrow> uint \<Rightarrow> 'z fs_state_scheme
   \<Rightarrow> (int \<times> 'z fs_state_scheme) result"
where
  "loaduvm ev pgdir addr ip offset sz s =
     (if addr mod PGSIZE \<noteq> 0 then Inl (Panic ''loaduvm: addr must be page aligned'')
      else loaduvm_loop ev pgdir addr ip offset sz 0 s)"

text \<open>\<open>k\<close> program headers are left, the next one at \<open>off\<close>. \<open>None\<close> is the jump to \<open>bad\<close>.\<close>

fun exec_load ::
  "'z fs_state_scheme env \<Rightarrow> nat \<Rightarrow> uint \<Rightarrow> uint \<Rightarrow> nat \<Rightarrow> uint \<Rightarrow> 'z fs_state_scheme
   \<Rightarrow> (uint option \<times> 'z fs_state_scheme) result"
where
  "exec_load ev ip pgdir off 0 sz s = Inr (Some sz, s)"
| "exec_load ev ip pgdir off (Suc k) sz s =
     bnd (readi ev ip keep off PROGHDR_SIZE s) (\<lambda>((r, bs), s).
     if r \<noteq> 32 then Inr (None, s)
     else
       let ph = proghdr_of bs in
       if ph_type ph \<noteq> ELF_PROG_LOAD then exec_load ev ip pgdir (off + PROGHDR_SIZE) k sz s
       else if ph_memsz ph < ph_filesz ph then Inr (None, s)
       else if ph_vaddr ph + ph_memsz ph < ph_vaddr ph then Inr (None, s)
       else
         bnd (allocuvm pgdir sz (ph_vaddr ph + ph_memsz ph) s) (\<lambda>(sz, s).
         if sz = 0 then Inr (None, s)
         else if ph_vaddr ph mod PGSIZE \<noteq> 0 then Inr (None, s)
         else
           bnd (loaduvm ev pgdir (ph_vaddr ph) ip (ph_off ph) (ph_filesz ph) s) (\<lambda>(r, s).
           if r < 0 then Inr (None, s)
           else exec_load ev ip pgdir (off + PROGHDR_SIZE) k sz s)))"

section \<open>The new stack\<close>

text \<open>
  The argument strings go onto the stack one below the other, each at a multiple of four; the
  result is the stack pointer and the addresses of the strings.
\<close>

fun push_args ::
  "uint \<Rightarrow> uint \<Rightarrow> nat \<Rightarrow> uchar list list \<Rightarrow> 'z kmem_state_scheme
   \<Rightarrow> ((uint \<times> uint list) option \<times> 'z kmem_state_scheme) result"
where
  "push_args pgdir sp argc [] s = Inr (Some (sp, []), s)"
| "push_args pgdir sp argc (a # as) s =
     (if MAXARG \<le> argc then Inr (None, s)
      else
        let sp = (sp - of_nat (length a + 1)) AND NOT 3 in
        bnd (copyout pgdir sp (a @ [0]) (of_nat (length a + 1)) s) (\<lambda>(r, s).
        if r < 0 then Inr (None, s)
        else
          bnd (push_args pgdir sp (Suc argc) as s) (\<lambda>(rest, s).
          Inr (map_option (\<lambda>(sp', ps). (sp', sp # ps)) rest, s))))"

definition ustack_of :: "uint \<Rightarrow> uint list \<Rightarrow> uint list" where
  "ustack_of sp ptrs =
     [0xffffffff, of_nat (length ptrs), sp - of_nat ((length ptrs + 1) * 4)] @ ptrs @ [0]"

definition basename :: "uchar list \<Rightarrow> uchar list" where
  "basename path = rev (takeWhile (\<lambda>c. c \<noteq> slash) (rev path))"

definition exec_bad ::
  "'z life_state_scheme env \<Rightarrow> uint \<Rightarrow> nat option \<Rightarrow> 'z life_state_scheme \<Rightarrow> (int \<times> 'z life_state_scheme) result"
where
  "exec_bad ev pgdir ip s =
     bnd (if pgdir \<noteq> 0 then freevm pgdir s else Inr s) (\<lambda>s.
     bnd (case ip of None \<Rightarrow> Inr s | Some ip \<Rightarrow> bnd (iunlockput ev ip s) (\<lambda>s. end_op ev s)) (\<lambda>s.
     Inr (-1, s)))"

definition exec_commit ::
  "nat \<Rightarrow> uchar list \<Rightarrow> uint \<Rightarrow> uint \<Rightarrow> uint \<Rightarrow> uint \<Rightarrow> 'z proc_state_scheme \<Rightarrow> (int \<times> 'z proc_state_scheme) result"
where
  "exec_commit p path pgdir sz entry sp s =
     (let s = set_proc p ((procs s p)\<lparr>p_name := safestrcpy_bytes (p_name (procs s p)) (basename path) 16\<rparr>) s;
          oldpgdir = p_pgdir (procs s p);
          s = set_proc p ((procs s p)\<lparr>p_pgdir := pgdir, p_sz := sz,
                p_tf := (p_tf (procs s p))\<lparr>tf_eip := entry, tf_esp := sp\<rparr>\<rparr>) s in
      bnd (switchuvm (Some (p_kstack (procs s p), p_pgdir (procs s p))) s) (\<lambda>s.
      bnd (freevm oldpgdir s) (\<lambda>s.
      Inr (0, s))))"

text \<open>The part of \<open>exec\<close> after the file has been read and closed.\<close>

definition exec_stack ::
  "'z life_state_scheme env \<Rightarrow> nat \<Rightarrow> uchar list \<Rightarrow> uchar list list \<Rightarrow> uint \<Rightarrow> uint \<Rightarrow> uint
   \<Rightarrow> 'z life_state_scheme \<Rightarrow> (int \<times> 'z life_state_scheme) result"
where
  "exec_stack ev p path argv pgdir entry sz s =
     (let sz = PGROUNDUP sz in
      bnd (allocuvm pgdir sz (sz + 2 * PGSIZE) s) (\<lambda>(sz, s).
      if sz = 0 then exec_bad ev pgdir None s
      else
        bnd (clearpteu pgdir (sz - 2 * PGSIZE) s) (\<lambda>s.
        bnd (push_args pgdir sz 0 argv s) (\<lambda>(r, s).
        case r of None \<Rightarrow> exec_bad ev pgdir None s
        | Some (sp, ptrs) \<Rightarrow>
            let ustack = ustack_of sp ptrs;
                sp = sp - of_nat ((3 + length ptrs + 1) * 4) in
            bnd (copyout pgdir sp (concat (map bytes32 ustack)) (of_nat ((3 + length ptrs + 1) * 4)) s) (\<lambda>(r, s).
            if r < 0 then exec_bad ev pgdir None s
            else exec_commit p path pgdir sz entry sp s)))))"

definition exec_image ::
  "'z life_state_scheme env \<Rightarrow> nat \<Rightarrow> uchar list \<Rightarrow> uchar list list \<Rightarrow> nat \<Rightarrow> 'z life_state_scheme
   \<Rightarrow> (int \<times> 'z life_state_scheme) result"
where
  "exec_image ev p path argv ip s =
     bnd (readi ev ip keep 0 ELFHDR_SIZE s) (\<lambda>((r, bs), s).
     let elf = elfhdr_of bs in
     if r \<noteq> 52 \<or> elf_magic elf \<noteq> ELF_MAGIC then exec_bad ev 0 (Some ip) s
     else
       bnd (setupkvm s) (\<lambda>(pgdir, s).
       if pgdir = 0 then exec_bad ev 0 (Some ip) s
       else
         bnd (exec_load ev ip pgdir (elf_phoff elf) (unat (elf_phnum elf)) 0 s) (\<lambda>(r, s).
         case r of None \<Rightarrow> exec_bad ev pgdir (Some ip) s
         | Some sz \<Rightarrow>
             bnd (iunlockput ev ip s) (\<lambda>s.
             bnd (end_op ev s) (\<lambda>s.
             exec_stack ev p path argv pgdir (elf_entry elf) sz s)))))"

definition exec ::
  "'z life_state_scheme env \<Rightarrow> uchar list \<Rightarrow> uchar list list \<Rightarrow> 'z life_state_scheme
   \<Rightarrow> (int \<times> 'z life_state_scheme) result"
where
  "exec ev path argv s =
     bnd (curproc s) (\<lambda>(p, s).
     bnd (begin_op (e_others ev) s) (\<lambda>s.
     let s = set_proc p ((procs s p)\<lparr>p_shmpgs := (\<lambda>i. if i < SHM_MAXNUM then None else p_shmpgs (procs s p) i)\<rparr>) s in
     bnd (namei ev path s) (\<lambda>(ip, s).
     case ip of None \<Rightarrow> bnd (end_op ev s) (\<lambda>s. Inr (-1, s))
     | Some ip \<Rightarrow> bnd (ilock ev ip s) (\<lambda>s. exec_image ev p path argv ip s))))"

section \<open>The system call\<close>

definition fetch_string :: "uint \<Rightarrow> 'z proc_state_scheme \<Rightarrow> (uchar list option \<times> 'z proc_state_scheme) result" where
  "fetch_string a s =
     bnd (fetchstr a s) (\<lambda>(l, s).
     case l of None \<Rightarrow> Inr (None, s)
     | Some len \<Rightarrow> bnd (load_bytes a (unat len) s) (\<lambda>bs. Inr (Some bs, s)))"

text \<open>\<open>k\<close> slots of the array \<open>argv\<close> are left.\<close>

fun fetch_argv :: "uint \<Rightarrow> nat \<Rightarrow> 'z proc_state_scheme \<Rightarrow> (uchar list list option \<times> 'z proc_state_scheme) result" where
  "fetch_argv uargv 0 s = Inr (None, s)"
| "fetch_argv uargv (Suc k) s =
     bnd (fetchint uargv s) (\<lambda>(r, s).
     case r of None \<Rightarrow> Inr (None, s) | Some uarg \<Rightarrow>
     if uarg = 0 then Inr (Some [], s)
     else
       bnd (fetch_string uarg s) (\<lambda>(a, s).
       case a of None \<Rightarrow> Inr (None, s) | Some a \<Rightarrow>
       bnd (fetch_argv (uargv + 4) k s) (\<lambda>(as, s).
       Inr (map_option (\<lambda>as. a # as) as, s))))"

definition sys_exec ::
  "'z life_state_scheme env \<Rightarrow> 'z life_state_scheme \<Rightarrow> (int \<times> 'z life_state_scheme) result"
where
  "sys_exec ev s =
     bnd (argpath 0 s) (\<lambda>(path, s).
     case path of None \<Rightarrow> Inr (-1, s) | Some path \<Rightarrow>
     bnd (argint 1 s) (\<lambda>(uargv, s).
     case uargv of None \<Rightarrow> Inr (-1, s) | Some uargv \<Rightarrow>
     bnd (fetch_argv uargv MAXARG s) (\<lambda>(argv, s).
     case argv of None \<Rightarrow> Inr (-1, s) | Some argv \<Rightarrow> exec ev path argv s)))"

end
