(* ===== verification/Ide.thy ===== *)
theory Ide
  imports Exec
begin

text \<open>
  The IDE disk driver (\<open>ide.c\<close>). Devices are reached through ports: the reply of a device to the
  \<open>k\<close>-th read of a port is a function \<open>io_reply\<close> of the state, any function at all, and the bytes
  written to ports are recorded, latest first. The queue of requests is linked through the
  buffers. Routing the disk's interrupt (\<open>ioapicenable\<close>) is left out.
\<close>

section \<open>Ports\<close>

record io_state = life_state +
  io_reply :: "nat \<Rightarrow> uint \<Rightarrow> uchar"
  io_reads :: nat
  io_written :: "(uint \<times> uchar) list"
  idequeue :: "nat option"
  havedisk1 :: bool

definition inb :: "uint \<Rightarrow> 'z io_state_scheme \<Rightarrow> uchar \<times> 'z io_state_scheme" where
  "inb port s = (io_reply s (io_reads s) port, s\<lparr>io_reads := io_reads s + 1\<rparr>)"

definition outb :: "uint \<Rightarrow> uchar \<Rightarrow> 'z io_state_scheme \<Rightarrow> 'z io_state_scheme" where
  "outb port v s = s\<lparr>io_written := (port, v) # io_written s\<rparr>"

text \<open>\<open>cnt\<close> words of four bytes from and to a port.\<close>

definition insl :: "uint \<Rightarrow> nat \<Rightarrow> 'z io_state_scheme \<Rightarrow> uchar list \<times> 'z io_state_scheme" where
  "insl port cnt s =
     (map (\<lambda>k. io_reply s (io_reads s + k) port) [0..<4 * cnt], s\<lparr>io_reads := io_reads s + 4 * cnt\<rparr>)"

definition outsl :: "uint \<Rightarrow> uchar list \<Rightarrow> 'z io_state_scheme \<Rightarrow> 'z io_state_scheme" where
  "outsl port bs s = fold (outb port) bs s"

section \<open>The controller\<close>

definition IDE_BSY :: uchar where "IDE_BSY = 0x80"
definition IDE_DRDY :: uchar where "IDE_DRDY = 0x40"
definition IDE_DF :: uchar where "IDE_DF = 0x20"
definition IDE_ERR :: uchar where "IDE_ERR = 0x01"
definition IDE_CMD_READ :: uchar where "IDE_CMD_READ = 0x20"
definition IDE_CMD_WRITE :: uchar where "IDE_CMD_WRITE = 0x30"
definition FSSIZE :: uint where "FSSIZE = 1000"

definition ide_ready :: "uchar \<Rightarrow> bool" where
  "ide_ready r \<longleftrightarrow> r AND (IDE_BSY OR IDE_DRDY) = IDE_DRDY"

text \<open>The controller is polled until it is ready, which may be never.\<close>

partial_function (option) ide_poll :: "'z io_state_scheme \<Rightarrow> (uchar \<times> 'z io_state_scheme) option" where
  "ide_poll s =
     (if ide_ready (fst (inb 0x1f7 s)) then Some (inb 0x1f7 s) else ide_poll (snd (inb 0x1f7 s)))"

definition idewait :: "bool \<Rightarrow> 'z io_state_scheme \<Rightarrow> (int \<times> 'z io_state_scheme) result" where
  "idewait checkerr s =
     (case ide_poll s of
        None \<Rightarrow> Inl Spin
      | Some (r, s) \<Rightarrow> Inr (if checkerr \<and> r AND (IDE_DF OR IDE_ERR) \<noteq> 0 then -1 else 0, s))"

text \<open>At most \<open>n\<close> more reads of the status port look for a second disk.\<close>

fun ide_probe :: "nat \<Rightarrow> 'z io_state_scheme \<Rightarrow> 'z io_state_scheme" where
  "ide_probe 0 s = s"
| "ide_probe (Suc n) s =
     (let (r, s) = inb 0x1f7 s in if r \<noteq> 0 then s\<lparr>havedisk1 := True\<rparr> else ide_probe n s)"

definition ideinit :: "'z io_state_scheme \<Rightarrow> 'z io_state_scheme result" where
  "ideinit s =
     (let s = initlock IdeLock ''ide'' s in
      bnd (idewait False s) (\<lambda>(_, s).
      let s = outb 0x1f6 (0xe0 OR push_bit 4 1) s;
          s = ide_probe 1000 s in
      Inr (outb 0x1f6 0xe0 s)))"

definition idestart :: "nat \<Rightarrow> 'z io_state_scheme \<Rightarrow> 'z io_state_scheme result" where
  "idestart b s =
     (if FSSIZE \<le> b_blockno (bufs s b) then Inl (Panic ''incorrect blockno'')
      else
        let sector = b_blockno (bufs s b) in
        bnd (idewait False s) (\<lambda>(_, s).
        let s = outb 0x3f6 0 s;
            s = outb 0x1f2 1 s;
            s = outb 0x1f3 (ucast sector) s;
            s = outb 0x1f4 (ucast (drop_bit 8 sector)) s;
            s = outb 0x1f5 (ucast (drop_bit 16 sector)) s;
            s = outb 0x1f6 (0xe0 OR push_bit 4 (ucast (b_dev (bufs s b) AND 1)) OR (ucast (drop_bit 24 sector) AND 0x0f)) s in
        if b_flags (bufs s b) AND B_DIRTY \<noteq> 0 then
          Inr (outsl 0x1f0 (take BSIZE (b_data (bufs s b))) (outb 0x1f7 IDE_CMD_WRITE s))
        else Inr (outb 0x1f7 IDE_CMD_READ s)))"

section \<open>Requests\<close>

definition ide_done :: "nat \<Rightarrow> 'z bio_state_scheme \<Rightarrow> 'z bio_state_scheme" where
  "ide_done b s = set_buf b ((bufs s b)\<lparr>b_flags := (b_flags (bufs s b) OR B_VALID) AND NOT B_DIRTY\<rparr>) s"

definition ideintr :: "'z io_state_scheme \<Rightarrow> 'z io_state_scheme result" where
  "ideintr s =
     bnd (acquire IdeLock s) (\<lambda>s.
     case idequeue s of
       None \<Rightarrow> release IdeLock s
     | Some b \<Rightarrow>
         let s = s\<lparr>idequeue := b_qnext (bufs s b)\<rparr> in
         bnd (if b_flags (bufs s b) AND B_DIRTY = 0 then
                bnd (idewait True s) (\<lambda>(r, s).
                Inr (if r \<ge> 0 then let (bs, s) = insl 0x1f0 (BSIZE div 4) s in set_data b bs s else s))
              else Inr s) (\<lambda>s.
         bnd (wakeup (ChBuf b) (ide_done b s)) (\<lambda>s.
         bnd (case idequeue s of None \<Rightarrow> Inr s | Some b' \<Rightarrow> idestart b' s) (\<lambda>s.
         release IdeLock s))))"

text \<open>The last buffer of a queue that starts at \<open>b\<close>; a queue longer than the cache has a cycle.\<close>

fun ide_last :: "nat \<Rightarrow> nat \<Rightarrow> 'z bio_state_scheme \<Rightarrow> nat result" where
  "ide_last 0 b s = Inl Spin"
| "ide_last (Suc n) b s = (case b_qnext (bufs s b) of None \<Rightarrow> Inr b | Some b' \<Rightarrow> ide_last n b' s)"

definition ide_append :: "nat \<Rightarrow> 'z io_state_scheme \<Rightarrow> 'z io_state_scheme result" where
  "ide_append b s =
     (let s = set_buf b ((bufs s b)\<lparr>b_qnext := None\<rparr>) s in
      case idequeue s of
        None \<Rightarrow> Inr (s\<lparr>idequeue := Some b\<rparr>)
      | Some h \<Rightarrow> bnd (ide_last (NBUF + 1) h s) (\<lambda>l. Inr (set_buf l ((bufs s l)\<lparr>b_qnext := Some b\<rparr>) s)))"

function iderw_wait ::
  "('z bio_state_scheme \<Rightarrow> 'z bio_state_scheme) \<Rightarrow> nat \<Rightarrow> 'z bio_state_scheme \<Rightarrow> 'z bio_state_scheme result"
where
  "iderw_wait others b s =
     (if b_flags (bufs s b) AND (B_VALID OR B_DIRTY) \<noteq> B_VALID then
        bnd (sleep others (ChBuf b) IdeLock s) (\<lambda>s. iderw_wait others b s)
      else Inr s)"
  by pat_completeness auto
termination
  by (relation "measure (\<lambda>(others, b, s). switches s)") (auto dest!: sleep_switches)

declare iderw_wait.simps [simp del]

definition iderw ::
  "('z io_state_scheme \<Rightarrow> 'z io_state_scheme) \<Rightarrow> nat \<Rightarrow> 'z io_state_scheme \<Rightarrow> 'z io_state_scheme result"
where
  "iderw others b s =
     bnd (holdingsleep (BufLock b) s) (\<lambda>(h, s).
     if \<not> h then Inl (Panic ''iderw: buf not locked'')
     else if b_flags (bufs s b) AND (B_VALID OR B_DIRTY) = B_VALID then Inl (Panic ''iderw: nothing to do'')
     else if b_dev (bufs s b) \<noteq> 0 \<and> \<not> havedisk1 s then Inl (Panic ''iderw: ide disk 1 not present'')
     else
       bnd (acquire IdeLock s) (\<lambda>s.
       bnd (ide_append b s) (\<lambda>s.
       bnd (if idequeue s = Some b then idestart b s else Inr s) (\<lambda>s.
       bnd (iderw_wait others b s) (\<lambda>s.
       release IdeLock s)))))"

text \<open>The environment of a kernel on the IDE disk.\<close>

definition ide_env :: "('z io_state_scheme \<Rightarrow> 'z io_state_scheme) \<Rightarrow> 'z io_state_scheme env" where
  "ide_env others = \<lparr>e_others = others, e_iderw = iderw others, e_devread = (\<lambda>_. None), e_devwrite = (\<lambda>_. None)\<rparr>"

section \<open>Properties\<close>

lemma ide_poll_ready:
  "ide_ready (io_reply s (io_reads s + k) 0x1f7) \<Longrightarrow>
   \<exists>r t. ide_poll s = Some (r, t) \<and> ide_ready r \<and> io_reads t \<le> io_reads s + k + 1 \<and> t = s\<lparr>io_reads := io_reads t\<rparr>"
proof (induction k arbitrary: s)
  case 0
  then show ?case by (subst ide_poll.simps) (simp add: inb_def)
next
  case (Suc k)
  show ?case
  proof (cases "ide_ready (fst (inb 0x1f7 s))")
    case True
    then show ?thesis by (subst ide_poll.simps) (simp add: inb_def)
  next
    case False
    have "ide_ready (io_reply (snd (inb 0x1f7 s)) (io_reads (snd (inb 0x1f7 s)) + k) 0x1f7)"
      using Suc.prems by (simp add: inb_def)
    from Suc.IH [OF this] show ?thesis
      using False by (subst ide_poll.simps) (auto simp: inb_def)
  qed
qed

text \<open>\<open>idewait\<close> comes back as soon as the controller is ready: if any later reply to a read of the status
  port shows it ready, the polling loop ends by then, with an error reported only on request, and has
  changed nothing but the number of reads.\<close>

theorem idewait_returns:
  assumes "ide_ready (io_reply s (io_reads s + k) 0x1f7)"
  shows "\<exists>r n. idewait checkerr s = Inr (r, s\<lparr>io_reads := n\<rparr>) \<and> n \<le> io_reads s + k + 1 \<and> (checkerr \<or> r = 0)"
proof -
  obtain v t where t: "ide_poll s = Some (v, t)" "io_reads t \<le> io_reads s + k + 1" "t = s\<lparr>io_reads := io_reads t\<rparr>"
    using ide_poll_ready [OF assms] by blast
  then have "idewait checkerr s = Inr (if checkerr \<and> v AND (IDE_DF OR IDE_ERR) \<noteq> 0 then -1 else 0, s\<lparr>io_reads := io_reads t\<rparr>)"
    by (simp add: idewait_def)
  with t(2) show ?thesis by auto
qed

definition io_demo :: io_state where
  "io_demo = life_state.extend (shm_state.extend shm_demo \<lparr>forkret_first = False\<rparr>)
     \<lparr>io_reply = (\<lambda>k _. if k < 3 then IDE_BSY else IDE_DRDY), io_reads = 0, io_written = [], idequeue = None, havedisk1 = True\<rparr>"

lemmas io_demo_defs = io_demo_def life_state.defs shm_state.defs

theorem idewait_returns_witness:
  "\<exists>r n. idewait True io_demo = Inr (r, io_demo\<lparr>io_reads := n\<rparr>) \<and> n \<le> 4 \<and> (True \<or> r = 0)"
proof -
  have "ide_ready (io_reply io_demo (io_reads io_demo + 3) 0x1f7)" "io_reads io_demo + 3 + 1 = 4"
    by (simp_all add: io_demo_defs ide_ready_def IDE_BSY_def IDE_DRDY_def)
  from idewait_returns [OF this(1), of True] this(2) show ?thesis by simp
qed

text \<open>The requests in the queue, in order.\<close>

fun ide_chain :: "(nat \<Rightarrow> buf) \<Rightarrow> nat option \<Rightarrow> nat list \<Rightarrow> bool" where
  "ide_chain f h [] \<longleftrightarrow> h = None"
| "ide_chain f h (b # bs) \<longleftrightarrow> h = Some b \<and> ide_chain f (b_qnext (f b)) bs"

lemma ide_chain_cong: "ide_chain f h qs \<Longrightarrow> (\<And>b. b \<in> set qs \<Longrightarrow> b_qnext (g b) = b_qnext (f b)) \<Longrightarrow> ide_chain g h qs"
  by (induction f h qs rule: ide_chain.induct) auto

lemma ide_last_chain: "ide_chain (bufs s) (Some h) qs \<Longrightarrow> length qs \<le> n \<Longrightarrow> ide_last n h s = Inr (last qs)"
proof (induction n arbitrary: h qs)
  case 0
  then show ?case by (cases qs) auto
next
  case (Suc n)
  then obtain ts where qs: "qs = h # ts" "ide_chain (bufs s) (b_qnext (bufs s h)) ts" "length ts \<le> n"
    by (cases qs) auto
  then show ?case
  proof (cases ts)
    case (Cons r rs)
    then have "ide_last n r s = Inr (last ts)" using Suc.IH [of r ts] qs by simp
    then show ?thesis using Cons qs by simp
  qed simp
qed

lemma ide_chain_snoc:
  "ide_chain f h qs \<Longrightarrow> qs \<noteq> [] \<Longrightarrow> distinct qs \<Longrightarrow> b \<notin> set qs \<Longrightarrow> b_qnext (f b) = None \<Longrightarrow> b_qnext v = Some b \<Longrightarrow>
   ide_chain (f(last qs := v)) h (qs @ [b])"
proof (induction f h qs rule: ide_chain.induct)
  case (2 f h q qs)
  show ?case
  proof (cases qs)
    case Nil
    with 2 show ?thesis by auto
  next
    case (Cons r rs)
    then have "last qs \<noteq> q" using 2 by (metis distinct.simps(2) last_in_set list.discI)
    with 2 Cons show ?thesis by auto
  qed
qed simp

text \<open>
  Requests are served in the order they are made: a buffer that is not waiting yet is put at the end
  of the queue behind all others, however long the queue is.\<close>

theorem ide_append_last:
  assumes "ide_chain (bufs s) (idequeue s) qs" "distinct qs" "b \<notin> set qs" "length qs \<le> NBUF"
  shows "\<exists>t. ide_append b s = Inr t \<and> ide_chain (bufs t) (idequeue t) (qs @ [b])
    \<and> (idequeue t = Some b \<longleftrightarrow> qs = [])"
proof -
  let ?s = "set_buf b ((bufs s b)\<lparr>b_qnext := None\<rparr>) s"
  have s: "bufs ?s = (bufs s)(b := (bufs s b)\<lparr>b_qnext := None\<rparr>)" "idequeue ?s = idequeue s"
    by (simp_all add: set_buf_def)
  have ch: "ide_chain (bufs ?s) (idequeue s) qs"
    by (rule ide_chain_cong [OF assms(1)]) (use assms(3) s in auto)
  show ?thesis
  proof (cases qs)
    case Nil
    then show ?thesis using assms(1) s by (simp add: ide_append_def Let_def)
  next
    case (Cons h hs)
    then have h: "idequeue s = Some h" "h \<noteq> b" using assms(1,3) by auto
    then have "ide_last (NBUF + 1) h ?s = Inr (last qs)"
      using ide_last_chain [of ?s h qs "NBUF + 1"] ch assms(4) by simp
    then have app: "ide_append b s = Inr (set_buf (last qs) ((bufs ?s (last qs))\<lparr>b_qnext := Some b\<rparr>) ?s)"
      by (simp add: ide_append_def Let_def s(2) h del: ide_last.simps)
    have "ide_chain ((bufs ?s)(last qs := (bufs ?s (last qs))\<lparr>b_qnext := Some b\<rparr>)) (idequeue s) (qs @ [b])"
      by (rule ide_chain_snoc [OF ch]) (use Cons assms(2,3) s in auto)
    with app h Cons show ?thesis by (simp add: set_buf_def)
  qed
qed

theorem ide_append_last_witness:
  "\<exists>t. ide_append 7 io_demo = Inr t \<and> ide_chain (bufs t) (idequeue t) ([] @ [7]) \<and> (idequeue t = Some 7 \<longleftrightarrow> ([] :: nat list) = [])"
  by (rule ide_append_last) (simp_all add: io_demo_defs)

end
