(* ===== verification/Console.thy ===== *)
theory Console
  imports Ide
begin

text \<open>
  The serial port (\<open>uart.c\<close>) and the console (\<open>console.c\<close>): formatted output, the screen with its
  memory at physical address \<open>0xb8000\<close>, and the line-edited input buffer. The arguments of
  \<open>cprintf\<close> are a list, each a number or a string. The process listing on control-P
  (\<open>procdump\<close>) only prints and is left out, as are \<open>microdelay\<close> and the routing of interrupts.
\<close>

section \<open>State\<close>

definition INPUT_BUF :: uint where "INPUT_BUF = 128"
definition BACKSPACE :: int where "BACKSPACE = 0x100"
definition CRTPORT :: uint where "CRTPORT = 0x3d4"
definition COM1 :: uint where "COM1 = 0x3f8"

record con_state = io_state +
  cons_locking :: bool
  panicked :: bool
  in_buf :: "uchar list"
  in_r :: uint
  in_w :: uint
  in_e :: uint
  uart :: bool

section \<open>The serial port\<close>

fun uart_ready :: "nat \<Rightarrow> 'z io_state_scheme \<Rightarrow> 'z io_state_scheme" where
  "uart_ready 0 s = s"
| "uart_ready (Suc n) s = (let (r, s) = inb (COM1 + 5) s in if r AND 0x20 \<noteq> 0 then s else uart_ready n s)"

definition uartputc :: "int \<Rightarrow> 'z con_state_scheme \<Rightarrow> 'z con_state_scheme" where
  "uartputc c s = (if \<not> uart s then s else outb COM1 (of_int c) (uart_ready 128 s))"

definition uartinit :: "'z con_state_scheme \<Rightarrow> 'z con_state_scheme" where
  "uartinit s =
     (let s = outb (COM1 + 2) 0 s;
          s = outb (COM1 + 3) 0x80 s;
          s = outb COM1 (115200 div 9600) s;
          s = outb (COM1 + 1) 0 s;
          s = outb (COM1 + 3) 0x03 s;
          s = outb (COM1 + 4) 0 s;
          s = outb (COM1 + 1) 0x01 s;
          (r, s) = inb (COM1 + 5) s in
      if r = 0xFF then s
      else
        let s = s\<lparr>uart := True\<rparr>;
            (_, s) = inb (COM1 + 2) s;
            (_, s) = inb COM1 s in
        fold (\<lambda>c. uartputc (uint c)) (chars ''xv6...'' @ [10]) s)"

definition uartgetc :: "'z con_state_scheme \<Rightarrow> int \<times> 'z con_state_scheme" where
  "uartgetc s =
     (if \<not> uart s then (-1, s)
      else
        let (r, s) = inb (COM1 + 5) s in
        if r AND 0x01 = 0 then (-1, s)
        else let (c, s) = inb COM1 s in (uint c, s))"

section \<open>The screen\<close>

definition CRT :: uint where "CRT = P2V 0xb8000"

definition crt_put :: "int \<Rightarrow> ushort \<Rightarrow> 'z kmem_state_scheme \<Rightarrow> 'z kmem_state_scheme" where
  "crt_put pos v s = s\<lparr>mem := put_bytes (mem s) (CRT + of_int (2 * pos)) (bytes16 v)\<rparr>"

text \<open>Where the cursor goes after a character, before scrolling.\<close>

definition cga_advance :: "int \<Rightarrow> int \<Rightarrow> int" where
  "cga_advance c pos =
     (if c = 10 then pos + (80 - pos mod 80)
      else if c = BACKSPACE then (if pos > 0 then pos - 1 else pos)
      else pos + 1)"

definition cga_scroll :: "int \<Rightarrow> 'z kmem_state_scheme \<Rightarrow> int \<times> 'z kmem_state_scheme" where
  "cga_scroll pos s =
     (if pos div 80 \<ge> 24 then
        let s = s\<lparr>mem := memmove (mem s) CRT (CRT + 160) (2 * 23 * 80)\<rparr>;
            pos = pos - 80 in
        (pos, s\<lparr>mem := memset (mem s) (CRT + of_int (2 * pos)) 0 (of_int (2 * (24 * 80 - pos)))\<rparr>)
      else (pos, s))"

definition cgaputc :: "int \<Rightarrow> 'z io_state_scheme \<Rightarrow> 'z io_state_scheme result" where
  "cgaputc c s =
     (let s = outb CRTPORT 14 s;
          (hi, s) = inb (CRTPORT + 1) s;
          s = outb CRTPORT 15 s;
          (lo, s) = inb (CRTPORT + 1) s;
          pos = uint (push_bit 8 (ucast hi) OR ucast lo :: uint);
          s = (if c \<noteq> 10 \<and> c \<noteq> BACKSPACE then crt_put pos (of_int c AND 0xff OR 0x0700) s else s);
          pos = cga_advance c pos in
      if pos < 0 \<or> 25 * 80 < pos then Inl (Panic ''pos under/overflow'')
      else
        let (pos, s) = cga_scroll pos s;
            s = outb CRTPORT 14 s;
            s = outb (CRTPORT + 1) (of_int (pos div 256)) s;
            s = outb CRTPORT 15 s;
            s = outb (CRTPORT + 1) (of_int pos) s in
        Inr (crt_put pos (0x20 OR 0x0700) s))"

definition consputc :: "int \<Rightarrow> 'z con_state_scheme \<Rightarrow> 'z con_state_scheme result" where
  "consputc c s =
     (if panicked s then Inl Spin
      else
        let s = (if c = BACKSPACE then uartputc 8 (uartputc 0x20 (uartputc 8 s)) else uartputc c s) in
        cgaputc c s)"

definition consputs :: "uchar list \<Rightarrow> 'z con_state_scheme \<Rightarrow> 'z con_state_scheme result" where
  "consputs bs s = for_each (\<lambda>c. consputc (uint c)) bs s"

section \<open>Formatted output\<close>

text \<open>The digits of a number, least significant first, as they are put into the buffer.\<close>

definition digit_char :: "uint \<Rightarrow> uchar" where
  "digit_char d = chars ''0123456789abcdef'' ! unat d"

function digits_of :: "uint \<Rightarrow> uint \<Rightarrow> uchar list" where
  "digits_of base x = digit_char (x mod base) # (if base \<le> 1 \<or> x div base = 0 then [] else digits_of base (x div base))"
  by pat_completeness auto
termination
proof (relation "measure (\<lambda>(base, x). unat x)", simp, goal_cases)
  case (1 base x)
  then have "1 < unat base" "0 < unat x"
    by (auto simp: word_less_nat_alt not_le unat_gt_0)
  then show ?case by (simp add: unat_div)
qed

declare digits_of.simps [simp del]

definition printint_chars :: "uint \<Rightarrow> uint \<Rightarrow> bool \<Rightarrow> uchar list" where
  "printint_chars xx base sg =
     (if sg \<and> sint xx < 0 then 45 # rev (digits_of base (- xx)) else rev (digits_of base xx))"

definition printint :: "uint \<Rightarrow> uint \<Rightarrow> bool \<Rightarrow> 'z con_state_scheme \<Rightarrow> 'z con_state_scheme result" where
  "printint xx base sg s = consputs (printint_chars xx base sg) s"

datatype fmtarg = NumArg uint | StrArg "uchar list option"

text \<open>
  What one conversion prints, and the arguments left. A missing argument, or one of the wrong
  kind, is read from whatever is on the stack: a fault here.
\<close>

definition format_one :: "uchar \<Rightarrow> fmtarg list \<Rightarrow> (uchar list \<times> fmtarg list) result" where
  "format_one c args =
     (if c = 100 then (case args of NumArg x # as \<Rightarrow> Inr (printint_chars x 10 True, as) | _ \<Rightarrow> Inl (Fault ''argp''))
      else if c = 120 \<or> c = 112 then (case args of NumArg x # as \<Rightarrow> Inr (printint_chars x 16 False, as) | _ \<Rightarrow> Inl (Fault ''argp''))
      else if c = 115 then
        (case args of
           StrArg (Some str) # as \<Rightarrow> Inr (str, as)
         | StrArg None # as \<Rightarrow> Inr (chars ''(null)'', as)
         | _ \<Rightarrow> Inl (Fault ''argp''))
      else if c = 37 then Inr ([37], args)
      else Inr ([37, c], args))"

fun cprintf_loop :: "uchar list \<Rightarrow> fmtarg list \<Rightarrow> 'z con_state_scheme \<Rightarrow> 'z con_state_scheme result" where
  "cprintf_loop [] args s = Inr s"
| "cprintf_loop (c # fmt) args s =
     (if c \<noteq> 37 then bnd (consputc (uint c) s) (\<lambda>s. cprintf_loop fmt args s)
      else case fmt of
        [] \<Rightarrow> Inr s
      | d # fmt \<Rightarrow>
          bnd (format_one d args) (\<lambda>(out, args).
          bnd (consputs out s) (\<lambda>s. cprintf_loop fmt args s)))"

definition cprintf :: "uchar list \<Rightarrow> fmtarg list \<Rightarrow> 'z con_state_scheme \<Rightarrow> 'z con_state_scheme result" where
  "cprintf fmt args s =
     (let locking = cons_locking s in
      bnd (if locking then acquire ConsLock s else Inr s) (\<lambda>s.
      bnd (cprintf_loop fmt args s) (\<lambda>s.
      if locking then release ConsLock s else Inr s)))"

section \<open>Input\<close>

definition ctrl :: "char \<Rightarrow> int" where
  "ctrl x = of_char x - 64"

text \<open>Output leaves the input buffer alone.\<close>

lemma uart_ready_input [simp]:
  "in_e (uart_ready n s) = in_e s" "in_w (uart_ready n s) = in_w s" "in_r (uart_ready n s) = in_r s"
  "in_buf (uart_ready n s) = in_buf s"
  by (induction n arbitrary: s) (simp_all add: inb_def Let_def)

lemma uartputc_input [simp]:
  "in_e (uartputc c s) = in_e s" "in_w (uartputc c s) = in_w s" "in_r (uartputc c s) = in_r s"
  "in_buf (uartputc c s) = in_buf s"
  by (simp_all add: uartputc_def outb_def)

lemma consputc_input:
  assumes "consputc c s = Inr t"
  shows "in_e t = in_e s" "in_w t = in_w s" "in_r t = in_r s" "in_buf t = in_buf s"
  using assms
  by (auto simp: consputc_def cgaputc_def cga_scroll_def crt_put_def inb_def outb_def Let_def split: if_splits)

lemma unat_minus_one_less: "x \<noteq> y \<Longrightarrow> unat (x - 1 - y) < unat (x - y :: uint)"
proof -
  assume "x \<noteq> y"
  then have "unat (x - y - 1) = unat (x - y) - 1" "0 < unat (x - y)"
    by (simp_all add: unat_minus_one unat_gt_0)
  moreover have "x - 1 - y = x - y - 1" by simp
  ultimately show ?thesis by (metis diff_less zero_less_one)
qed

function kill_line :: "'z con_state_scheme \<Rightarrow> 'z con_state_scheme result" where
  "kill_line s =
     (if in_e s \<noteq> in_w s \<and> in_buf s ! unat ((in_e s - 1) mod INPUT_BUF) \<noteq> 10 then
        bnd (consputc BACKSPACE (s\<lparr>in_e := in_e s - 1\<rparr>)) (\<lambda>s. kill_line s)
      else Inr s)"
  by pat_completeness auto
termination
  by (relation "measure (\<lambda>s. unat (in_e s - in_w s))") (auto simp: consputc_input unat_minus_one_less)

declare kill_line.simps [simp del]

definition erase_char :: "'z con_state_scheme \<Rightarrow> 'z con_state_scheme result" where
  "erase_char s =
     (if in_e s \<noteq> in_w s then consputc BACKSPACE (s\<lparr>in_e := in_e s - 1\<rparr>) else Inr s)"

definition input_char :: "int \<Rightarrow> 'z con_state_scheme \<Rightarrow> 'z con_state_scheme result" where
  "input_char c s =
     (if c \<noteq> 0 \<and> in_e s - in_r s < INPUT_BUF then
        let c = (if c = 13 then 10 else c);
            s = s\<lparr>in_buf := (in_buf s)[unat (in_e s mod INPUT_BUF) := of_int c], in_e := in_e s + 1\<rparr> in
        bnd (consputc c s) (\<lambda>s.
        if c = 10 \<or> c = ctrl CHR ''D'' \<or> in_e s = in_r s + INPUT_BUF then
          wakeup ChInput (s\<lparr>in_w := in_e s\<rparr>)
        else Inr s)
      else Inr s)"

definition console_char :: "int \<Rightarrow> 'z con_state_scheme \<Rightarrow> 'z con_state_scheme result" where
  "console_char c s =
     (if c = ctrl CHR ''P'' then Inr s
      else if c = ctrl CHR ''U'' then kill_line s
      else if c = ctrl CHR ''H'' \<or> c = 0x7f then erase_char s
      else input_char c s)"

text \<open>\<open>fuel\<close> bounds the number of characters that the device delivers before it runs dry.\<close>

fun consoleintr_loop ::
  "nat \<Rightarrow> ('z con_state_scheme \<Rightarrow> int \<times> 'z con_state_scheme) \<Rightarrow> 'z con_state_scheme \<Rightarrow> 'z con_state_scheme result"
where
  "consoleintr_loop fuel getc s =
     (let (c, s) = getc s in
      if c < 0 then Inr s
      else case fuel of 0 \<Rightarrow> Inl Spin
      | Suc n \<Rightarrow> bnd (console_char c s) (\<lambda>s. consoleintr_loop n getc s))"

declare consoleintr_loop.simps [simp del]

definition consoleintr ::
  "nat \<Rightarrow> ('z con_state_scheme \<Rightarrow> int \<times> 'z con_state_scheme) \<Rightarrow> 'z con_state_scheme \<Rightarrow> 'z con_state_scheme result"
where
  "consoleintr fuel getc s =
     bnd (acquire ConsLock s) (\<lambda>s.
     bnd (consoleintr_loop fuel getc s) (\<lambda>s.
     release ConsLock s))"

definition uartintr :: "nat \<Rightarrow> 'z con_state_scheme \<Rightarrow> 'z con_state_scheme result" where
  "uartintr fuel s = consoleintr fuel uartgetc s"

section \<open>The console as a file\<close>

text \<open>The result is \<open>False\<close> when the process has been killed; the lock is then released.\<close>

function input_await ::
  "('z con_state_scheme \<Rightarrow> 'z con_state_scheme) \<Rightarrow> 'z con_state_scheme \<Rightarrow> (bool \<times> 'z con_state_scheme) result"
where
  "input_await others s =
     (if in_r s = in_w s then
        bnd (curproc s) (\<lambda>(p, s).
        if p_killed (procs s p) then bnd (release ConsLock s) (\<lambda>s. Inr (False, s))
        else bnd (sleep others ChInput ConsLock s) (\<lambda>s. input_await others s))
      else Inr (True, s))"
  by pat_completeness auto
termination
  by (relation "measure (\<lambda>(others, s). switches s)") (auto dest!: sleep_switches curproc_switches)

declare input_await.simps [simp del]

text \<open>
  \<open>n\<close> bytes are still wanted, \<open>i\<close> have been stored. The result is the number still wanted at the
  end and the bytes, or nothing when the process has been killed.
\<close>

fun consoleread_loop ::
  "('z con_state_scheme \<Rightarrow> 'z con_state_scheme) \<Rightarrow> 'z con_state_scheme sink \<Rightarrow> nat \<Rightarrow> nat \<Rightarrow> 'z con_state_scheme
   \<Rightarrow> ((nat \<times> uchar list) option \<times> 'z con_state_scheme) result"
where
  "consoleread_loop others dst i 0 s = Inr (Some (0, []), s)"
| "consoleread_loop others dst i (Suc n) s =
     bnd (input_await others s) (\<lambda>(ok, s).
     if \<not> ok then Inr (None, s)
     else
       let c = in_buf s ! unat (in_r s mod INPUT_BUF); s = s\<lparr>in_r := in_r s + 1\<rparr> in
       if c = 4 then Inr (Some (Suc n, []), if 0 < i then s\<lparr>in_r := in_r s - 1\<rparr> else s)
       else
         bnd (dst i [c] s) (\<lambda>s.
         if c = 10 then Inr (Some (n, [c]), s)
         else
           bnd (consoleread_loop others dst (Suc i) n s) (\<lambda>(r, s).
           Inr (map_option (\<lambda>(k, bs). (k, c # bs)) r, s))))"

definition consoleread ::
  "'z con_state_scheme env \<Rightarrow> nat \<Rightarrow> 'z con_state_scheme sink \<Rightarrow> uint \<Rightarrow> 'z con_state_scheme
   \<Rightarrow> ((int \<times> uchar list) \<times> 'z con_state_scheme) result"
where
  "consoleread ev ip dst n s =
     bnd (iunlock ip s) (\<lambda>s.
     bnd (acquire ConsLock s) (\<lambda>s.
     bnd (consoleread_loop (e_others ev) dst 0 (nat (sint n)) s) (\<lambda>(r, s).
     case r of
       None \<Rightarrow> bnd (ilock ev ip s) (\<lambda>s. Inr ((-1, []), s))
     | Some (k, bs) \<Rightarrow>
         bnd (release ConsLock s) (\<lambda>s.
         bnd (ilock ev ip s) (\<lambda>s.
         Inr ((if sint n \<le> 0 then 0 else sint n - int k, bs), s))))))"

definition consolewrite ::
  "'z con_state_scheme env \<Rightarrow> nat \<Rightarrow> 'z con_state_scheme source \<Rightarrow> uint \<Rightarrow> 'z con_state_scheme
   \<Rightarrow> (int \<times> 'z con_state_scheme) result"
where
  "consolewrite ev ip src n s =
     bnd (iunlock ip s) (\<lambda>s.
     bnd (acquire ConsLock s) (\<lambda>s.
     bnd (for_each (\<lambda>i s. bnd (src i 1 s) (\<lambda>bs. consputc (uint (char_at bs)) s)) [0..<nat (sint n)] s) (\<lambda>s.
     bnd (release ConsLock s) (\<lambda>s.
     bnd (ilock ev ip s) (\<lambda>s.
     Inr (sint n, s))))))"

text \<open>\<open>consoleinit\<close> enters the two routines in the device table under major number 1.\<close>

definition consoleinit ::
  "'z con_state_scheme env \<Rightarrow> 'z con_state_scheme \<Rightarrow> 'z con_state_scheme env \<times> 'z con_state_scheme"
where
  "consoleinit ev s =
     (let s = initlock ConsLock ''console'' s in
      (ev\<lparr>e_devread := (e_devread ev)(1 := Some (consoleread ev)), e_devwrite := (e_devwrite ev)(1 := Some (consolewrite ev))\<rparr>,
       s\<lparr>cons_locking := True\<rparr>))"

section \<open>Properties\<close>

text \<open>The value of a decimal numeral.\<close>

definition decimal :: "uchar list \<Rightarrow> int" where
  "decimal cs = foldl (\<lambda>v c. 10 * v + (uint c - 48)) 0 cs"

lemma digit_char_decimal: "d < 10 \<Longrightarrow> uint (digit_char d) = 48 + uint d"
proof -
  assume "d < 10"
  then have "unat d < 10" by (simp add: word_less_nat_alt)
  then have "unat d \<in> {0, 1, 2, 3, 4, 5, 6, 7, 8, 9}" by auto
  then have "d \<in> {0, 1, 2, 3, 4, 5, 6, 7, 8, 9}" by (auto simp: word_unat_eq_iff)
  then show ?thesis by (auto simp: digit_char_def chars_def)
qed

lemma word_mod_10: "(x :: uint) mod 10 < 10"
  by (simp add: word_mod_less_divisor)

lemma digits_of_decimal:
  "decimal (rev (digits_of 10 x)) = uint x \<and> list_all (\<lambda>c. 48 \<le> uint c \<and> uint c \<le> 57) (digits_of 10 x)"
proof (induction "10 :: uint" x rule: digits_of.induct)
  case (1 x)
  have d: "uint (digit_char (x mod 10)) = 48 + uint x mod 10"
    using digit_char_decimal [OF word_mod_10, of x] by (simp add: uint_mod)
  show ?case
  proof (cases "x div 10 = 0")
    case True
    then have "uint x div 10 = 0" using uint_div [of x 10] by simp
    then have "uint x mod 10 = uint x" by (metis div_mult_mod_eq add_0 mult_zero_left)
    with True d show ?thesis by (subst (1 2) digits_of.simps) (simp add: decimal_def)
  next
    case False
    moreover have k: "\<not> (10 :: uint) \<le> 1" "uint x mod 10 \<le> 9"
      using pos_mod_bound [of 10 "uint x"] by (simp_all add: word_le_nat_alt)
    ultimately have "decimal (rev (digits_of 10 (x div 10))) = uint x div 10"
      "list_all (\<lambda>c. 48 \<le> uint c \<and> uint c \<le> 57) (digits_of 10 (x div 10))"
      using 1 by (simp_all add: uint_div)
    with False d k show ?thesis by (subst (1 2) digits_of.simps) (simp add: decimal_def)
  qed
qed

lemma length_digits_of:
  assumes "1 < base" "0 < n" "unat x < unat base ^ n"
  shows "length (digits_of base x) \<le> n"
  using assms(2,3)
proof (induction n arbitrary: x)
  case (Suc n)
  show ?case
  proof (cases "x div base = 0")
    case True
    then show ?thesis by (subst digits_of.simps) simp
  next
    case False
    then have "unat x div unat base \<noteq> 0" by (metis unat_div unat_eq_0)
    moreover have "unat x div unat base < unat base ^ n"
      using Suc.prems(2) by (simp add: less_mult_imp_div_less mult.commute)
    ultimately have "length (digits_of base (x div base)) \<le> n"
      using Suc.IH [of "x div base"] by (cases n) (simp_all add: unat_div)
    with False assms(1) show ?thesis by (subst digits_of.simps) simp
  qed
qed simp

lemma uint_negated: "sint (x :: uint) < 0 \<Longrightarrow> uint (- x) = - sint x"
proof -
  assume "sint x < 0"
  then have k: "sint x = uint x - 2 ^ 32" "uint x < 2 ^ 32" "0 < uint x"
    using uint_bounded [of x] by (auto simp: sint_cases split: if_splits)
  have "uint (- x) = (- uint x) mod 2 ^ 32"
    by (simp add: uint_word_ariths)
  also have "\<dots> = (2 ^ 32 - uint x) mod 2 ^ 32" by simp
  also have "\<dots> = 2 ^ 32 - uint x" using k by (intro mod_pos_pos_trivial) simp_all
  finally show ?thesis using k by simp
qed

text \<open>C31. \<open>printint\<close> prints numbers correctly and within its buffer. In base 10 with sign it prints a minus
  for a negative number and decimal digits whose value is the absolute value of the number, the
  smallest number included, whose negation overflows; at most 11 characters of the 16 of the
  buffer are used, and at most 8 in base 16.\<close>

theorem printint_decimal:
  "\<exists>ds. printint_chars x 10 True = (if sint x < 0 then [45] else []) @ ds
     \<and> decimal ds = \<bar>sint x\<bar> \<and> list_all (\<lambda>c. 48 \<le> uint c \<and> uint c \<le> 57) ds
     \<and> length (printint_chars x 10 True) \<le> 11 \<and> length (printint_chars x 16 False) \<le> 8"
proof -
  define y where "y = (if sint x < 0 then - x else x)"
  have len: "length (digits_of 10 v) \<le> 10" "length (digits_of 16 v) \<le> 8" for v
    using unat_uint_less [of v] by (auto intro!: length_digits_of)
  have "uint y = \<bar>sint x\<bar>"
    using uint_bounded [of x] by (auto simp: y_def uint_negated sint_cases split: if_splits)
  then show ?thesis
    using digits_of_decimal [of y] len(1) [of y] len(2) [of x]
    by (intro exI [of _ "rev (digits_of 10 y)"]) (auto simp: printint_chars_def y_def)
qed

section \<open>A machine with a console\<close>

definition con_demo :: con_state where
  "con_demo = io_state.extend (io_demo\<lparr>io_reply := \<lambda>_ _. 0\<rparr>)
     \<lparr>cons_locking = True, panicked = False, in_buf = replicate 128 0, in_r = 0, in_w = 0, in_e = 0, uart = False\<rparr>"

lemmas con_demo_defs = con_demo_def io_state.defs

section \<open>The input buffer\<close>

definition input_of :: "'z con_state_scheme \<Rightarrow> uchar list \<times> uint \<times> uint \<times> uint" where
  "input_of s = (in_buf s, in_r s, in_w s, in_e s)"

text \<open>The characters that can be read, and the order of the three indices around the ring.\<close>

definition in_items :: "'z con_state_scheme \<Rightarrow> uchar list" where
  "in_items s = map (\<lambda>k. in_buf s ! ((unat (in_r s) + k) mod 128)) [0..<unat (in_w s - in_r s)]"

definition con_ok :: "'z con_state_scheme \<Rightarrow> bool" where
  "con_ok s \<longleftrightarrow> length (in_buf s) = 128 \<and> in_w s - in_r s \<le> in_e s - in_r s \<and> in_e s - in_r s \<le> INPUT_BUF"

definition input_grows :: "'z con_state_scheme \<Rightarrow> 'z con_state_scheme \<Rightarrow> bool" where
  "input_grows s t \<longleftrightarrow> con_ok t \<and> in_r t = in_r s \<and> (\<exists>new. in_items t = in_items s @ new)"

lemma input_grows_refl: "con_ok s \<Longrightarrow> input_grows s s"
  by (simp add: input_grows_def)

lemma input_grows_trans: "input_grows s t \<Longrightarrow> input_grows t u \<Longrightarrow> input_grows s u"
  by (auto simp: input_grows_def)

lemma input_grows_cong: "input_of t = input_of s \<Longrightarrow> con_ok s \<Longrightarrow> input_grows s t"
  by (simp add: input_grows_def input_of_def con_ok_def in_items_def)

lemma acquire_input: "acquire l s = Inr t \<Longrightarrow> input_of t = input_of s"
  by (auto simp: acquire_def pushcli_def cli_def set_cpu_def bnd_eq_Inr Let_def set_lock_def input_of_def
      split: if_splits prod.splits)

lemma release_input: "release l s = Inr t \<Longrightarrow> input_of t = input_of s"
  by (auto simp: release_def popcli_def sti_def set_cpu_def bnd_eq_Inr Let_def set_lock_def input_of_def
      split: if_splits prod.splits)

lemma wakeup1_slot_input: "wakeup1_slot ch p s = Inr t \<Longrightarrow> input_of t = input_of s"
  by (auto simp: wakeup1_slot_def enqueue_or_panic_def pq_enqueue_def set_proc_def bnd_eq_Inr Let_def input_of_def
      split: if_splits)

lemma wakeup_input:
  assumes "wakeup ch s = Inr t"
  shows "input_of t = input_of s"
proof -
  from assms obtain u v where a: "acquire PtableLock s = Inr u" and w: "wakeup1 ch u = Inr v"
    and r: "release PtableLock v = Inr t"
    by (auto simp: wakeup_def bnd_eq_Inr)
  from w have "input_of v = input_of u"
    unfolding wakeup1_def
    by (rule for_each_inv [where P = "\<lambda>v. input_of v = input_of u"]) (auto dest: wakeup1_slot_input)
  then show ?thesis
    using acquire_input [OF a] release_input [OF r] by simp
qed

lemma unat_mod_128: "unat (x mod INPUT_BUF) = unat x mod 128"
  by (simp add: INPUT_BUF_def unat_mod)

lemma unat_add_mod_128: "unat (x + y :: uint) mod 128 = (unat x + unat y) mod 128"
  by (simp add: unat_word_ariths mod_mod_cancel)

lemma unedit_grows:
  assumes "con_ok s" "in_e s \<noteq> in_w s"
  shows "input_grows s (s\<lparr>in_e := in_e s - 1\<rparr>)"
proof -
  have "in_e s - in_r s \<noteq> in_w s - in_r s" using assms(2) by simp
  with assms(1) have "unat (in_w s - in_r s) < unat (in_e s - in_r s)"
    by (auto simp: con_ok_def word_le_nat_alt le_less word_unat_eq_iff)
  moreover have "unat (in_e s - 1 - in_r s) = unat (in_e s - in_r s) - 1"
  proof -
    have "in_e s - 1 - in_r s = (in_e s - in_r s) - 1" by simp
    then show ?thesis using calculation unat_minus_one [of "in_e s - in_r s"] by (metis not_less_zero unat_0)
  qed
  ultimately show ?thesis
    using assms(1) by (auto simp: input_grows_def con_ok_def in_items_def word_le_nat_alt)
qed

lemma kill_line_grows: "kill_line s = Inr t \<Longrightarrow> con_ok s \<Longrightarrow> input_grows s t"
proof (induction s rule: kill_line.induct)
  case (1 s)
  let ?u = "s\<lparr>in_e := in_e s - 1\<rparr>"
  show ?case
  proof (cases "in_e s \<noteq> in_w s \<and> in_buf s ! unat ((in_e s - 1) mod INPUT_BUF) \<noteq> 10")
    case True
    with 1(2) obtain v where v: "consputc BACKSPACE ?u = Inr v" "kill_line v = Inr t"
      by (subst (asm) kill_line.simps) (auto simp: bnd_eq_Inr)
    have g: "input_grows s ?u" using unedit_grows 1(3) True by blast
    moreover have "input_grows ?u v"
      using consputc_input [OF v(1)] g by (intro input_grows_cong) (simp_all add: input_of_def input_grows_def)
    ultimately have "input_grows s v" by (rule input_grows_trans)
    moreover from this 1(1) [OF True v(1)] v(2) have "input_grows v t" by (simp add: input_grows_def)
    ultimately show ?thesis by (rule input_grows_trans)
  next
    case False
    with 1(2) have "t = s" by (subst (asm) kill_line.simps) auto
    with 1(3) show ?thesis by (simp add: input_grows_refl)
  qed
qed

lemma erase_char_grows:
  assumes "erase_char s = Inr t" "con_ok s"
  shows "input_grows s t"
proof (cases "in_e s = in_w s")
  case True
  with assms show ?thesis by (simp add: erase_char_def input_grows_refl)
next
  case False
  then have g: "input_grows s (s\<lparr>in_e := in_e s - 1\<rparr>)" using unedit_grows assms(2) by blast
  have c: "consputc BACKSPACE (s\<lparr>in_e := in_e s - 1\<rparr>) = Inr t" using assms(1) False by (simp add: erase_char_def)
  have "input_grows (s\<lparr>in_e := in_e s - 1\<rparr>) t"
    using consputc_input [OF c] g by (intro input_grows_cong) (simp_all add: input_of_def input_grows_def)
  with g show ?thesis by (rule input_grows_trans)
qed

lemma store_grows:
  assumes "con_ok s" "in_e s - in_r s < INPUT_BUF"
  shows "input_grows s (s\<lparr>in_buf := (in_buf s)[unat (in_e s mod INPUT_BUF) := c], in_e := in_e s + 1\<rparr>)"
proof -
  let ?n = "unat (in_e s - in_r s)"
  have n: "?n < 128" "unat (in_w s - in_r s) \<le> ?n" "length (in_buf s) = 128"
    using assms by (simp_all add: con_ok_def word_less_nat_alt word_le_nat_alt INPUT_BUF_def)
  have n': "unat (in_e s + 1 - in_r s) = ?n + 1"
    using n(1) unat_plus_one [of "in_e s - in_r s"] by (simp add: algebra_simps)
  have e: "unat (in_e s mod INPUT_BUF) = (unat (in_r s) + ?n) mod 128"
    using unat_add_mod_128 [of "in_r s" "in_e s - in_r s"] by (simp add: unat_mod_128)
  have "(unat (in_r s) + ?n) mod 128 \<noteq> (unat (in_r s) + k) mod 128" if "k < ?n" for k
  proof
    assume "(unat (in_r s) + ?n) mod 128 = (unat (in_r s) + k) mod 128"
    then have "128 dvd ?n - k"
      using mod_eq_dvd_iff_nat [of "unat (in_r s) + k" "unat (in_r s) + ?n" 128] that by simp
    with that n(1) show False by (auto dest: dvd_imp_le)
  qed
  then have "in_items (s\<lparr>in_buf := (in_buf s)[unat (in_e s mod INPUT_BUF) := c], in_e := in_e s + 1\<rparr>) = in_items s"
    using n(2) by (auto simp: in_items_def e)
  then show ?thesis
    using n n' by (simp add: input_grows_def con_ok_def word_le_nat_alt INPUT_BUF_def)
qed

lemma commit_grows:
  assumes "con_ok s"
  shows "input_grows s (s\<lparr>in_w := in_e s\<rparr>)"
proof -
  have "unat (in_w s - in_r s) \<le> unat (in_e s - in_r s)"
    using assms by (simp add: con_ok_def word_le_nat_alt)
  then have "[0..<unat (in_e s - in_r s)] = [0..<unat (in_w s - in_r s)] @ [unat (in_w s - in_r s)..<unat (in_e s - in_r s)]"
    by (metis le_add_diff_inverse upt_add_eq_append zero_le)
  then show ?thesis
    using assms by (simp add: input_grows_def con_ok_def in_items_def)
qed

lemma input_char_grows:
  assumes "input_char c s = Inr t" "con_ok s"
  shows "input_grows s t"
proof (cases "c \<noteq> 0 \<and> in_e s - in_r s < INPUT_BUF")
  case False
  with assms show ?thesis by (auto simp: input_char_def input_grows_refl)
next
  case True
  let ?c = "if c = 13 then 10 else c"
  let ?u = "s\<lparr>in_buf := (in_buf s)[unat (in_e s mod INPUT_BUF) := of_int ?c], in_e := in_e s + 1\<rparr>"
  from True assms(1) obtain v where v: "consputc ?c ?u = Inr v" and w: "t = v \<or> wakeup ChInput (v\<lparr>in_w := in_e v\<rparr>) = Inr t"
    by (auto simp: input_char_def bnd_eq_Inr Let_def split: if_splits)
  have g: "input_grows s ?u" using store_grows assms(2) True by blast
  have "input_grows ?u v"
    using consputc_input [OF v] g by (intro input_grows_cong) (simp_all add: input_of_def input_grows_def)
  with g have gv: "input_grows s v" by (rule input_grows_trans)
  from w show ?thesis
  proof
    assume k: "wakeup ChInput (v\<lparr>in_w := in_e v\<rparr>) = Inr t"
    have gw: "input_grows v (v\<lparr>in_w := in_e v\<rparr>)" using gv commit_grows [of v] by (simp add: input_grows_def)
    then have "input_grows (v\<lparr>in_w := in_e v\<rparr>) t"
      using wakeup_input [OF k] by (intro input_grows_cong) (simp_all add: input_grows_def)
    with gv gw show ?thesis by (blast intro: input_grows_trans)
  qed (use gv in simp)
qed

lemma console_char_grows: "console_char c s = Inr t \<Longrightarrow> con_ok s \<Longrightarrow> input_grows s t"
  by (auto simp: console_char_def input_grows_refl kill_line_grows erase_char_grows input_char_grows split: if_splits)

lemma consoleintr_loop_grows:
  assumes "\<And>u. input_of (snd (getc u)) = input_of u"
  shows "consoleintr_loop fuel getc s = Inr t \<Longrightarrow> con_ok s \<Longrightarrow> input_grows s t"
proof (induction fuel arbitrary: s)
  case 0
  then show ?case
    using assms [of s] by (subst (asm) consoleintr_loop.simps) (auto simp: input_grows_cong split: prod.splits if_splits)
next
  case (Suc n)
  obtain c u where u: "getc s = (c, u)" by fastforce
  have g: "input_grows s u" using assms [of s] u Suc.prems(2) by (intro input_grows_cong) simp_all
  show ?case
  proof (cases "c < 0")
    case True
    with g u Suc.prems(1) show ?thesis by (subst (asm) consoleintr_loop.simps) simp
  next
    case False
    with u Suc.prems(1) obtain v where v: "console_char c u = Inr v" "consoleintr_loop n getc v = Inr t"
      by (subst (asm) consoleintr_loop.simps) (auto simp: bnd_eq_Inr)
    have gv: "input_grows u v" using console_char_grows [OF v(1)] g by (simp add: input_grows_def)
    moreover have "input_grows v t" using Suc.IH [OF v(2)] gv by (simp add: input_grows_def)
    ultimately show ?thesis using g by (blast intro: input_grows_trans)
  qed
qed

text \<open>C32. Typing never disturbs the lines that wait to be read. An interrupt of a device that delivers
  characters, edited or not, keeps the three indices of the input ring in order and at most 128
  apart, and only adds characters behind those that can be read already.\<close>

theorem consoleintr_appends:
  assumes "\<And>u. input_of (snd (getc u)) = input_of u" "con_ok s" "consoleintr fuel getc s = Inr t"
  shows "con_ok t \<and> in_r t = in_r s \<and> (\<exists>new. in_items t = in_items s @ new)"
proof -
  from assms(3) obtain u v where u: "acquire ConsLock s = Inr u" and v: "consoleintr_loop fuel getc u = Inr v"
    and t: "release ConsLock v = Inr t"
    by (auto simp: consoleintr_def bnd_eq_Inr)
  have g: "input_grows s u" using acquire_input [OF u] assms(2) by (rule input_grows_cong)
  have gv: "input_grows u v"
    using consoleintr_loop_grows [OF assms(1) v] g by (simp add: input_grows_def)
  have "input_grows v t" using release_input [OF t] gv by (intro input_grows_cong) (simp_all add: input_grows_def)
  with g gv have "input_grows s t" by (blast intro: input_grows_trans)
  then show ?thesis by (simp add: input_grows_def)
qed

lemma con_demo_ok: "cpu_ok 0 con_demo" "free_lock l con_demo" "con_ok con_demo" "in_items con_demo = []"
  by (simp_all add: cpu_ok_def this_cpu_def free_lock_def con_ok_def in_items_def con_demo_defs io_demo_defs shm_demo_defs
      file_demo_defs pipe_demo_defs fs_demo_defs log_demo_defs bio_demo_defs mux_demo_defs)

text \<open>A device that delivers one letter.\<close>

definition one_key :: "con_state \<Rightarrow> int \<times> con_state" where
  "one_key s = (if in_e s = 0 then (120, s) else (-1, s))"

lemma one_key_echo:
  assumes "\<not> panicked s" "\<not> uart s" "\<And>k q. io_reply s k q = 0"
  shows "\<exists>t. consputc 120 s = Inr t \<and> locks t = locks s \<and> cpus t = cpus s \<and> int_flag t = int_flag s
    \<and> lapicid t = lapicid s \<and> ncpu t = ncpu s \<and> in_e t = in_e s"
  using assms
  by (simp add: consputc_def uartputc_def cgaputc_def cga_scroll_def cga_advance_def crt_put_def inb_def outb_def
      BACKSPACE_def Let_def)

theorem consoleintr_appends_witness:
  "\<exists>t. consoleintr 1 one_key con_demo = Inr t \<and> con_ok t \<and> in_r t = in_r con_demo
     \<and> (\<exists>new. in_items t = in_items con_demo @ new)"
proof -
  let ?s = "locked_by 0 ConsLock con_demo"
  let ?u = "?s\<lparr>in_buf := (in_buf ?s)[0 := 120], in_e := 1\<rparr>"
  have f: "in_e ?s = 0" "in_r ?s = 0" "\<not> panicked ?u" "\<not> uart ?u" "\<And>k q. io_reply ?u k q = 0"
    by (simp_all add: locked_by_def con_demo_defs)
  obtain v where v: "consputc 120 ?u = Inr v" "locks v = locks ?s" "cpus v = cpus ?s" "int_flag v = int_flag ?s"
    "lapicid v = lapicid ?s" "ncpu v = ncpu ?s" "in_e v = 1"
    using one_key_echo [OF f(3-5)] by auto
  have r: "in_r v = 0" using consputc_input(3) [OF v(1)] f(2) by simp
  have "console_char 120 ?s = Inr v"
    using f(1,2) v(1,7) r by (simp add: console_char_def input_char_def ctrl_def INPUT_BUF_def Let_def)
  then have l: "consoleintr_loop 1 one_key ?s = Inr v"
    using f(1) v(7) by (simp add: consoleintr_loop.simps one_key_def)
  have "cpu_ok 0 v" "0 < depth 0 v" "holds_lock 0 ConsLock v"
    using cpu_ok_locked_by [OF con_demo_ok(1), of ConsLock] depth_locked_by [of 0 ConsLock con_demo]
      depth_nonneg [OF con_demo_ok(1)] holds_lock_locked_by [of 0 ConsLock ConsLock con_demo] v(2-6)
    by (simp_all add: cpu_ok_def this_cpu_def depth_def holds_lock_def)
  from release_held [OF this] l
  have run: "consoleintr 1 one_key con_demo = Inr (unlocked_by 0 ConsLock v)"
    by (simp add: consoleintr_def acquire_free [OF con_demo_ok(1,2)])
  have "input_of (snd (one_key u)) = input_of u" for u by (simp add: one_key_def)
  from consoleintr_appends [OF this con_demo_ok(3) run] run show ?thesis by blast
qed

text \<open>Taking the next character out of the buffer.\<close>

lemma in_items_next:
  assumes "in_items s = c # cs"
  shows "in_r s \<noteq> in_w s" "in_buf s ! unat (in_r s mod INPUT_BUF) = c" "in_items (s\<lparr>in_r := in_r s + 1\<rparr>) = cs"
proof -
  have n: "unat (in_w s - in_r s) = Suc (length cs)"
    using arg_cong [OF assms, of length] by (simp add: in_items_def)
  then show "in_r s \<noteq> in_w s" by auto
  then have n': "unat (in_w s - (in_r s + 1)) = length cs"
    using unat_minus_one [of "in_w s - in_r s"] n by (simp add: diff_diff_eq)
  have nth: "(c # cs) ! k = in_buf s ! ((unat (in_r s) + k) mod 128)" if "k < Suc (length cs)" for k
    using arg_cong [OF assms, of "\<lambda>xs. xs ! k"] that by (simp add: in_items_def n del: upt_Suc)
  show "in_buf s ! unat (in_r s mod INPUT_BUF) = c"
    using nth [of 0] by (simp add: unat_mod_128)
  have "(unat (in_r s + 1) + k) mod 128 = (unat (in_r s) + Suc k) mod 128" for k
    using mod_add_left_eq [of "unat (in_r s + 1)" 128 k] mod_add_left_eq [of "unat (in_r s) + 1" 128 k]
      unat_add_mod_128 [of "in_r s" 1] by simp
  then show "in_items (s\<lparr>in_r := in_r s + 1\<rparr>) = cs"
    using nth [of "Suc _"] by (intro nth_equalityI) (simp_all add: in_items_def n')
qed

lemma in_items_cong: "input_of t = input_of s \<Longrightarrow> in_items t = in_items s"
  by (simp add: input_of_def in_items_def)

text \<open>A read of the console returns one line, or as much of it as was asked for. When the buffer holds
  the characters \<open>bs\<close>, without control-D, which end with the first newline or are as many as the
  reader wants, the read takes exactly them, in order, without waiting, and leaves the rest.\<close>

theorem consoleread_line:
  assumes "\<And>i c u. \<exists>v. dst i [c] u = Inr v \<and> input_of v = input_of u"
    and "in_items s = bs @ rest" "4 \<notin> set bs" "10 \<notin> set (butlast bs)" "length bs = n \<or> length bs < n \<and> bs \<noteq> [] \<and> last bs = 10"
  shows "\<exists>t. consoleread_loop others dst i n s = Inr (Some (n - length bs, bs), t) \<and> in_items t = rest"
  using assms(2-)
proof (induction bs arbitrary: i n s)
  case Nil
  then show ?case by simp
next
  case (Cons c cs)
  then obtain m where m: "n = Suc m" by (cases n) auto
  let ?s = "s\<lparr>in_r := in_r s + 1\<rparr>"
  have k: "in_r s \<noteq> in_w s" "in_buf s ! unat (in_r s mod INPUT_BUF) = c" "in_items ?s = cs @ rest"
    using in_items_next [of s c "cs @ rest"] Cons.prems(1) by simp_all
  obtain v where v: "dst i [c] ?s = Inr v" "in_items v = cs @ rest"
    using assms(1) [of i c ?s] k(3) in_items_cong by metis
  have w: "input_await others s = Inr (True, s)" using k(1) by (simp add: input_await.simps)
  show ?case
  proof (cases "c = 10")
    case True
    then have "cs = []" using Cons.prems(3) by (cases cs) auto
    with True m v w k(2) show ?thesis by (simp add: Let_def)
  next
    case False
    have "\<exists>t. consoleread_loop others dst (Suc i) m v = Inr (Some (m - length cs, cs), t) \<and> in_items t = rest"
      using Cons.prems m False by (intro Cons.IH [OF v(2)]) (auto split: if_splits)
    with False Cons.prems(2) m v w k(2) show ?thesis by (auto simp: Let_def)
  qed
qed

definition typed_demo :: con_state where
  "typed_demo = con_demo\<lparr>in_buf := (replicate 128 0)[126 := 104, 127 := 105, 0 := 10, 1 := 120], in_r := 126, in_w := 130, in_e := 130\<rparr>"

theorem consoleread_line_witness:
  "\<exists>t. consoleread_loop id keep 0 100 typed_demo = Inr (Some (97, [104, 105, 10]), t) \<and> in_items t = [120]"
proof -
  have "[0..<4] = [0, 1, 2, 3 :: nat]" by (simp add: upt_rec)
  then have "in_items typed_demo = [104, 105, 10] @ [120]"
    by (simp add: in_items_def typed_demo_def)
  then show ?thesis
    using consoleread_line [of keep typed_demo "[104, 105, 10]" "[120]" 100 id 0] by (simp add: keep_def)
qed

end
