(* ===== verification/Kbd.thy ===== *)
theory Kbd
  imports Console
begin

text \<open>
  The keyboard (\<open>kbd.c\<close>, \<open>kbd.h\<close>): the tables that turn scan codes into characters and the
  routine that follows the modifier keys. Characters stand in the tables as their codes.
\<close>

section \<open>The tables\<close>

definition KBSTATP :: uint where "KBSTATP = 0x64"
definition KBS_DIB :: uchar where "KBS_DIB = 0x01"
definition KBDATAP :: uint where "KBDATAP = 0x60"

definition SHIFT :: uchar where "SHIFT = 1"
definition CTL :: uchar where "CTL = 2"
definition ALT :: uchar where "ALT = 4"
definition CAPSLOCK :: uchar where "CAPSLOCK = 8"
definition NUMLOCK :: uchar where "NUMLOCK = 16"
definition SCROLLLOCK :: uchar where "SCROLLLOCK = 32"
definition E0ESC :: uchar where "E0ESC = 64"

definition KEY_HOME :: uchar where "KEY_HOME = 0xE0"
definition KEY_END :: uchar where "KEY_END = 0xE1"
definition KEY_UP :: uchar where "KEY_UP = 0xE2"
definition KEY_DN :: uchar where "KEY_DN = 0xE3"
definition KEY_LF :: uchar where "KEY_LF = 0xE4"
definition KEY_RT :: uchar where "KEY_RT = 0xE5"
definition KEY_PGUP :: uchar where "KEY_PGUP = 0xE6"
definition KEY_PGDN :: uchar where "KEY_PGDN = 0xE7"
definition KEY_INS :: uchar where "KEY_INS = 0xE8"
definition KEY_DEL :: uchar where "KEY_DEL = 0xE9"

definition ctl :: "uchar \<Rightarrow> uchar" where "ctl c = c - 64"

text \<open>An array initialiser: the entries from index 0 on, then entries at designated indices.\<close>

definition key_table :: "uchar list \<Rightarrow> (nat \<times> uchar) list \<Rightarrow> nat \<Rightarrow> uchar" where
  "key_table xs ds i = (case map_of ds i of Some c \<Rightarrow> c | None \<Rightarrow> if i < length xs then xs ! i else 0)"

definition shiftcode :: "nat \<Rightarrow> uchar" where
  "shiftcode = key_table [] [(0x1D, CTL), (0x2A, SHIFT), (0x36, SHIFT), (0x38, ALT), (0x9D, CTL), (0xB8, ALT)]"

definition togglecode :: "nat \<Rightarrow> uchar" where
  "togglecode = key_table [] [(0x3A, CAPSLOCK), (0x45, NUMLOCK), (0x46, SCROLLLOCK)]"

definition normalmap :: "nat \<Rightarrow> uchar" where
  "normalmap =
     key_table [
      0, 27, 49, 50, 51, 52, 53, 54, 55, 56, 57, 48, 45, 61, 8, 9,
      113, 119, 101, 114, 116, 121, 117, 105, 111, 112, 91, 93, 10, 0, 97, 115,
      100, 102, 103, 104, 106, 107, 108, 59, 39, 96, 0, 92, 122, 120, 99, 118,
      98, 110, 109, 44, 46, 47, 0, 42, 0, 32, 0, 0, 0, 0, 0, 0,
      0, 0, 0, 0, 0, 0, 0, 55, 56, 57, 45, 52, 53, 54, 43, 49,
      50, 51, 48, 46, 0, 0, 0, 0]
     [
      (0x9C, 10), (0xB5, 47), (0xC8, KEY_UP), (0xD0, KEY_DN),
      (0xC9, KEY_PGUP), (0xD1, KEY_PGDN), (0xCB, KEY_LF), (0xCD, KEY_RT),
      (0x97, KEY_HOME), (0xCF, KEY_END), (0xD2, KEY_INS), (0xD3, KEY_DEL)]"

definition shiftmap :: "nat \<Rightarrow> uchar" where
  "shiftmap =
     key_table [
      0, 27, 33, 64, 35, 36, 37, 94, 38, 42, 40, 41, 95, 43, 8, 9,
      81, 87, 69, 82, 84, 89, 85, 73, 79, 80, 123, 125, 10, 0, 65, 83,
      68, 70, 71, 72, 74, 75, 76, 58, 34, 126, 0, 124, 90, 88, 67, 86,
      66, 78, 77, 60, 62, 63, 0, 42, 0, 32, 0, 0, 0, 0, 0, 0,
      0, 0, 0, 0, 0, 0, 0, 55, 56, 57, 45, 52, 53, 54, 43, 49,
      50, 51, 48, 46, 0, 0, 0, 0]
     [
      (0x9C, 10), (0xB5, 47), (0xC8, KEY_UP), (0xD0, KEY_DN),
      (0xC9, KEY_PGUP), (0xD1, KEY_PGDN), (0xCB, KEY_LF), (0xCD, KEY_RT),
      (0x97, KEY_HOME), (0xCF, KEY_END), (0xD2, KEY_INS), (0xD3, KEY_DEL)]"

definition ctlmap :: "nat \<Rightarrow> uchar" where
  "ctlmap =
     key_table [
      0, 0, 0, 0, 0, 0, 0, 0,
      0, 0, 0, 0, 0, 0, 0, 0,
      ctl 81, ctl 87, ctl 69, ctl 82, ctl 84, ctl 89, ctl 85, ctl 73,
      ctl 79, ctl 80, 0, 0, 13, 0, ctl 65, ctl 83,
      ctl 68, ctl 70, ctl 71, ctl 72, ctl 74, ctl 75, ctl 76, 0,
      0, 0, 0, ctl 92, ctl 90, ctl 88, ctl 67, ctl 86,
      ctl 66, ctl 78, ctl 77, 0, 0, ctl 47, 0, 0]
     [
      (0x9C, 13), (0xB5, ctl 47), (0xC8, KEY_UP), (0xD0, KEY_DN),
      (0xC9, KEY_PGUP), (0xD1, KEY_PGDN), (0xCB, KEY_LF), (0xCD, KEY_RT),
      (0x97, KEY_HOME), (0xCF, KEY_END), (0xD2, KEY_INS), (0xD3, KEY_DEL)]"

definition charcode :: "uchar \<Rightarrow> nat \<Rightarrow> uchar" where
  "charcode i = [normalmap, shiftmap, ctlmap, ctlmap] ! unat i"

section \<open>Reading the keyboard\<close>

text \<open>The static variable \<open>shift\<close> holds modifier bits below bit 7 only, so that a byte is enough.\<close>

record kbd_state = con_state +
  kbd_shift :: uchar

definition capslock_char :: "uchar \<Rightarrow> uchar" where
  "capslock_char c =
     (if 97 \<le> c \<and> c \<le> 122 then c + 65 - 97
      else if 65 \<le> c \<and> c \<le> 90 then c + 97 - 65
      else c)"

text \<open>What one byte from the keyboard does to the modifiers, and the character it gives.\<close>

definition kbd_byte :: "uchar \<Rightarrow> uchar \<Rightarrow> uchar \<times> uchar" where
  "kbd_byte shift data =
     (if data = 0xE0 then (shift OR E0ESC, 0)
      else if data AND 0x80 \<noteq> 0 then
        let data = (if shift AND E0ESC \<noteq> 0 then data else data AND 0x7F) in
        (shift AND NOT (shiftcode (unat data) OR E0ESC), 0)
      else
        let (shift, data) =
              (if shift AND E0ESC \<noteq> 0 then (shift AND NOT E0ESC, data OR 0x80) else (shift, data));
            shift = shift OR shiftcode (unat data);
            shift = shift XOR togglecode (unat data);
            c = charcode (shift AND (CTL OR SHIFT)) (unat data) in
        (shift, if shift AND CAPSLOCK \<noteq> 0 then capslock_char c else c))"

definition kbdgetc :: "'z kbd_state_scheme \<Rightarrow> int \<times> 'z kbd_state_scheme" where
  "kbdgetc s =
     (let (st, s) = inb KBSTATP s in
      if st AND KBS_DIB = 0 then (-1, s)
      else
        let (data, s) = inb KBDATAP s;
            (shift, c) = kbd_byte (kbd_shift s) data in
        (uint c, s\<lparr>kbd_shift := shift\<rparr>))"

definition kbdintr :: "nat \<Rightarrow> 'z kbd_state_scheme \<Rightarrow> 'z kbd_state_scheme result" where
  "kbdintr fuel s = consoleintr fuel kbdgetc s"

end
