(* ===== verification/Trap.thy ===== *)
theory Trap
  imports Kbd
begin

text \<open>
  Traps (\<open>trap.c\<close>) and the dispatch of system calls (\<open>syscall.c\<close>), where all the parts of the kernel
  meet. The trap frame is a value: for a system call it becomes the frame of the process, which
  holds the result afterwards. Parameters are the environment of the file system, the contents of
  uninitialised local variables and registers (\<open>junk\<close>), which some system calls use when an argument
  cannot be fetched or as their result, and the register \<open>cr2\<close>, which is only printed. The acknowledgement of interrupts
  (\<open>lapiceoi\<close>) is left out.
\<close>

section \<open>The interrupt descriptor table\<close>

definition T_SYSCALL :: nat where "T_SYSCALL = 64"
definition T_IRQ0 :: nat where "T_IRQ0 = 32"
definition IRQ_TIMER :: nat where "IRQ_TIMER = 0"
definition IRQ_KBD :: nat where "IRQ_KBD = 1"
definition IRQ_COM1 :: nat where "IRQ_COM1 = 4"
definition IRQ_IDE :: nat where "IRQ_IDE = 14"
definition IRQ_SPURIOUS :: nat where "IRQ_SPURIOUS = 31"

definition STS_IG32 :: uint where "STS_IG32 = 0xE"
definition STS_TG32 :: uint where "STS_TG32 = 0xF"

record gatedesc =
  off_15_0 :: uint
  gate_cs :: uint
  gate_args :: uint
  gate_rsv1 :: uint
  gate_type :: uint
  gate_s :: uint
  gate_dpl :: uint
  gate_p :: uint
  off_31_16 :: uint

record trap_state = kbd_state +
  idt :: "nat \<Rightarrow> gatedesc"

definition SETGATE :: "bool \<Rightarrow> uint \<Rightarrow> uint \<Rightarrow> uint \<Rightarrow> gatedesc" where
  "SETGATE istrap sel off d =
     \<lparr>off_15_0 = off AND 0xffff, gate_cs = sel AND 0xffff, gate_args = 0, gate_rsv1 = 0,
      gate_type = (if istrap then STS_TG32 else STS_IG32), gate_s = 0, gate_dpl = d AND 3, gate_p = 1,
      off_31_16 = drop_bit 16 off\<rparr>"

text \<open>\<open>vectors\<close> is the table of entry points that the build generates.\<close>

definition tvinit :: "(nat \<Rightarrow> uint) \<Rightarrow> 'z trap_state_scheme \<Rightarrow> 'z trap_state_scheme" where
  "tvinit vectors s =
     (let s = fold (\<lambda>i s. s\<lparr>idt := (idt s)(i := SETGATE False (push_bit 3 (of_nat SEG_KCODE)) (vectors i) 0)\<rparr>)
                [0..<256] s;
          s = s\<lparr>idt := (idt s)(T_SYSCALL := SETGATE True (push_bit 3 (of_nat SEG_KCODE)) (vectors T_SYSCALL) DPL_USER)\<rparr> in
      initlock TicksLock ''time'' s)"

section \<open>System calls\<close>

definition int_ret :: "('s \<Rightarrow> (int \<times> 's) result) \<Rightarrow> 's \<Rightarrow> (uint \<times> 's) result" where
  "int_ret f s = bnd (f s) (\<lambda>(r, s). Inr (of_int r, s))"

text \<open>A function without a result is called through a pointer to one with: the caller reads the register.\<close>

definition void_ret :: "uint \<Rightarrow> ('s \<Rightarrow> 's result) \<Rightarrow> 's \<Rightarrow> (uint \<times> 's) result" where
  "void_ret eax f s = bnd (f s) (\<lambda>s. Inr (eax, s))"

text \<open>The entries 1 to 32 of the table; entry 0 is null.\<close>

definition syscalls ::
  "'z trap_state_scheme env \<Rightarrow> (nat \<Rightarrow> uint) \<Rightarrow> ('z trap_state_scheme \<Rightarrow> (uint \<times> 'z trap_state_scheme) result) list"
where
  "syscalls ev junk =
     (let others = e_others ev in
      [int_ret sys_fork, int_ret (sys_exit ev), int_ret (sys_wait others), int_ret (sys_pipe ev),
       int_ret (sys_read ev), int_ret sys_kill, int_ret (sys_exec ev), int_ret (sys_fstat ev),
       int_ret (sys_chdir ev), int_ret sys_dup, int_ret sys_getpid, int_ret sys_sbrk,
       int_ret (sys_sleep others), sys_uptime, int_ret (sys_open ev), int_ret (sys_write ev),
       int_ret (sys_mknod ev), int_ret (sys_unlink ev), int_ret (sys_link ev), int_ret (sys_mkdir ev),
       int_ret (sys_close ev), int_ret (sys_mcreate (junk 0)), int_ret (sys_mdelete (sint (junk 0))),
       int_ret (sys_mlock others (sint (junk 0))), int_ret (sys_munlock (sint (junk 0))),
       int_ret (sys_waitcv others (sint (junk 0))), int_ret (sys_signalcv (sint (junk 0))),
       int_ret (sys_prio_set (sint (junk 0)) (sint (junk 1))), void_ret (junk 0) sys_testpqeq, void_ret (junk 0) sys_testpqdq,
       sys_shmget (junk 0), int_ret sys_shmrem])"

definition syscall ::
  "'z trap_state_scheme env \<Rightarrow> (nat \<Rightarrow> uint) \<Rightarrow> 'z trap_state_scheme \<Rightarrow> 'z trap_state_scheme result"
where
  "syscall ev junk s =
     bnd (curproc s) (\<lambda>(p, s).
     let num = sint (tf_eax (p_tf (procs s p))) in
     if 0 < num \<and> num < 33 then
       bnd ((syscalls ev junk ! nat (num - 1)) s) (\<lambda>(r, s).
       Inr (set_proc p ((procs s p)\<lparr>p_tf := (p_tf (procs s p))\<lparr>tf_eax := r\<rparr>\<rparr>) s))
     else
       bnd (cprintf (chars ''%d %s: unknown sys call %d'' @ [10])
              [NumArg (of_int (p_pid (procs s p))), StrArg (Some (takeWhile (\<lambda>c. c \<noteq> 0) (p_name (procs s p)))), NumArg (of_int num)] s) (\<lambda>s.
       Inr (set_proc p ((procs s p)\<lparr>p_tf := (p_tf (procs s p))\<lparr>tf_eax := -1\<rparr>\<rparr>) s)))"

section \<open>The trap handler\<close>

definition from_user_mode :: "trapframe \<Rightarrow> bool" where
  "from_user_mode tf = (ucast (tf_cs tf AND 3) = DPL_USER)"

definition exit_if_killed ::
  "'z trap_state_scheme env \<Rightarrow> 'z trap_state_scheme \<Rightarrow> 'z trap_state_scheme result"
where
  "exit_if_killed ev s =
     bnd (curproc s) (\<lambda>(p, s). if p_killed (procs s p) then exit ev s else Inr s)"

definition exit_to_user ::
  "'z trap_state_scheme env \<Rightarrow> trapframe \<Rightarrow> 'z trap_state_scheme \<Rightarrow> 'z trap_state_scheme result"
where
  "exit_to_user ev tf s =
     bnd (myproc s) (\<lambda>(mp, s).
     if mp = None then Inr s
     else bnd (curproc s) (\<lambda>(p, s).
          if p_killed (procs s p) \<and> from_user_mode tf then exit ev s else Inr s))"

definition timer_tick :: "'z trap_state_scheme \<Rightarrow> 'z trap_state_scheme result" where
  "timer_tick s =
     bnd (cpuid s) (\<lambda>c.
     if c = 0 then
       bnd (acquire TicksLock s) (\<lambda>s.
       bnd (wakeup ChTicks (s\<lparr>ticks := ticks s + 1\<rparr>)) (\<lambda>s.
       release TicksLock s))
     else Inr s)"

definition bad_trap :: "uint \<Rightarrow> trapframe \<Rightarrow> 'z trap_state_scheme \<Rightarrow> 'z trap_state_scheme result" where
  "bad_trap cr2 tf s =
     bnd (myproc s) (\<lambda>(mp, s).
     if mp = None \<or> tf_cs tf AND 3 = 0 then
       bnd (cpuid s) (\<lambda>c.
       bnd (cprintf (chars ''unexpected trap %d from cpu %d eip %x (cr2=0x%x)'' @ [10])
              [NumArg (tf_trapno tf), NumArg (of_nat c), NumArg (tf_eip tf), NumArg cr2] s) (\<lambda>s.
       Inl (Panic ''trap'')))
     else
       bnd (curproc s) (\<lambda>(p, s).
       bnd (cpuid s) (\<lambda>c.
       bnd (cprintf (chars ''pid %d %s: trap %d err %d on cpu %d eip 0x%x addr 0x%x--kill proc'' @ [10])
              [NumArg (of_int (p_pid (procs s p))), StrArg (Some (takeWhile (\<lambda>c. c \<noteq> 0) (p_name (procs s p)))), NumArg (tf_trapno tf),
               NumArg (tf_err tf), NumArg (of_nat c), NumArg (tf_eip tf), NumArg cr2] s) (\<lambda>s.
       bnd (curproc s) (\<lambda>(p, s).
       Inr (set_proc p ((procs s p)\<lparr>p_killed := True\<rparr>) s))))))"

text \<open>\<open>fuel\<close> bounds the characters that a device delivers in one interrupt.\<close>

definition trap_dispatch ::
  "nat \<Rightarrow> uint \<Rightarrow> trapframe \<Rightarrow> 'z trap_state_scheme \<Rightarrow> 'z trap_state_scheme result"
where
  "trap_dispatch fuel cr2 tf s =
     (let n = unat (tf_trapno tf) in
      if n = T_IRQ0 + IRQ_TIMER then timer_tick s
      else if n = T_IRQ0 + IRQ_IDE then ideintr s
      else if n = T_IRQ0 + IRQ_IDE + 1 then Inr s
      else if n = T_IRQ0 + IRQ_KBD then kbdintr fuel s
      else if n = T_IRQ0 + IRQ_COM1 then uartintr fuel s
      else if n = T_IRQ0 + 7 \<or> n = T_IRQ0 + IRQ_SPURIOUS then
        bnd (cpuid s) (\<lambda>c.
        cprintf (chars ''cpu%d: spurious interrupt at %x:%x'' @ [10])
          [NumArg (of_nat c), NumArg (ucast (tf_cs tf)), NumArg (tf_eip tf)] s)
      else bad_trap cr2 tf s)"

definition trap_yield ::
  "'z trap_state_scheme env \<Rightarrow> trapframe \<Rightarrow> 'z trap_state_scheme \<Rightarrow> 'z trap_state_scheme result"
where
  "trap_yield ev tf s =
     bnd (myproc s) (\<lambda>(mp, s).
     if mp = None then Inr s
     else bnd (curproc s) (\<lambda>(p, s).
          if p_state (procs s p) = RUNNING \<and> unat (tf_trapno tf) = T_IRQ0 + IRQ_TIMER then yield (e_others ev) s
          else Inr s))"

definition trap ::
  "nat \<Rightarrow> uint \<Rightarrow> (nat \<Rightarrow> uint) \<Rightarrow> 'z trap_state_scheme env \<Rightarrow> trapframe \<Rightarrow> 'z trap_state_scheme
   \<Rightarrow> 'z trap_state_scheme result"
where
  "trap fuel cr2 junk ev tf s =
     (if unat (tf_trapno tf) = T_SYSCALL then
        bnd (exit_if_killed ev s) (\<lambda>s.
        bnd (curproc s) (\<lambda>(p, s).
        bnd (syscall ev junk (set_proc p ((procs s p)\<lparr>p_tf := tf\<rparr>) s)) (\<lambda>s.
        exit_if_killed ev s)))
      else
        bnd (trap_dispatch fuel cr2 tf s) (\<lambda>s.
        bnd (exit_to_user ev tf s) (\<lambda>s.
        bnd (trap_yield ev tf s) (\<lambda>s.
        exit_to_user ev tf s))))"

section \<open>Properties\<close>

lemma mycpu_Inr: "mycpu s = Inr c \<longleftrightarrow> \<not> int_flag s \<and> this_cpu s = Some c"
  by (auto simp: mycpu_def this_cpu_def split: option.splits)

lemma cli_current:
  "pushcli s = Inr t \<Longrightarrow> this_cpu t = this_cpu s \<and> (\<forall>c. cproc (cpus t c) = cproc (cpus s c)) \<and> procs t = procs s"
  "popcli s = Inr t \<Longrightarrow> this_cpu t = this_cpu s \<and> (\<forall>c. cproc (cpus t c) = cproc (cpus s c)) \<and> procs t = procs s"
  by (auto simp: pushcli_def popcli_def bnd_eq_Inr Let_def split: if_splits) (auto simp: set_cpu_def cli_def sti_def)

lemma myproc_current:
  assumes "myproc s = Inr (mp, t)"
  shows "procs t = procs s" "\<exists>c. this_cpu t = Some c \<and> mp = cproc (cpus t c)"
proof -
  from assms obtain u c where "pushcli s = Inr u" "mycpu u = Inr c" "mp = cproc (cpus u c)" "popcli u = Inr t"
    by (auto simp: myproc_def bnd_eq_Inr Let_def)
  with cli_current(1) [of s u] cli_current(2) [of u t]
  show "procs t = procs s" "\<exists>c. this_cpu t = Some c \<and> mp = cproc (cpus t c)"
    by (auto simp: mycpu_Inr)
qed

lemma curproc_current:
  assumes "curproc s = Inr (p, t)" "this_cpu t = Some c" "cproc (cpus t c) = Some q"
  shows "q = p" "procs t = procs s"
  using assms myproc_current [of s "Some p" t] by (auto simp: curproc_def bnd_eq_Inr split: option.splits)

lemma exit_never_returns: "exit ev s \<noteq> Inr t"
  by (auto simp: exit_def bnd_eq_Inr Let_def split: if_splits)

lemma exit_if_killed_alive:
  assumes "exit_if_killed ev s = Inr t" "this_cpu t = Some c" "cproc (cpus t c) = Some p"
  shows "\<not> p_killed (procs t p)"
  using assms exit_never_returns
  by (auto simp: exit_if_killed_def bnd_eq_Inr split: if_splits dest: curproc_current)

lemma exit_to_user_alive:
  assumes "exit_to_user ev tf s = Inr t" "from_user_mode tf" "this_cpu t = Some c" "cproc (cpus t c) = Some p"
  shows "\<not> p_killed (procs t p)"
  using assms exit_never_returns
  by (auto simp: exit_to_user_def bnd_eq_Inr split: if_splits dest: curproc_current myproc_current(2))

text \<open>C6. A killed process never gets back to user mode. When the handler of a system call, or of any trap
  taken in user mode, returns, the process it returns to has not been killed, whatever the other
  processes and the devices did in the meantime.\<close>

theorem trap_killed_never_returns:
  assumes "trap fuel cr2 junk ev tf s = Inr t" "unat (tf_trapno tf) = T_SYSCALL \<or> from_user_mode tf"
    and "this_cpu t = Some c" "cproc (cpus t c) = Some p"
  shows "\<not> p_killed (procs t p)"
proof (cases "unat (tf_trapno tf) = T_SYSCALL")
  case True
  with assms(1) obtain u where "exit_if_killed ev u = Inr t" by (auto simp: trap_def bnd_eq_Inr)
  from exit_if_killed_alive [OF this assms(3,4)] show ?thesis .
next
  case False
  with assms(1) obtain u where "exit_to_user ev tf u = Inr t" by (auto simp: trap_def bnd_eq_Inr)
  from exit_to_user_alive [OF this _ assms(3,4)] False assms(2) show ?thesis by simp
qed

definition trap_demo :: trap_state where
  "trap_demo = kbd_state.extend (con_state.extend con_demo \<lparr>kbd_shift = 0\<rparr>) \<lparr>idt = (\<lambda>_. SETGATE False 0 0 0)\<rparr>"

lemmas trap_demo_defs = trap_demo_def kbd_state.defs con_state.defs

lemma trap_demo_ok: "cpu_ok 0 trap_demo" "cproc (cpus trap_demo c) = Some 0" "\<not> p_killed (procs trap_demo 0)"
  by (simp_all add: cpu_ok_def this_cpu_def trap_demo_defs con_demo_defs io_demo_defs shm_demo_defs file_demo_defs pipe_demo_defs
      fs_demo_defs log_demo_defs bio_demo_defs mux_demo_defs)

definition spurious_ide :: trapframe where
  "spurious_ide = zero_trapframe\<lparr>tf_trapno := 47, tf_cs := 27\<rparr>"

theorem trap_killed_never_returns_witness:
  "trap 0 0 (\<lambda>_. 0) (ide_env id) spurious_ide trap_demo = Inr trap_demo \<and> \<not> p_killed (procs trap_demo 0)"
proof -
  have u: "from_user_mode spurious_ide" "this_cpu trap_demo = Some 0"
    using trap_demo_ok(1) by (simp_all add: from_user_mode_def spurious_ide_def DPL_USER_def cpu_ok_def)
  have "trap 0 0 (\<lambda>_. 0) (ide_env id) spurious_ide trap_demo = Inr trap_demo"
    using trap_demo_ok(3)
    by (simp add: trap_def trap_dispatch_def exit_to_user_def trap_yield_def myproc_eq [OF trap_demo_ok(1)]
        curproc_eq [OF trap_demo_ok(1,2)] trap_demo_ok(2) spurious_ide_def T_SYSCALL_def T_IRQ0_def IRQ_TIMER_def
        IRQ_IDE_def)
  with trap_killed_never_returns [OF this _ u(2) trap_demo_ok(2)] u(1) show ?thesis by simp
qed

lemma fold_idt:
  "fold (\<lambda>i s. s\<lparr>idt := (idt s)(i := f i)\<rparr>) xs s = s\<lparr>idt := \<lambda>i. if i \<in> set xs then f i else idt s i\<rparr>"
  by (induction xs arbitrary: s) (auto intro!: arg_cong [where f = "\<lambda>g. _\<lparr>idt := g\<rparr>"])

lemma offset_halves: "push_bit 16 (drop_bit 16 x) OR (x AND 0xffff) = (x :: uint)"
proof -
  have "(0xffff :: uint) = mask 16" by (simp add: mask_eq_exp_minus_1)
  then have "x AND 0xffff = take_bit 16 x" by (simp add: take_bit_eq_mask)
  then show ?thesis
    by (intro bit_eqI) (auto simp: bit_or_iff bit_push_bit_iff bit_drop_bit_eq bit_take_bit_iff)
qed

text \<open>User programs can enter the kernel by a software interrupt through the system call gate alone: after
  \<open>tvinit\<close> every other gate has privilege level 0. Every gate leads to its entry point, and every
  one but the system call gate turns interrupts off.\<close>

theorem tvinit_gates:
  assumes "i < 256"
  shows "gate_dpl (idt (tvinit vectors s) i) = (if i = T_SYSCALL then DPL_USER else 0)
    \<and> gate_type (idt (tvinit vectors s) i) = (if i = T_SYSCALL then STS_TG32 else STS_IG32)
    \<and> push_bit 16 (off_31_16 (idt (tvinit vectors s) i)) OR off_15_0 (idt (tvinit vectors s) i) = vectors i
    \<and> gate_p (idt (tvinit vectors s) i) = 1"
  using assms
  by (simp add: tvinit_def fold_idt SETGATE_def offset_halves initlock_def set_lock_def DPL_USER_def)

theorem tvinit_gates_witness:
  "gate_dpl (idt (tvinit (\<lambda>i. 0x80100000 + 16 * of_nat i) trap_demo) 14) = 0
    \<and> gate_dpl (idt (tvinit (\<lambda>i. 0x80100000 + 16 * of_nat i) trap_demo) 64) = DPL_USER"
  using tvinit_gates [of 14 "\<lambda>i. 0x80100000 + 16 * of_nat i" trap_demo]
    tvinit_gates [of 64 "\<lambda>i. 0x80100000 + 16 * of_nat i" trap_demo]
  by (simp add: T_SYSCALL_def)

end
