(* ===== verification/Mp.thy ===== *)
theory Mp
  imports Trap
begin

text \<open>
  Start-up of the kernel (\<open>main.c\<close>): the search for the other processors (\<open>mp.c\<close>), the interrupt
  controllers (\<open>lapic.c\<close>, \<open>ioapic.c\<close>, \<open>picirq.c\<close>) and the sequence of initialisations. Registers of
  the controllers are mapped into memory; as with ports, each read is answered by the device, and
  what is written is recorded, latest first. Parameters are the images the build links in, the
  addresses of the linker, and what the other processors do while this one waits for them.
\<close>

section \<open>State\<close>

record mp_state = trap_state +
  lapic :: uint
  ioapicid :: uchar
  mm_reply :: "nat \<Rightarrow> uint \<Rightarrow> uint"
  mm_reads :: nat
  mm_written :: "(uint \<times> uint) list"
  cpu_started :: "nat \<Rightarrow> bool"
  idt_loaded :: bool

definition mm_read :: "uint \<Rightarrow> 'z mp_state_scheme \<Rightarrow> uint \<times> 'z mp_state_scheme" where
  "mm_read a s = (mm_reply s (mm_reads s) a, s\<lparr>mm_reads := mm_reads s + 1\<rparr>)"

definition mm_write :: "uint \<Rightarrow> uint \<Rightarrow> 'z mp_state_scheme \<Rightarrow> 'z mp_state_scheme" where
  "mm_write a v s = s\<lparr>mm_written := (a, v) # mm_written s\<rparr>"

section \<open>The configuration table (\<open>mp.c\<close>)\<close>

definition NCPU :: nat where "NCPU = 8"

definition sum8 :: "memory \<Rightarrow> uint \<Rightarrow> nat \<Rightarrow> uchar" where
  "sum8 m a n = of_int (foldl (\<lambda>acc k. acc + uint (m (a + of_nat k))) 0 [0..<n])"

text \<open>The bytes at an address are those of a string literal.\<close>

definition mem_is :: "memory \<Rightarrow> uint \<Rightarrow> uchar list \<Rightarrow> bool" where
  "mem_is m a bs \<longleftrightarrow> list_all (\<lambda>k. m (a + of_nat k) = bs ! k) [0..<length bs]"

definition read16 :: "memory \<Rightarrow> uint \<Rightarrow> uint" where
  "read16 m a = ucast (m a) OR push_bit 8 (ucast (m (a + 1)))"

function mpsearch1_loop :: "memory \<Rightarrow> uint \<Rightarrow> uint \<Rightarrow> uint result" where
  "mpsearch1_loop m p e =
     (if p < e then
        if mem_is m p (chars ''_MP_'') \<and> sum8 m p 16 = 0 then Inr p
        else if p + 16 \<le> p then Inl Spin
        else mpsearch1_loop m (p + 16) e
      else Inr 0)"
  by pat_completeness auto
termination
  by (relation "measure (\<lambda>(m, p, e). 2 ^ 32 - unat p)")
    (auto simp: word_le_nat_alt not_le intro!: diff_less_mono2 unat_uint_less [simplified])

declare mpsearch1_loop.simps [simp del]

definition mpsearch1 :: "uint \<Rightarrow> uint \<Rightarrow> memory \<Rightarrow> uint result" where
  "mpsearch1 a len m = (let addr = P2V a in mpsearch1_loop m addr (addr + len))"

definition mpsearch :: "memory \<Rightarrow> uint result" where
  "mpsearch m =
     (let bda = P2V 0x400;
          p = push_bit 4 (push_bit 8 (ucast (m (bda + 0x0F))) OR ucast (m (bda + 0x0E))) in
      bnd (if p \<noteq> 0 then mpsearch1 p 1024 m
           else let p = (push_bit 8 (ucast (m (bda + 0x14))) OR ucast (m (bda + 0x13))) * 1024 in
                mpsearch1 (p - 1024) 1024 m) (\<lambda>mp.
      if mp \<noteq> 0 then Inr mp else mpsearch1 0xF0000 0x10000 m))"

text \<open>The result is the pair of \<open>*pmp\<close> and the table, or \<open>None\<close> for the null pointer.\<close>

definition mpconfig :: "memory \<Rightarrow> (uint \<times> uint) option result" where
  "mpconfig m =
     bnd (mpsearch m) (\<lambda>mp.
     if mp = 0 \<or> read32 m (mp + 4) = 0 then Inr None
     else
       let conf = P2V (read32 m (mp + 4)) in
       if \<not> mem_is m conf (chars ''PCMP'') then Inr None
       else if m (conf + 6) \<noteq> 1 \<and> m (conf + 6) \<noteq> 4 then Inr None
       else if sum8 m conf (unat (read16 m (conf + 4))) \<noteq> 0 then Inr None
       else Inr (Some (mp, conf)))"

definition add_cpu :: "uchar \<Rightarrow> 'z machine_scheme \<Rightarrow> 'z machine_scheme" where
  "add_cpu i s =
     (if ncpu s < NCPU then
        let s = set_cpu (ncpu s) ((cpus s (ncpu s))\<lparr>apicid := unat i\<rparr>) s in s\<lparr>ncpu := ncpu s + 1\<rparr>
      else s)"

text \<open>
  The loop over the entries, with the variable \<open>ismp\<close>. In the branch \<open>default\<close> the \<open>break\<close> leaves the
  \<open>switch\<close> but not the loop, and \<open>p\<close> stays where it is. The loop need not end: the value
  \<open>None\<close> is that of a loop that does not.
\<close>

partial_function (option) mpinit_loop ::
  "uint \<Rightarrow> uint \<Rightarrow> bool \<Rightarrow> 'z mp_state_scheme \<Rightarrow> (bool \<times> 'z mp_state_scheme) option"
where
  "mpinit_loop p e ismp s =
     (if p < e then
        if mem s p = 0 then mpinit_loop (p + 20) e ismp (add_cpu (mem s (p + 1)) s)
        else if mem s p = 2 then mpinit_loop (p + 8) e ismp (s\<lparr>ioapicid := mem s (p + 1)\<rparr>)
        else if mem s p = 1 \<or> mem s p = 3 \<or> mem s p = 4 then mpinit_loop (p + 8) e ismp s
        else mpinit_loop p e False s
      else Some (ismp, s))"

definition mpinit :: "'z mp_state_scheme \<Rightarrow> 'z mp_state_scheme result" where
  "mpinit s =
     bnd (mpconfig (mem s)) (\<lambda>r.
     case r of
       None \<Rightarrow> Inl (Panic ''Expect to run on an SMP'')
     | Some (mp, conf) \<Rightarrow>
         let s = s\<lparr>lapic := read32 (mem s) (conf + 36)\<rparr> in
         case mpinit_loop (conf + 44) (conf + read16 (mem s) (conf + 4)) True s of
           None \<Rightarrow> Inl Spin
         | Some (ismp, s) \<Rightarrow>
             if \<not> ismp then Inl (Panic ''Didn't find a suitable machine'')
             else if mem s (mp + 12) \<noteq> 0 then
               let s = outb 0x22 0x70 s; (r, s) = inb 0x23 s in Inr (outb 0x23 (r OR 1) s)
             else Inr s)"

section \<open>The local interrupt controller (\<open>lapic.c\<close>)\<close>

definition LAPIC_ID :: uint where "LAPIC_ID = 0x20 div 4"
definition LAPIC_VER :: uint where "LAPIC_VER = 0x30 div 4"
definition TPR :: uint where "TPR = 0x80 div 4"
definition EOI :: uint where "EOI = 0xB0 div 4"
definition SVR :: uint where "SVR = 0xF0 div 4"
definition ESR :: uint where "ESR = 0x280 div 4"
definition ICRLO :: uint where "ICRLO = 0x300 div 4"
definition ICRHI :: uint where "ICRHI = 0x310 div 4"
definition LAPIC_TIMER :: uint where "LAPIC_TIMER = 0x320 div 4"
definition PCINT :: uint where "PCINT = 0x340 div 4"
definition LINT0 :: uint where "LINT0 = 0x350 div 4"
definition LINT1 :: uint where "LINT1 = 0x360 div 4"
definition LAPIC_ERROR :: uint where "LAPIC_ERROR = 0x370 div 4"
definition TICR :: uint where "TICR = 0x380 div 4"
definition TDCR :: uint where "TDCR = 0x3E0 div 4"
definition LAPIC_ENABLE :: uint where "LAPIC_ENABLE = 0x100"
definition LAPIC_INIT :: uint where "LAPIC_INIT = 0x500"
definition STARTUP :: uint where "STARTUP = 0x600"
definition DELIVS :: uint where "DELIVS = 0x1000"
definition LAPIC_ASSERT :: uint where "LAPIC_ASSERT = 0x4000"
definition LEVEL :: uint where "LEVEL = 0x8000"
definition BCAST :: uint where "BCAST = 0x80000"
definition X1 :: uint where "X1 = 0xB"
definition PERIODIC :: uint where "PERIODIC = 0x20000"
definition MASKED :: uint where "MASKED = 0x10000"
definition IRQ_ERROR :: nat where "IRQ_ERROR = 19"

definition lapic_read :: "uint \<Rightarrow> 'z mp_state_scheme \<Rightarrow> uint \<times> 'z mp_state_scheme" where
  "lapic_read i s = mm_read (entry_at (lapic s) i) s"

definition lapicw :: "uint \<Rightarrow> uint \<Rightarrow> 'z mp_state_scheme \<Rightarrow> 'z mp_state_scheme" where
  "lapicw i v s = snd (lapic_read LAPIC_ID (mm_write (entry_at (lapic s) i) v s))"

partial_function (option) lapic_wait :: "'z mp_state_scheme \<Rightarrow> 'z mp_state_scheme option" where
  "lapic_wait s =
     (if fst (lapic_read ICRLO s) AND DELIVS \<noteq> 0 then lapic_wait (snd (lapic_read ICRLO s))
      else Some (snd (lapic_read ICRLO s)))"

definition lapicinit :: "'z mp_state_scheme \<Rightarrow> 'z mp_state_scheme result" where
  "lapicinit s =
     (if lapic s = 0 then Inr s
      else
        let s = lapicw SVR (LAPIC_ENABLE OR of_nat (T_IRQ0 + IRQ_SPURIOUS)) s;
            s = lapicw TDCR X1 s;
            s = lapicw LAPIC_TIMER (PERIODIC OR of_nat (T_IRQ0 + IRQ_TIMER)) s;
            s = lapicw TICR 10000000 s;
            s = lapicw LINT0 MASKED s;
            s = lapicw LINT1 MASKED s;
            (v, s) = lapic_read LAPIC_VER s;
            s = (if 4 \<le> drop_bit 16 v AND 0xFF then lapicw PCINT MASKED s else s);
            s = lapicw LAPIC_ERROR (of_nat (T_IRQ0 + IRQ_ERROR)) s;
            s = lapicw ESR 0 s;
            s = lapicw ESR 0 s;
            s = lapicw EOI 0 s;
            s = lapicw ICRHI 0 s;
            s = lapicw ICRLO (BCAST OR LAPIC_INIT OR LEVEL) s in
        case lapic_wait s of
          None \<Rightarrow> Inl Spin
        | Some s \<Rightarrow> Inr (lapicw TPR 0 s))"

text \<open>The routine \<open>lapicid\<close>; the field of this name is the number it reads.\<close>

definition lapicid_read :: "'z mp_state_scheme \<Rightarrow> uint \<times> 'z mp_state_scheme" where
  "lapicid_read s =
     (if lapic s = 0 then (0, s) else let (v, s) = lapic_read LAPIC_ID s in (drop_bit 24 v, s))"

definition lapiceoi :: "'z mp_state_scheme \<Rightarrow> 'z mp_state_scheme" where
  "lapiceoi s = (if lapic s \<noteq> 0 then lapicw EOI 0 s else s)"

definition microdelay :: "int \<Rightarrow> 'z mp_state_scheme \<Rightarrow> 'z mp_state_scheme" where
  "microdelay us s = s"

definition CMOS_PORT :: uint where "CMOS_PORT = 0x70"
definition CMOS_RETURN :: uint where "CMOS_RETURN = 0x71"

definition write16 :: "memory \<Rightarrow> uint \<Rightarrow> uint \<Rightarrow> memory" where
  "write16 m a v = m(a := ucast v, a + 1 := ucast (drop_bit 8 v))"

definition lapicstartap :: "uchar \<Rightarrow> uint \<Rightarrow> 'z mp_state_scheme \<Rightarrow> 'z mp_state_scheme" where
  "lapicstartap i addr s =
     (let s = outb CMOS_PORT 0xF s;
          s = outb (CMOS_PORT + 1) 0x0A s;
          wrv = P2V (push_bit 4 0x40 OR 0x67);
          s = s\<lparr>mem := write16 (mem s) wrv 0\<rparr>;
          s = s\<lparr>mem := write16 (mem s) (wrv + 2) (drop_bit 4 addr)\<rparr>;
          s = lapicw ICRHI (push_bit 24 (ucast i)) s;
          s = lapicw ICRLO (LAPIC_INIT OR LEVEL OR LAPIC_ASSERT) s;
          s = microdelay 200 s;
          s = lapicw ICRLO (LAPIC_INIT OR LEVEL) s;
          s = microdelay 100 s in
      fold (\<lambda>_ s. microdelay 200 (lapicw ICRLO (STARTUP OR drop_bit 12 addr) (lapicw ICRHI (push_bit 24 (ucast i)) s)))
        [0..<2 :: nat] s)"

section \<open>The clock (\<open>lapic.c\<close>, \<open>date.h\<close>)\<close>

definition CMOS_STATA :: uchar where "CMOS_STATA = 0x0A"
definition CMOS_STATB :: uchar where "CMOS_STATB = 0x0B"
definition CMOS_UIP :: uint where "CMOS_UIP = 0x80"

record rtcdate =
  rt_second :: uint
  rt_minute :: uint
  rt_hour :: uint
  rt_day :: uint
  rt_month :: uint
  rt_year :: uint

definition cmos_read :: "uchar \<Rightarrow> 'z io_state_scheme \<Rightarrow> uint \<times> 'z io_state_scheme" where
  "cmos_read r s = (let s = outb CMOS_PORT r s; (v, s) = inb CMOS_RETURN s in (ucast v, s))"

definition fill_rtcdate :: "'z io_state_scheme \<Rightarrow> rtcdate \<times> 'z io_state_scheme" where
  "fill_rtcdate s =
     (let (sec, s) = cmos_read 0x00 s;
          (mn, s) = cmos_read 0x02 s;
          (hr, s) = cmos_read 0x04 s;
          (dy, s) = cmos_read 0x07 s;
          (mo, s) = cmos_read 0x08 s;
          (yr, s) = cmos_read 0x09 s in
      (\<lparr>rt_second = sec, rt_minute = mn, rt_hour = hr, rt_day = dy, rt_month = mo, rt_year = yr\<rparr>, s))"

partial_function (option) cmostime_loop :: "'z io_state_scheme \<Rightarrow> (rtcdate \<times> 'z io_state_scheme) option" where
  "cmostime_loop s =
     (let (t1, s) = fill_rtcdate s; (a, s) = cmos_read CMOS_STATA s in
      if a AND CMOS_UIP \<noteq> 0 then cmostime_loop s
      else
        let (t2, s) = fill_rtcdate s in
        if t1 = t2 then Some (t1, s) else cmostime_loop s)"

definition CONV :: "uint \<Rightarrow> uint" where
  "CONV x = drop_bit 4 x * 10 + (x AND 0xf)"

definition cmostime :: "'z io_state_scheme \<Rightarrow> (rtcdate \<times> 'z io_state_scheme) result" where
  "cmostime s =
     (let (sb, s) = cmos_read CMOS_STATB s;
          bcd = (sb AND 4 = 0) in
      case cmostime_loop s of
        None \<Rightarrow> Inl Spin
      | Some (t, s) \<Rightarrow>
          let t = (if bcd then \<lparr>rt_second = CONV (rt_second t), rt_minute = CONV (rt_minute t), rt_hour = CONV (rt_hour t),
                                rt_day = CONV (rt_day t), rt_month = CONV (rt_month t), rt_year = CONV (rt_year t)\<rparr> else t) in
          Inr (t\<lparr>rt_year := rt_year t + 2000\<rparr>, s))"

section \<open>The other interrupt controllers (\<open>ioapic.c\<close>, \<open>picirq.c\<close>)\<close>

definition IOAPIC :: uint where "IOAPIC = 0xFEC00000"
definition REG_ID :: uint where "REG_ID = 0"
definition REG_VER :: uint where "REG_VER = 1"
definition REG_TABLE :: uint where "REG_TABLE = 0x10"
definition INT_DISABLED :: uint where "INT_DISABLED = 0x10000"

definition ioapicread :: "uint \<Rightarrow> 'z mp_state_scheme \<Rightarrow> uint \<times> 'z mp_state_scheme" where
  "ioapicread r s = mm_read (IOAPIC + 16) (mm_write IOAPIC r s)"

definition ioapicwrite :: "uint \<Rightarrow> uint \<Rightarrow> 'z mp_state_scheme \<Rightarrow> 'z mp_state_scheme" where
  "ioapicwrite r v s = mm_write (IOAPIC + 16) v (mm_write IOAPIC r s)"

definition ioapicinit :: "'z mp_state_scheme \<Rightarrow> 'z mp_state_scheme result" where
  "ioapicinit s =
     (let (v, s) = ioapicread REG_VER s;
          maxintr = unat (drop_bit 16 v AND 0xFF);
          (r, s) = ioapicread REG_ID s in
      bnd (if drop_bit 24 r \<noteq> ucast (ioapicid s)
           then cprintf (chars ''ioapicinit: id isn'' @ [39] @ chars ''t equal to ioapicid; not a MP'' @ [10]) [] s else Inr s) (\<lambda>s.
      Inr (fold (\<lambda>i s. ioapicwrite (REG_TABLE + 2 * of_nat i + 1) 0
                   (ioapicwrite (REG_TABLE + 2 * of_nat i) (INT_DISABLED OR of_nat (T_IRQ0 + i)) s)) [0..<maxintr + 1] s)))"

definition ioapicenable :: "nat \<Rightarrow> uint \<Rightarrow> 'z mp_state_scheme \<Rightarrow> 'z mp_state_scheme" where
  "ioapicenable irq cpunum s =
     ioapicwrite (REG_TABLE + 2 * of_nat irq + 1) (push_bit 24 cpunum)
       (ioapicwrite (REG_TABLE + 2 * of_nat irq) (of_nat (T_IRQ0 + irq)) s)"

definition picinit :: "'z mp_state_scheme \<Rightarrow> 'z mp_state_scheme" where
  "picinit s = outb (0xA0 + 1) 0xFF (outb (0x20 + 1) 0xFF s)"

section \<open>Start-up (\<open>main.c\<close>)\<close>

definition PTE_PS :: uint where "PTE_PS = 0x80"

definition entrypgdir :: "nat \<Rightarrow> uint" where
  "entrypgdir i = (if i = 0 \<or> i = unat (drop_bit 22 KERNBASE) then PTE_P OR PTE_W OR PTE_PS else 0)"

text \<open>
  \<open>aps c\<close> is what the other processors do from the start of processor \<open>c\<close> until its flag is set, or for
  ever. \<open>mpent\<close> and \<open>pgd\<close> are the addresses of \<open>mpenter\<close> and \<open>entrypgdir\<close>, \<open>img\<close> the linked-in \<open>entryother.S\<close>.
\<close>

definition start_cpu ::
  "(nat \<Rightarrow> 'z mp_state_scheme \<Rightarrow> 'z mp_state_scheme) \<Rightarrow> uint \<Rightarrow> uint \<Rightarrow> nat \<Rightarrow> 'z mp_state_scheme \<Rightarrow> 'z mp_state_scheme result"
where
  "start_cpu aps mpent pgd c s =
     bnd (mycpu s) (\<lambda>me.
     if c = me then Inr s
     else
       bnd (kalloc s) (\<lambda>(stack, s).
       let code = P2V 0x7000;
           s = s\<lparr>mem := write32 (mem s) (code - 4) (stack + KSTACKSIZE)\<rparr>;
           s = s\<lparr>mem := write32 (mem s) (code - 8) mpent\<rparr>;
           s = s\<lparr>mem := write32 (mem s) (code - 12) (V2P pgd)\<rparr>;
           s = lapicstartap (of_nat (apicid (cpus s c))) (V2P code) s;
           s = aps c s in
       if cpu_started s c then Inr s else Inl Spin))"

definition startothers ::
  "(nat \<Rightarrow> 'z mp_state_scheme \<Rightarrow> 'z mp_state_scheme) \<Rightarrow> uchar list \<Rightarrow> uint \<Rightarrow> uint \<Rightarrow> 'z mp_state_scheme \<Rightarrow> 'z mp_state_scheme result"
where
  "startothers aps img mpent pgd s =
     (let s = s\<lparr>mem := put_bytes (mem s) (P2V 0x7000) img\<rparr> in
      for_each (start_cpu aps mpent pgd) [0..<ncpu s] s)"

definition idtinit :: "'z mp_state_scheme \<Rightarrow> 'z mp_state_scheme" where
  "idtinit s = s\<lparr>idt_loaded := True\<rparr>"

text \<open>\<open>mpmain\<close> up to the call of \<open>scheduler\<close>, which does not return.\<close>

definition mpmain :: "'z mp_state_scheme \<Rightarrow> 'z mp_state_scheme result" where
  "mpmain s =
     bnd (cpuid s) (\<lambda>c.
     bnd (cprintf (chars ''cpu%d: starting %d'' @ [10]) [NumArg (of_nat c), NumArg (of_nat c)] s) (\<lambda>s.
     let s = idtinit s in
     bnd (mycpu s) (\<lambda>c. Inr (s\<lparr>cpu_started := (cpu_started s)(c := True)\<rparr>))))"

definition mpenter :: "'z mp_state_scheme \<Rightarrow> 'z mp_state_scheme result" where
  "mpenter s = (let s = switchkvm s in bnd (seginit s) (\<lambda>s. bnd (lapicinit s) (\<lambda>s. mpmain s)))"

text \<open>
  The routing of interrupts that \<open>consoleinit\<close>, \<open>uartinit\<close> and \<open>ideinit\<close> ask for is put beside their calls;
  \<open>uartinit\<close> asks for it only when there is a serial port.
\<close>

definition main ::
  "'z mp_state_scheme env \<Rightarrow> (nat \<Rightarrow> uint) \<Rightarrow> uchar list \<Rightarrow> (nat \<Rightarrow> 'z mp_state_scheme \<Rightarrow> 'z mp_state_scheme) \<Rightarrow>
   uchar list \<Rightarrow> uint \<Rightarrow> uint \<Rightarrow> 'z mp_state_scheme \<Rightarrow> 'z mp_state_scheme result"
where
  "main ev vectors initcode aps img mpent pgd s =
     bnd (kinit1 (kend s) (P2V (4 * 1024 * 1024)) s) (\<lambda>s.
     bnd (kvmalloc s) (\<lambda>s.
     bnd (mpinit s) (\<lambda>s.
     bnd (lapicinit s) (\<lambda>s.
     bnd (seginit s) (\<lambda>s.
     let s = picinit s in
     bnd (ioapicinit s) (\<lambda>s.
     let (ev, s) = consoleinit ev s;
         s = ioapicenable IRQ_KBD 0 s;
         s = uartinit s;
         s = (if uart s then ioapicenable IRQ_COM1 0 s else s);
         s = pinit s;
         s = tvinit vectors s;
         s = binit s;
         s = fileinit s;
         s = ioapicenable IRQ_IDE (of_nat (ncpu s) - 1) s in
     bnd (ideinit s) (\<lambda>s.
     bnd (startothers aps img mpent pgd s) (\<lambda>s.
     bnd (kinit2 (P2V (4 * 1024 * 1024)) (P2V PHYSTOP) s) (\<lambda>s.
     bnd (userinit ev initcode s) (\<lambda>s.
     mpmain s))))))))))"

section \<open>The configuration table decoded\<close>

text \<open>The entries of a table and their bytes.\<close>

datatype mpentry = MpProc uchar "uchar list" | MpIoapic uchar "uchar list" | MpOther uchar "uchar list"

fun mpe_bytes :: "mpentry \<Rightarrow> uchar list" where
  "mpe_bytes (MpProc i r) = 0 # i # r"
| "mpe_bytes (MpIoapic i r) = 2 # i # r"
| "mpe_bytes (MpOther y r) = y # r"

fun mpe_ok :: "mpentry \<Rightarrow> bool" where
  "mpe_ok (MpProc i r) \<longleftrightarrow> length r = 18"
| "mpe_ok (MpIoapic i r) \<longleftrightarrow> length r = 6"
| "mpe_ok (MpOther y r) \<longleftrightarrow> length r = 7 \<and> y \<in> {1, 3, 4}"

fun mp_procs :: "mpentry list \<Rightarrow> nat list" where
  "mp_procs [] = []"
| "mp_procs (MpProc i r # es) = unat i # mp_procs es"
| "mp_procs (_ # es) = mp_procs es"

fun mp_ioapic :: "uchar \<Rightarrow> mpentry list \<Rightarrow> uchar" where
  "mp_ioapic d [] = d"
| "mp_ioapic d (MpIoapic i r # es) = mp_ioapic i es"
| "mp_ioapic d (_ # es) = mp_ioapic d es"

definition mp_table :: "mpentry list \<Rightarrow> uchar list" where
  "mp_table es = concat (map mpe_bytes es)"

definition mp_cpus :: "'z machine_scheme \<Rightarrow> nat list" where
  "mp_cpus s = map (\<lambda>i. apicid (cpus s i)) [0..<ncpu s]"

lemma mem_is_iff: "mem_is m a bs \<longleftrightarrow> (\<forall>k<length bs. m (a + of_nat k) = bs ! k)"
  by (auto simp: mem_is_def list_all_iff)

lemma mem_is_Nil [simp]: "mem_is m a []"
  by (simp add: mem_is_iff)

lemma mem_is_Cons: "mem_is m a (x # xs) \<longleftrightarrow> m a = x \<and> mem_is m (a + 1) xs"
  unfolding mem_is_iff list.size add_Suc_right add_0_right All_less_Suc2 by (simp add: ac_simps)

lemma mem_is_append: "mem_is m a (xs @ ys) \<longleftrightarrow> mem_is m a xs \<and> mem_is m (a + of_nat (length xs)) ys"
  by (induction xs arbitrary: a) (simp_all add: mem_is_Cons ac_simps)

lemma add_cpu_cpus:
  assumes "ncpu s \<le> NCPU"
  shows "mp_cpus (add_cpu i s) = take NCPU (mp_cpus s @ [unat i])" "ncpu (add_cpu i s) \<le> NCPU"
  using assms by (auto simp: add_cpu_def mp_cpus_def set_cpu_def Let_def)

lemma add_cpu_frame [simp]:
  "mem (add_cpu i s) = mem s" "ioapicid (add_cpu i u) = ioapicid u" "lapic (add_cpu i u) = lapic u"
  by (simp_all add: add_cpu_def set_cpu_def Let_def)

lemma take_add: "take n (take n (xs @ [x]) @ ys) = take n (xs @ x # ys)"
  by (cases "n \<le> length xs") (simp_all add: take_Cons')

lemma table_step:
  fixes p e :: uint
  assumes "unat p + (l + n) \<le> unat e" "0 < l"
  shows "p < e" "\<not> p + of_nat l \<le> p" "unat (p + of_nat l) + n \<le> unat e"
proof -
  have "unat p + l < 2 ^ 32" using assms(1) unat_uint_less [of e] by simp
  then have u: "unat (p + of_nat l) = unat p + l" by (simp add: unat_word_ariths unat_of_nat take_bit_eq_mod)
  show "p < e" "\<not> p + of_nat l \<le> p" unfolding word_less_nat_alt word_le_nat_alt using u assms by simp_all
  show "unat (p + of_nat l) + n \<le> unat e" using u assms(1) by simp
qed

lemma mpinit_loop_entries:
  fixes s :: "'z mp_state_scheme"
  assumes "list_all mpe_ok es" "mem_is (mem s) p (mp_table es)" "unat p + length (mp_table es) \<le> unat e" "ncpu s \<le> NCPU"
  shows "\<exists>t. mpinit_loop p e ismp s = mpinit_loop (p + of_nat (length (mp_table es))) e ismp t \<and> mp_cpus t = take NCPU (mp_cpus s @ mp_procs es)
    \<and> ioapicid t = mp_ioapic (ioapicid s) es \<and> mem t = mem s \<and> lapic t = lapic s"
  using assms
proof (induction es arbitrary: p s)
  case Nil
  then show ?case by (intro exI [of _ s]) (simp add: mp_table_def mp_cpus_def)
next
  case (Cons x es)
  define l where "l = length (mpe_bytes x)"
  define n where "n = length (mp_table es)"
  have len: "length (mp_table (x # es)) = l + n" by (simp add: mp_table_def l_def n_def)
  have l0: "0 < l" by (cases x) (simp_all add: l_def)
  note st = table_step [OF Cons.prems(3) [unfolded len] l0]
  have "mem_is (mem s) p (mpe_bytes x @ mp_table es)" using Cons.prems(2) by (simp add: mp_table_def)
  then have b: "mem_is (mem s) p (mpe_bytes x)" "mem_is (mem s) (p + of_nat l) (mp_table es)" by (simp_all add: mem_is_append l_def)
  have e: "p + of_nat (l + n) = (p + of_nat l) + of_nat n" by simp
  have IH: "\<exists>t. mpinit_loop (p + of_nat l) e ismp u = mpinit_loop (p + of_nat (l + n)) e ismp t \<and> mp_cpus t = take NCPU (mp_cpus u @ mp_procs es)
    \<and> ioapicid t = mp_ioapic (ioapicid u) es \<and> mem t = mem u \<and> lapic t = lapic u" if "mem u = mem s" "ncpu u \<le> NCPU" for u :: "'z mp_state_scheme"
    unfolding e unfolding n_def by (rule Cons.IH) (use Cons.prems(1) b(2) st(3) that in \<open>simp_all add: n_def\<close>)
  show ?case
  proof (cases x)
    case (MpProc i r)
    then have d: "l = 20" "mem s p = 0" "mem s (p + 1) = i" using Cons.prems(1) b(1) by (simp_all add: l_def mem_is_Cons)
    have "mpinit_loop p e ismp s = mpinit_loop (p + of_nat l) e ismp (add_cpu i s)"
      using st(1,2) d by (subst mpinit_loop.simps) (simp add: Let_def)
    moreover have "take NCPU (mp_cpus (add_cpu i s) @ mp_procs es) = take NCPU (mp_cpus s @ mp_procs (x # es))"
      unfolding add_cpu_cpus(1) [OF Cons.prems(4)] take_add by (simp add: MpProc)
    ultimately show ?thesis using IH [of "add_cpu i s"] add_cpu_cpus(2) [OF Cons.prems(4)] unfolding len by (simp add: MpProc)
  next
    case (MpIoapic i r)
    then have d: "l = 8" "mem s p = 2" "mem s (p + 1) = i" using Cons.prems(1) b(1) by (simp_all add: l_def mem_is_Cons)
    have "mpinit_loop p e ismp s = mpinit_loop (p + of_nat l) e ismp (s\<lparr>ioapicid := i\<rparr>)"
      using st(1,2) d by (subst mpinit_loop.simps) (simp add: Let_def)
    then show ?thesis using IH [of "s\<lparr>ioapicid := i\<rparr>"] Cons.prems(4) unfolding len by (simp add: MpIoapic mp_cpus_def)
  next
    case (MpOther y r)
    then have d: "l = 8" "mem s p = y" "y \<in> {1, 3, 4}" using Cons.prems(1) b(1) by (simp_all add: l_def mem_is_Cons)
    have "mpinit_loop p e ismp s = mpinit_loop (p + of_nat l) e ismp s"
      using st(1,2) d by (subst mpinit_loop.simps) (auto simp: Let_def)
    then show ?thesis using IH [of s] Cons.prems(4) unfolding len by (simp add: MpOther)
  qed
qed

text \<open>A memory with the structures of the firmware, the table at physical address \<open>0x11000\<close>.\<close>

definition mp_floating :: "uchar list" where
  "mp_floating = [95, 77, 80, 95, 0, 0x10, 0x01, 0, 1, 4, 143, 0, 0, 0, 0, 0]"

definition mp_header :: "uchar \<Rightarrow> uchar \<Rightarrow> uchar list" where
  "mp_header len chk = [80, 67, 77, 80, len, 0, 4, chk] @ replicate 28 0 @ [0, 0, 0xE0, 0xFE, 0, 0, 0, 0]"

definition mp_memory :: "uchar list \<Rightarrow> memory" where
  "mp_memory bs a =
     (if a = 0x8000040F then 0x10
      else if unat (a - 0x80010000) < 16 then mp_floating ! unat (a - 0x80010000)
      else if unat (a - 0x80011000) < length bs then bs ! unat (a - 0x80011000)
      else 0)"

definition mp_entries :: "mpentry list" where
  "mp_entries = [MpProc 0 (replicate 18 0), MpProc 3 (replicate 18 0), MpIoapic 2 (replicate 6 0)]"

lemma mp_memory_at:
  assumes "length bs \<le> 4096"
  shows "k < length bs \<Longrightarrow> mp_memory bs (0x80011000 + of_nat k) = bs ! k" "k < 16 \<Longrightarrow> mp_memory bs (0x80010000 + of_nat k) = mp_floating ! k"
proof -
  have u: "unat (of_nat j :: uint) = j" if "j < 10000" for j using that by (simp add: unat_of_nat)
  {
    assume k: "k < length bs"
    have "0x80011000 + of_nat k - 0x80010000 = (of_nat (4096 + k) :: uint)" by simp
    moreover have "0x80011000 + of_nat k \<noteq> (0x8000040F :: uint)"
    proof
      assume "0x80011000 + of_nat k = (0x8000040F :: uint)"
      then have "of_nat k = (0x8000040F - 0x80011000 :: uint)" by (metis add_diff_cancel_left')
      then have "unat (of_nat k :: uint) = 4294898703" by simp
      then show False using u [of k] k assms by simp
    qed
    ultimately show "mp_memory bs (0x80011000 + of_nat k) = bs ! k" using k assms u [of "4096 + k"] u [of k] by (simp add: mp_memory_def)
  }
  assume k: "k < 16"
  have "0x80010000 + of_nat k \<noteq> (0x8000040F :: uint)"
  proof
    assume "0x80010000 + of_nat k = (0x8000040F :: uint)"
    then have "of_nat k = (0x8000040F - 0x80010000 :: uint)" by (metis add_diff_cancel_left')
    then have "unat (of_nat k :: uint) = 4294902799" by simp
    then show False using u [of k] k by simp
  qed
  then show "mp_memory bs (0x80010000 + of_nat k) = mp_floating ! k" using k u [of k] by (simp add: mp_memory_def)
qed

lemma sum8_list:
  assumes "mem_is m a bs" shows "sum8 m a (length bs) = of_int (sum_list (map uint bs))"
proof -
  have f: "foldl (\<lambda>acc k. acc + f k) b ks = b + sum_list (map f ks)" for f :: "nat \<Rightarrow> int" and b ks
    by (induction ks arbitrary: b) simp_all
  have "map (\<lambda>k. uint (m (a + of_nat k))) [0..<length bs] = map uint bs"
    using assms by (intro nth_equalityI) (simp_all add: mem_is_iff)
  then show ?thesis by (simp add: sum8_def f)
qed

lemma mp_memory_config:
  assumes "bs = mp_header len chk @ tbl" "length bs = unat len" "of_int (sum_list (map uint bs)) = (0 :: uchar)"
  shows "mpconfig (mp_memory bs) = Inr (Some (0x80010000, 0x80011000))" "read16 (mp_memory bs) (0x80011000 + 4) = ucast len"
    "mem_is (mp_memory bs) (0x80011000 + 44) tbl"
proof -
  let ?m = "mp_memory bs"
  have n: "length bs \<le> 4096" using assms(2) unsigned_less [of len, where 'a = nat] by simp
  have l44: "44 \<le> length bs" "length (mp_header len chk) = 44" by (simp_all add: assms(1) mp_header_def)
  note at = mp_memory_at [OF n]
  have conf: "mem_is ?m 0x80011000 bs" by (simp add: mem_is_iff at(1))
  then show "mem_is ?m (0x80011000 + 44) tbl" using l44(2) unfolding assms(1) by (simp add: mem_is_append)
  have fl: "mem_is ?m 0x80010000 mp_floating" by (simp add: mem_is_iff at(2) mp_floating_def)
  have "mp_floating = chars ''_MP_'' @ drop 4 mp_floating" by (simp add: mp_floating_def chars_def)
  with fl have sig: "mem_is ?m 0x80010000 (chars ''_MP_'')" by (metis mem_is_append)
  have f: "length mp_floating = 16" "of_int (sum_list (map uint mp_floating)) = (0 :: uchar)" by (simp_all add: mp_floating_def)
  have s16: "sum8 ?m 0x80010000 16 = 0" using sum8_list [OF fl] unfolding f .
  have "bs = chars ''PCMP'' @ drop 4 bs" by (simp add: assms(1) mp_header_def chars_def)
  with conf have sig2: "mem_is ?m 0x80011000 (chars ''PCMP'')" by (metis mem_is_append)
  have b: "?m 0x80011004 = len" "?m 0x80011005 = 0" "?m 0x80011006 = 4"
    using at(1) [of 4] at(1) [of 5] at(1) [of 6] l44 by (simp_all add: assms(1) mp_header_def)
  show r: "read16 ?m (0x80011000 + 4) = ucast len" by (simp add: read16_def b)
  have p: "read32 ?m 0x80010004 = 0x11000"
    using at(2) [of 4] at(2) [of 5] at(2) [of 6] at(2) [of 7] by (simp add: read32_def mp_floating_def)
  have bda: "?m 0x8000040F = 0x10" "?m 0x8000040E = 0" using n by (simp_all add: mp_memory_def)
  have "mpsearch1 0x10000 1024 ?m = Inr 0x80010000"
    using sig s16 by (simp add: mpsearch1_def P2V_def KERNBASE_def Let_def) (subst mpsearch1_loop.simps, simp)
  then have "mpsearch ?m = Inr 0x80010000" by (simp add: mpsearch_def P2V_def KERNBASE_def Let_def bda)
  moreover have "sum8 ?m 0x80011000 (unat len) = 0" using sum8_list [OF conf] assms(2,3) by simp
  moreover have "unat (ucast len :: uint) = unat len" using n assms(2) by (simp add: unsigned_ucast_eq take_bit_eq_mod)
  ultimately show "mpconfig ?m = Inr (Some (0x80010000, 0x80011000))"
    using p sig2 b r by (simp add: mpconfig_def Let_def P2V_def KERNBASE_def)
qed

text \<open>C39. \<open>mpinit\<close> finds the processors the firmware lists: when the configuration table consists of entries of
  the known types, it returns with the local interrupt controller's address, with the identifiers of the
  first \<open>NCPU\<close> processors in the order of the table and with the I/O controller's number.\<close>
theorem mpinit_decodes:
  fixes s :: "'z mp_state_scheme"
  assumes "mpconfig (mem s) = Inr (Some (mp, conf))" "ncpu s = 0"
    and "list_all mpe_ok es" "mem_is (mem s) (conf + 44) (mp_table es)"
    and "conf + read16 (mem s) (conf + 4) = conf + 44 + of_nat (length (mp_table es))"
    and "unat (conf + 44) + length (mp_table es) < 2 ^ 32"
  shows "\<exists>t. mpinit s = Inr t \<and> mp_cpus t = take NCPU (mp_procs es) \<and> ioapicid t = mp_ioapic (ioapicid s) es
    \<and> lapic t = read32 (mem s) (conf + 36)"
proof -
  let ?s = "s\<lparr>lapic := read32 (mem s) (conf + 36)\<rparr>" and ?e = "conf + 44 + of_nat (length (mp_table es))"
  have e: "unat ?e = unat (conf + 44) + length (mp_table es)"
    using assms(6) unfolding unat_word_ariths(1) [of "conf + 44"] by (simp add: unat_of_nat take_bit_eq_mod)
  obtain t where t: "mpinit_loop (conf + 44) ?e True ?s = mpinit_loop ?e ?e True t" "mp_cpus t = take NCPU (mp_cpus ?s @ mp_procs es)"
    "ioapicid t = mp_ioapic (ioapicid ?s) es" "lapic t = lapic ?s"
    using mpinit_loop_entries [of es ?s "conf + 44" ?e True] assms(2,3,4) e by auto
  have d: "mpinit_loop ?e ?e True t = Some (True, t)" by (subst mpinit_loop.simps) simp
  have "mpinit s = (if mem t (mp + 12) \<noteq> 0 then
           let s = outb 0x22 0x70 t; (r, s) = inb 0x23 s in Inr (outb 0x23 (r OR 1) s)
         else Inr t)" using t(1) d by (simp add: mpinit_def assms(1,5))
  moreover have "mp_cpus (outb p v u) = mp_cpus u" "mp_cpus (u\<lparr>io_reads := k\<rparr>) = mp_cpus u"
    "ioapicid (outb p v u) = ioapicid u" "lapic (outb p v u) = lapic u" for p v k and u :: "'z mp_state_scheme"
    by (simp_all add: outb_def mp_cpus_def)
  moreover have "mp_cpus ?s = []" using assms(2) by (simp add: mp_cpus_def)
  ultimately show ?thesis using t(2-4) by (auto simp: Let_def inb_def)
qed

definition mp_demo :: "memory \<Rightarrow> mp_state" where
  "mp_demo m = trap_state.extend (trap_demo\<lparr>mem := m, ncpu := 0\<rparr>)
     \<lparr>lapic = 0, ioapicid = 0, mm_reply = (\<lambda>_ _. 0), mm_reads = 0, mm_written = [], cpu_started = (\<lambda>_. False), idt_loaded = False\<rparr>"

lemma mp_demo_fields: "mem (mp_demo m) = m" "ncpu (mp_demo m) = 0" "ioapicid (mp_demo m) = 0"
  by (simp_all add: mp_demo_def trap_state.defs)

theorem mpinit_decodes_witness:
  "\<exists>t. mpinit (mp_demo (mp_memory (mp_header 92 139 @ mp_table mp_entries))) = Inr t \<and> mp_cpus t = [0, 3] \<and> ioapicid t = 2"
proof -
  let ?b = "mp_header 92 139 @ mp_table mp_entries"
  have e: "mp_table mp_entries = 0 # 0 # replicate 18 0 @ 0 # 3 # replicate 18 0 @ 2 # 2 # replicate 6 0"
    by (simp add: mp_table_def mp_entries_def)
  have l: "length (mp_table mp_entries) = 48" unfolding e by simp
  have b: "length ?b = unat (92 :: uchar)" "of_int (sum_list (map uint ?b)) = (0 :: uchar)"
    unfolding e by (simp_all add: mp_header_def sum_list_replicate)
  note c = mp_memory_config [OF refl b]
  have ok: "list_all mpe_ok mp_entries" by (simp add: mp_entries_def)
  have r: "mp_procs mp_entries = [0, 3]" "mp_ioapic 0 mp_entries = 2" by (simp_all add: mp_entries_def)
  have "\<exists>t. mpinit (mp_demo (mp_memory ?b)) = Inr t \<and> mp_cpus t = take NCPU (mp_procs mp_entries)
    \<and> ioapicid t = mp_ioapic (ioapicid (mp_demo (mp_memory ?b))) mp_entries
    \<and> lapic t = read32 (mem (mp_demo (mp_memory ?b))) (0x80011000 + 36)"
    by (rule mpinit_decodes) (use c ok l in \<open>simp_all add: mp_demo_fields\<close>)
  then show ?thesis unfolding r by (auto simp: mp_demo_fields r NCPU_def)
qed

text \<open>A call of the loop that returns is not at an entry of an unknown type and leaves \<open>ismp\<close> as it was.\<close>

lemma mpinit_loop_returns:
  assumes "mpinit_loop p e ismp s = Some r"
  shows "(p < e \<longrightarrow> mem s p \<le> 4) \<and> fst r = ismp"
  using assms
proof (rule mpinit_loop.raw_induct [where P = "\<lambda>p e ismp s r. (p < e \<longrightarrow> mem s p \<le> 4) \<and> fst r = ismp", rotated])
  fix f :: "uint \<Rightarrow> uint \<Rightarrow> bool \<Rightarrow> 'a mp_state_scheme \<Rightarrow> (bool \<times> 'a mp_state_scheme) option" and p e ismp s r
  assume IH: "\<And>p e ismp s r. f p e ismp s = Some r \<Longrightarrow> (p < e \<longrightarrow> mem s p \<le> 4) \<and> fst r = ismp"
    and d: "(if p < e then
        if mem s p = 0 then f (p + 20) e ismp (add_cpu (mem s (p + 1)) s)
        else if mem s p = 2 then f (p + 8) e ismp (s\<lparr>ioapicid := mem s (p + 1)\<rparr>)
        else if mem s p = 1 \<or> mem s p = 3 \<or> mem s p = 4 then f (p + 8) e ismp s
        else f p e False s
      else Some (ismp, s)) = Some r"
  show "(p < e \<longrightarrow> mem s p \<le> 4) \<and> fst r = ismp"
  proof (cases "p < e \<and> mem s p \<notin> {0, 1, 2, 3, 4}")
    case True
    with d have "f p e False s = Some r" by simp
    with IH have "mem s p \<le> 4" using True by blast
    then have "unat (mem s p) \<in> {0, 1, 2, 3, 4}" by (auto simp: word_le_nat_alt)
    with True show ?thesis by (auto simp: word_unat_eq_iff)
  next
    case False
    with d show ?thesis by (auto split: if_splits dest!: IH)
  qed
qed

text \<open>C40. The panic for an unsuitable machine is never reached: no run of the loop returns with \<open>ismp\<close> cleared, and
  on a table with an entry of an unknown type \<open>mpinit\<close> stays at this entry for ever.\<close>
theorem mpinit_unknown_entry:
  assumes "mpconfig (mem s) = Inr (Some (mp, conf))" "ncpu s = 0"
    and "list_all mpe_ok es" "mem_is (mem s) (conf + 44) (mp_table es @ [y])" "4 < y"
    and "unat (conf + 44) + length (mp_table es) < unat (conf + read16 (mem s) (conf + 4))"
  shows "mpinit s = Inl Spin \<and> (\<forall>p e t u. mpinit_loop p e True t \<noteq> Some (False, u))"
proof
  let ?s = "s\<lparr>lapic := read32 (mem s) (conf + 36)\<rparr>" and ?e = "conf + read16 (mem s) (conf + 4)"
    and ?q = "conf + 44 + of_nat (length (mp_table es))"
  obtain t where t: "mpinit_loop (conf + 44) ?e True ?s = mpinit_loop ?q ?e True t" "mem t = mem s"
    using mpinit_loop_entries [of es ?s "conf + 44" ?e True] assms(2,3,4,6) by (auto simp: mem_is_append)
  have q: "unat ?q = unat (conf + 44) + length (mp_table es)"
    using assms(6) unat_uint_less [of ?e] unfolding unat_word_ariths(1) [of "conf + 44"] by (simp add: unat_of_nat take_bit_eq_mod)
  have "mem t ?q = y" using assms(4) t(2) by (simp add: mem_is_append mem_is_Cons)
  then have "mpinit_loop ?q ?e True t \<noteq> Some r" for r
    using mpinit_loop_returns [of ?q ?e True t r] q assms(5,6) by (auto simp: word_less_nat_alt word_le_nat_alt)
  then have "mpinit_loop ?q ?e True t = None" by (cases "mpinit_loop ?q ?e True t") auto
  then show "mpinit s = Inl Spin" using t(1) assms(1) by (simp add: mpinit_def Let_def)
  show "\<forall>p e t u. mpinit_loop p e True t \<noteq> Some (False, u)" using mpinit_loop_returns by fastforce
qed

theorem mpinit_unknown_entry_witness:
  "mpinit (mp_demo (mp_memory (mp_header 65 164 @ mp_table [MpProc 0 (replicate 18 0)] @ [9]))) = Inl Spin"
proof -
  let ?e = "[MpProc 0 (replicate 18 0)]"
  let ?b = "mp_header 65 164 @ mp_table ?e @ [9]"
  have e: "mp_table ?e = 0 # 0 # replicate 18 0" by (simp add: mp_table_def)
  have b: "length ?b = unat (65 :: uchar)" "of_int (sum_list (map uint ?b)) = (0 :: uchar)"
    unfolding e by (simp_all add: mp_header_def sum_list_replicate)
  note c = mp_memory_config [OF refl b]
  have l: "length (mp_table ?e) = 20" unfolding e by simp
  have ok: "list_all mpe_ok ?e" by simp
  show ?thesis
    by (rule mpinit_unknown_entry [where y = 9 and mp = "0x80010000" and conf = "0x80011000", OF _ _ ok, THEN conjunct1]) (use c l in \<open>simp_all add: mp_demo_fields\<close>)
qed

end
