(* ===== verification/Boot.thy ===== *)
theory Boot
  imports Mp
begin

text \<open>
  The boot loader (\<open>bootmain.c\<close>), which reads the kernel's ELF image from the disk by port I/O and
  copies its segments to physical memory. Paging is off; a physical address \<open>a\<close> is the byte \<open>P2V a\<close> of \<open>mem\<close>.
\<close>

definition SECTSIZE :: uint where "SECTSIZE = 512"

definition disk_ready :: "uchar \<Rightarrow> bool" where
  "disk_ready r \<longleftrightarrow> r AND 0xC0 = 0x40"

partial_function (option) waitdisk_loop :: "'z io_state_scheme \<Rightarrow> 'z io_state_scheme option" where
  "waitdisk_loop s =
     (if disk_ready (fst (inb 0x1F7 s)) then Some (snd (inb 0x1F7 s)) else waitdisk_loop (snd (inb 0x1F7 s)))"

definition waitdisk :: "'z io_state_scheme \<Rightarrow> 'z io_state_scheme result" where
  "waitdisk s = (case waitdisk_loop s of None \<Rightarrow> Inl Spin | Some s \<Rightarrow> Inr s)"

definition readsect :: "uint \<Rightarrow> uint \<Rightarrow> 'z io_state_scheme \<Rightarrow> 'z io_state_scheme result" where
  "readsect dst offset s =
     bnd (waitdisk s) (\<lambda>s.
     let s = outb 0x1F2 1 s;
         s = outb 0x1F3 (ucast offset) s;
         s = outb 0x1F4 (ucast (drop_bit 8 offset)) s;
         s = outb 0x1F5 (ucast (drop_bit 16 offset)) s;
         s = outb 0x1F6 (ucast (drop_bit 24 offset OR 0xE0)) s;
         s = outb 0x1F7 0x20 s in
     bnd (waitdisk s) (\<lambda>s.
     let (bs, s) = insl 0x1F0 (unat (SECTSIZE div 4)) s in
     Inr (s\<lparr>mem := put_bytes (mem s) (P2V dst) bs\<rparr>)))"

function readseg_loop :: "uint \<Rightarrow> uint \<Rightarrow> uint \<Rightarrow> 'z io_state_scheme \<Rightarrow> 'z io_state_scheme result" where
  "readseg_loop pa epa offset s =
     (if pa < epa then
        bnd (readsect pa offset s) (\<lambda>s.
        if pa + SECTSIZE \<le> pa then Inl Spin else readseg_loop (pa + SECTSIZE) epa (offset + 1) s)
      else Inr s)"
  by pat_completeness auto
termination
  by (relation "measure (\<lambda>(pa, epa, offset, s). 2 ^ 32 - unat pa)")
    (auto simp: word_le_nat_alt not_le intro!: diff_less_mono2 unat_uint_less [simplified])

declare readseg_loop.simps [simp del]

definition readseg :: "uint \<Rightarrow> uint \<Rightarrow> uint \<Rightarrow> 'z io_state_scheme \<Rightarrow> 'z io_state_scheme result" where
  "readseg pa cnt offset s =
     (let epa = pa + cnt;
          pa = pa - offset mod SECTSIZE;
          offset = offset div SECTSIZE + 1 in
      readseg_loop pa epa offset s)"

definition boot_segment :: "uint \<Rightarrow> nat \<Rightarrow> 'z io_state_scheme \<Rightarrow> 'z io_state_scheme result" where
  "boot_segment ph0 i s =
     (let ph = P2V (ph0 + 32 * of_nat i); pa = read32 (mem s) (ph + 12) in
      bnd (readseg pa (read32 (mem s) (ph + 16)) (read32 (mem s) (ph + 4)) s) (\<lambda>s.
      let filesz = read32 (mem s) (ph + 16); memsz = read32 (mem s) (ph + 20) in
      Inr (if filesz < memsz then s\<lparr>mem := stosb (mem s) (P2V (pa + filesz)) 0 (unat (memsz - filesz))\<rparr> else s)))"

text \<open>The result is the address jumped to, or \<open>None\<close> when the image is not an ELF file.\<close>

definition bootmain :: "'z io_state_scheme \<Rightarrow> (uint option \<times> 'z io_state_scheme) result" where
  "bootmain s =
     (let elf = 0x10000 in
      bnd (readseg elf 4096 0 s) (\<lambda>s.
      if read32 (mem s) (P2V elf) \<noteq> ELF_MAGIC then Inr (None, s)
      else
        let ph = elf + read32 (mem s) (P2V elf + 28) in
        bnd (for_each (boot_segment ph) [0..<unat (read16 (mem s) (P2V elf + 44))] s) (\<lambda>s.
        Inr (Some (read32 (mem s) (P2V elf + 24)), s))))"

end
