(* ===== verification/Debug.thy ===== *)
theory Debug
  imports Console
begin

text \<open>
  What the kernel records and prints for debugging: the call stack (\<open>getcallerpcs\<close> of \<open>spinlock.c\<close>) and the listing of the processes
  (\<open>procdump\<close> of \<open>proc.c\<close>). The saved frame pointers of sleeping processes are a parameter, since a saved context is
  kept without its registers.
\<close>

fun callerpcs :: "nat \<Rightarrow> memory \<Rightarrow> uint \<Rightarrow> uint list" where
  "callerpcs 0 m ebp = []"
| "callerpcs (Suc n) m ebp =
     (if ebp = 0 \<or> ebp < KERNBASE \<or> ebp = 0xffffffff then replicate (Suc n) 0
      else read32 m (ebp + 4) # callerpcs n m (read32 m ebp))"

definition getcallerpcs :: "memory \<Rightarrow> uint \<Rightarrow> uint list" where
  "getcallerpcs m v = callerpcs 10 m (v - 8)"

fun state_name :: "procstate \<Rightarrow> string" where
  "state_name UNUSED = ''unused''"
| "state_name EMBRYO = ''embryo''"
| "state_name SLEEPING = ''sleep ''"
| "state_name RUNNABLE = ''runble''"
| "state_name RUNNING = ''run   ''"
| "state_name ZOMBIE = ''zombie''"

definition procdump_one :: "(nat \<Rightarrow> uint) \<Rightarrow> nat \<Rightarrow> 'z con_state_scheme \<Rightarrow> 'z con_state_scheme result" where
  "procdump_one ebp p s =
     (let q = procs s p in
      if p_state q = UNUSED then Inr s
      else
        bnd (cprintf (chars ''%d %s %s'')
               [NumArg (of_int (p_pid q)), StrArg (Some (chars (state_name (p_state q)))), StrArg (Some (takeWhile (\<lambda>c. c \<noteq> 0) (p_name q)))] s) (\<lambda>s.
        bnd (if p_state q = SLEEPING
             then for_each (\<lambda>pc. cprintf (chars '' %p'') [NumArg pc]) (takeWhile (\<lambda>pc. pc \<noteq> 0) (getcallerpcs (mem s) (ebp p + 8))) s
             else Inr s) (\<lambda>s.
        cprintf [10] [] s)))"

definition procdump :: "(nat \<Rightarrow> uint) \<Rightarrow> 'z con_state_scheme \<Rightarrow> 'z con_state_scheme result" where
  "procdump ebp s = for_each (procdump_one ebp) [0..<NPROC] s"

text \<open>
  The recorded stack always fills the array, and it follows the saved frame pointers only within the kernel.
\<close>

lemma length_callerpcs: "length (callerpcs n m ebp) = n"
  by (induction n arbitrary: ebp) simp_all

lemma callerpcs_kernel:
  assumes "callerpcs n m ebp ! i \<noteq> 0" "i < n"
  shows "\<exists>f. KERNBASE \<le> f \<and> callerpcs n m ebp ! i = read32 m (f + 4)"
  using assms
proof (induction n arbitrary: ebp i)
  case (Suc n)
  have k: "KERNBASE \<le> ebp" "\<not> (ebp = 0 \<or> ebp < KERNBASE \<or> ebp = 0xffffffff)"
    using Suc.prems nth_replicate [of i "Suc n" "0 :: uint"] by (auto simp: not_less split: if_splits simp del: replicate_Suc)
  show ?case
  proof (cases i)
    case 0
    then show ?thesis using k by auto
  next
    case (Suc j)
    then show ?thesis using Suc.IH [of "read32 m ebp" j] Suc.prems k(2) by simp
  qed
qed simp

end
