(* ===== verification/Bcache.thy ===== *)
theory Bcache
  imports Log
begin

text \<open>
  What the buffer cache promises to the log and the file system. The linked list of buffers is a
  ring through all of them; a block of the disk is in at most one buffer; what is read is the
  latest contents of the block, in the cache if it is there and on the disk otherwise. The driver
  is the in-memory disk with a history of the disk's contents after every transfer, a ghost
  variable that the code does not see.
\<close>

section \<open>Sleep locks without waiting\<close>

text \<open>A thread runs, no lock is taken, and nobody waits for a sleep lock.\<close>

definition calm :: "nat \<Rightarrow> nat \<Rightarrow> 'z bio_state_scheme \<Rightarrow> bool" where
  "calm c p s \<longleftrightarrow> cpu_ok c s \<and> cproc (cpus s c) = Some p \<and> (\<forall>l. free_lock l s)
     \<and> (\<forall>q l. \<not> (p_state (procs s q) = SLEEPING \<and> p_chan (procs s q) = ChSleep l))"

lemma calm_cong:
  "cpus t = cpus s \<Longrightarrow> int_flag t = int_flag s \<Longrightarrow> lapicid t = lapicid s \<Longrightarrow> ncpu t = ncpu s \<Longrightarrow> locks t = locks s \<Longrightarrow>
   procs t = procs s \<Longrightarrow> calm c p t = calm c p s"
  by (simp add: calm_def cpu_ok_def this_cpu_def free_lock_def)

lemma calm_frames [simp]:
  "calm c p (set_buf b v s) = calm c p s" "calm c p (set_sleeplock l w s) = calm c p s"
  "calm c p (s\<lparr>bufs := B\<rparr>) = calm c p s" "calm c p (s\<lparr>sleeplocks := L\<rparr>) = calm c p s"
  "calm c p (s\<lparr>memdisk := d\<rparr>) = calm c p s"
  by (rule calm_cong; simp add: set_buf_def set_sleeplock_def)+

lemma bio_fields_lock [lock_simps]:
  "bufs (locked_by c l s) = bufs s" "sleeplocks (locked_by c l s) = sleeplocks s" "memdisk (locked_by c l s) = memdisk s"
  by (simp_all add: locked_by_def)

lemma set_buf_lock [lock_out]: "set_buf b v (locked_by c l s) = locked_by c l (set_buf b v s)"
  by (simp add: set_buf_def locked_by_def)

lemma set_sleeplock_lock [lock_out]: "set_sleeplock b v (locked_by c l s) = locked_by c l (set_sleeplock b v s)"
  by (simp add: set_sleeplock_def locked_by_def)

lemma calm_section:
  assumes "calm c p s"
  shows "acquire l s = Inr (locked_by c l s)" "release l (locked_by c l s) = Inr s" "curproc s = Inr (p, s)"
    "curproc (locked_by c l s) = Inr (p, locked_by c l s)"
proof -
  have c: "cpu_ok c s" "free_lock l s" "cproc (cpus s c) = Some p" using assms by (simp_all add: calm_def)
  show "acquire l s = Inr (locked_by c l s)" by (rule acquire_free [OF c(1,2)])
  show "release l (locked_by c l s) = Inr s" by (rule release_locked_by [OF c(1,2)])
  show "curproc s = Inr (p, s)" by (rule curproc_eq [OF c(1,3)])
  show "curproc (locked_by c l s) = Inr (p, locked_by c l s)"
    by (rule curproc_eq [OF cpu_ok_locked_by [OF c(1)]]) (use c(3) in \<open>simp add: locked_by_def\<close>)
qed

lemma holdingsleep_eq: "calm c p s \<Longrightarrow> holdingsleep l s = Inr (sl_locked (sleeplocks s l), s)"
  by (simp add: holdingsleep_def calm_section [where c = c and p = p] lock_simps)

definition sleep_held :: "sleepid \<Rightarrow> nat \<Rightarrow> 'z bio_state_scheme \<Rightarrow> 'z bio_state_scheme" where
  "sleep_held l p s = set_sleeplock l ((sleeplocks s l)\<lparr>sl_locked := True, sl_pid := p_pid (procs s p)\<rparr>) s"

definition sleep_freed :: "sleepid \<Rightarrow> 'z bio_state_scheme \<Rightarrow> 'z bio_state_scheme" where
  "sleep_freed l s = set_sleeplock l ((sleeplocks s l)\<lparr>sl_locked := False, sl_pid := 0\<rparr>) s"

lemma set_sleeplock_twice: "set_sleeplock l v (set_sleeplock l w s) = set_sleeplock l v s"
  by (simp add: set_sleeplock_def)

lemma acquiresleep_eq:
  assumes "calm c p s" "\<not> sl_locked (sleeplocks s l)"
  shows "acquiresleep others l s = Inr (sleep_held l p s)"
proof -
  have "curproc (set_sleeplock l v (locked_by c (SleepLk l) s)) = Inr (p, set_sleeplock l v (locked_by c (SleepLk l) s))" for v
    using calm_section(4) [of c p "set_sleeplock l v s"] assms(1) by (simp add: lock_out)
  moreover have "release (SleepLk l) (locked_by c (SleepLk l) (set_sleeplock l v s)) = Inr (set_sleeplock l v s)" for v
    using calm_section(2) [of c p "set_sleeplock l v s"] assms(1) by simp
  ultimately show ?thesis
    using assms(2)
    by (simp add: acquiresleep_def calm_section [OF assms(1)] acquiresleep_loop.simps lock_simps lock_out Let_def
        sleep_held_def set_sleeplock_twice)
      (simp add: set_sleeplock_def lock_simps)
qed

lemma wakeup_none:
  assumes "calm c p s" "k \<noteq> PtableLock"
  shows "wakeup (ChSleep l) (locked_by c k s) = Inr (locked_by c k s)"
proof -
  have "for_each (wakeup1_slot (ChSleep l)) [0..<NPROC] u = Inr u" if "procs u = procs s" for u :: "'a bio_state_scheme"
    using assms(1) that by (intro for_each_skip) (auto simp: wakeup1_slot_def calm_def)
  then have "wakeup1 (ChSleep l) (locked_by c PtableLock (locked_by c k s)) = Inr (locked_by c PtableLock (locked_by c k s))"
    by (simp add: wakeup1_def lock_simps)
  moreover have "cpu_ok c (locked_by c k s)" "free_lock PtableLock (locked_by c k s)"
    using assms by (simp_all add: calm_def lock_simps)
  ultimately show ?thesis
    by (simp add: wakeup_def acquire_free [where c = c] release_locked_by [where c = c])
qed

lemma releasesleep_eq:
  assumes "calm c p s"
  shows "releasesleep l s = Inr (sleep_freed l s)"
proof -
  have "wakeup (ChSleep l) (locked_by c (SleepLk l) (set_sleeplock l v s)) = Inr (locked_by c (SleepLk l) (set_sleeplock l v s))"
    "release (SleepLk l) (locked_by c (SleepLk l) (set_sleeplock l v s)) = Inr (set_sleeplock l v s)" for v
    using wakeup_none [of c p "set_sleeplock l v s" "SleepLk l"] calm_section(2) [of c p "set_sleeplock l v s"] assms
    by simp_all
  then show ?thesis
    by (simp add: releasesleep_def calm_section [OF assms] lock_simps lock_out Let_def sleep_freed_def set_sleeplock_twice)
      (simp add: set_sleeplock_def lock_simps)
qed

section \<open>The ring of buffers\<close>

lemma find_SomeD: "find P xs = Some x \<Longrightarrow> x \<in> set xs \<and> P x"
  by (induction xs) (auto split: if_splits)

text \<open>Following \<open>f\<close> from \<open>a\<close> leads through \<open>xs\<close> to \<open>z\<close>.\<close>

fun path :: "(nat \<Rightarrow> nat) \<Rightarrow> nat \<Rightarrow> nat list \<Rightarrow> nat \<Rightarrow> bool" where
  "path f a [] z \<longleftrightarrow> f a = z"
| "path f a (x # xs) z \<longleftrightarrow> f a = x \<and> path f x xs z"

lemma path_append: "path f a (xs @ y # ys) z \<longleftrightarrow> path f a xs y \<and> path f y ys z"
  by (induction xs arbitrary: a) simp_all

lemma path_cong: "path f a xs z \<Longrightarrow> f' a' = f a \<Longrightarrow> (\<And>x. x \<in> set xs \<Longrightarrow> f' x = f x) \<Longrightarrow> path f' a' xs z"
  by (induction xs arbitrary: a a') simp_all

lemma path_first: "path f a xs z \<Longrightarrow> f a = hd (xs @ [z])"
  by (cases xs) simp_all

lemma scan_bufs_path:
  "path f a xs NBUF \<Longrightarrow> NBUF \<notin> set xs \<Longrightarrow> length xs < n \<Longrightarrow> scan_bufs n f P (f a) = Inr (find P xs)"
proof (induction xs arbitrary: a n)
  case Nil
  then show ?case by (cases n) simp_all
next
  case (Cons x xs)
  then obtain m where "n = Suc m" by (cases n) auto
  with Cons show ?case by simp
qed

declare scan_bufs.simps [simp del]

definition ring :: "(nat \<Rightarrow> buf) \<Rightarrow> nat list \<Rightarrow> bool" where
  "ring B xs \<longleftrightarrow> path (\<lambda>b. b_next (B b)) NBUF xs NBUF \<and> path (\<lambda>b. b_prev (B b)) NBUF (rev xs) NBUF
     \<and> distinct xs \<and> set xs = {..<NBUF}"

lemma buf_ring_length: "ring B xs \<Longrightarrow> length xs = NBUF"
  unfolding ring_def by (metis card_lessThan distinct_card)

lemma ring_scan:
  assumes "ring B xs"
  shows "scan_bufs (Suc NBUF) (\<lambda>b. b_next (B b)) P (b_next (B NBUF)) = Inr (find P xs)"
    "scan_bufs (Suc NBUF) (\<lambda>b. b_prev (B b)) P (b_prev (B NBUF)) = Inr (find P (rev xs))"
  using assms buf_ring_length [OF assms] scan_bufs_path [of "\<lambda>b. b_next (B b)" NBUF xs "Suc NBUF" P]
    scan_bufs_path [of "\<lambda>b. b_prev (B b)" NBUF "rev xs" "Suc NBUF" P]
  by (auto simp: ring_def)

lemma ring_cong: "ring B xs \<Longrightarrow> (\<And>b. b_next (B' b) = b_next (B b)) \<Longrightarrow> (\<And>b. b_prev (B' b) = b_prev (B b)) \<Longrightarrow> ring B' xs"
  by (simp add: ring_def)

text \<open>The two links after a buffer was moved to the front, in terms of the links before.\<close>

definition front_next :: "(nat \<Rightarrow> nat) \<Rightarrow> (nat \<Rightarrow> nat) \<Rightarrow> nat \<Rightarrow> nat \<Rightarrow> nat" where
  "front_next N P b = (let N = N(P b := N b) in N(b := N NBUF, NBUF := b))"

definition front_prev :: "(nat \<Rightarrow> nat) \<Rightarrow> (nat \<Rightarrow> nat) \<Rightarrow> nat \<Rightarrow> nat \<Rightarrow> nat" where
  "front_prev N P b = (let f = (N(P b := N b)) NBUF in P(N b := P b, b := NBUF, f := b))"

lemma path_front_next:
  assumes "path N NBUF (ys @ b # zs) NBUF" "path P NBUF (rev zs @ b # rev ys) NBUF" "distinct (NBUF # ys @ b # zs)"
  shows "path (front_next N P b) NBUF (b # ys @ zs) NBUF"
proof -
  have N: "path N NBUF ys b" "path N b zs NBUF" using assms(1) by (simp_all add: path_append)
  have P: "P b = hd (rev ys @ [NBUF])" using assms(2) by (simp add: path_append path_first)
  show ?thesis
  proof (cases ys rule: rev_cases)
    case Nil
    with P have "path (front_next N P b) b zs NBUF"
      using assms(3) by (intro path_cong [OF N(2)]) (auto simp: front_next_def Let_def)
    with Nil show ?thesis by (simp add: front_next_def Let_def)
  next
    case (snoc us u)
    then have Nu: "path N NBUF us u" "P b = u" using N(1) P by (simp_all add: path_append)
    have "path (front_next N P b) b us u"
      using assms(3) Nu snoc by (intro path_cong [OF Nu(1)]) (auto simp: front_next_def Let_def)
    moreover have "path (front_next N P b) u zs NBUF"
      using assms(3) Nu snoc by (intro path_cong [OF N(2)]) (auto simp: front_next_def Let_def)
    ultimately show ?thesis using snoc by (simp add: path_append) (simp add: front_next_def Let_def)
  qed
qed

lemma path_front_prev:
  assumes "path N NBUF (ys @ b # zs) NBUF" "path P NBUF (rev zs @ b # rev ys) NBUF" "distinct (NBUF # ys @ b # zs)"
  shows "path (front_prev N P b) NBUF (rev zs @ rev ys @ [b]) NBUF"
proof -
  let ?P = "front_prev N P b"
  have P: "path P NBUF (rev zs) b" "path P b (rev ys) NBUF" using assms(2) by (simp_all add: path_append)
  have N: "N b = hd (zs @ [NBUF])" "N NBUF = hd (ys @ [b])" using assms(1) by (simp_all add: path_append path_first)
  have Pb: "P b = hd (rev ys @ [NBUF])" using P(2) by (simp add: path_first)
  have "path ?P (N b) (rev ys @ [b]) NBUF"
  proof (cases ys)
    case Nil
    with assms(3) N Pb show ?thesis by (cases zs) (auto simp: front_prev_def Let_def)
  next
    case (Cons y us)
    then have y: "path P b (rev us) y" using P(2) by (simp add: path_append)
    have pn: "P b \<noteq> NBUF" using Pb Cons assms(3) by (cases us rule: rev_cases) auto
    have "path ?P (N b) (rev us) y"
      using assms(3) Cons N pn by (intro path_cong [OF y]) (cases zs; auto simp: front_prev_def Let_def)+
    then show ?thesis
      using Cons N assms(3) pn by (simp add: path_append) (auto simp: front_prev_def Let_def)
  qed
  moreover have "path ?P NBUF (butlast (rev zs)) (N b)" if ne: "zs \<noteq> []"
  proof -
    obtain z vs where z: "zs = z # vs" using ne by (cases zs) auto
    then have "path P NBUF (rev vs) z" using P(1) by (simp add: path_append)
    moreover have "P b \<noteq> z" using Pb z assms(3) by (cases ys rule: rev_cases) auto
    ultimately have "path ?P NBUF (rev vs) z"
      using assms(3) z N by (elim path_cong) (cases ys; auto simp: front_prev_def Let_def split: if_splits)+
    with z N show ?thesis by simp
  qed
  ultimately show ?thesis
    using N by (cases zs) (simp_all add: path_append)
qed

definition nexts :: "'z bio_state_scheme \<Rightarrow> nat \<Rightarrow> nat" where "nexts s b = b_next (bufs s b)"
definition prevs :: "'z bio_state_scheme \<Rightarrow> nat \<Rightarrow> nat" where "prevs s b = b_prev (bufs s b)"

lemma links_set_buf:
  "nexts (set_buf y ((bufs s y)\<lparr>b_prev := v\<rparr>) s) = nexts s" "prevs (set_buf y ((bufs s y)\<lparr>b_prev := v\<rparr>) s) = (prevs s)(y := v)"
  "prevs (set_buf y ((bufs s y)\<lparr>b_next := v\<rparr>) s) = prevs s" "nexts (set_buf y ((bufs s y)\<lparr>b_next := v\<rparr>) s) = (nexts s)(y := v)"
  by (auto simp: nexts_def prevs_def set_buf_def)

lemma unlink_front_links:
  assumes "nexts s b \<noteq> b" "b \<noteq> NBUF"
  shows "nexts (unlink_front b s) = front_next (nexts s) (prevs s) b" "prevs (unlink_front b s) = front_prev (nexts s) (prevs s) b"
  using assms
  by (simp_all add: unlink_front_def Let_def front_next_def front_prev_def flip: nexts_def prevs_def)
    (simp_all add: links_set_buf)

lemma unlink_front_ring:
  assumes "ring (bufs s) xs" "b < NBUF"
  shows "\<exists>ys. ring (bufs (unlink_front b s)) ys"
proof -
  let ?N = "nexts s" and ?P = "prevs s"
  obtain ys zs where xs: "xs = ys @ b # zs"
    using assms by (metis ring_def lessThan_iff in_set_conv_decomp)
  then have r: "path ?N NBUF (ys @ b # zs) NBUF" "path ?P NBUF (rev zs @ b # rev ys) NBUF" "distinct (NBUF # ys @ b # zs)"
    "set (ys @ b # zs) = {..<NBUF}"
    using assms(1) by (auto simp: ring_def nexts_def [abs_def] prevs_def [abs_def])
  have "?N b = hd (zs @ [NBUF])" using r(1) path_first [of ?N b zs NBUF] by (simp add: path_append)
  then have "?N b \<noteq> b" using r(3) by (cases zs) auto
  then have f: "(\<lambda>x. b_next (bufs (unlink_front b s) x)) = front_next ?N ?P b"
    "(\<lambda>x. b_prev (bufs (unlink_front b s) x)) = front_prev ?N ?P b"
    using unlink_front_links [of s b] assms(2) by (simp_all add: nexts_def [abs_def] prevs_def [abs_def])
  have "ring (bufs (unlink_front b s)) (b # ys @ zs)"
    using path_front_next [OF r(1-3)] path_front_prev [OF r(1-3)] r(3,4) assms(2) by (auto simp: ring_def f)
  then show ?thesis ..
qed

section \<open>Flags\<close>

definition is_valid :: "buf \<Rightarrow> bool" where "is_valid v \<longleftrightarrow> b_flags v AND B_VALID \<noteq> 0"
definition is_dirty :: "buf \<Rightarrow> bool" where "is_dirty v \<longleftrightarrow> b_flags v AND B_DIRTY \<noteq> 0"

lemma flag_bits: "(f AND B_VALID = 0) = (\<not> bit f 1)" "(f AND B_DIRTY = 0) = (\<not> bit f 2)"
  using and_exp_eq_0_iff_not_bit [of f 1] and_exp_eq_0_iff_not_bit [of f 2] by (simp_all add: B_VALID_def B_DIRTY_def)

lemma bits_of_flags: "bit B_VALID n \<longleftrightarrow> n = 1" "bit B_DIRTY n \<longleftrightarrow> n = 2"
  using bit_exp_iff [where 'a = uint, of 1 n] bit_exp_iff [where 'a = uint, of 2 n]
  by (auto simp: B_VALID_def B_DIRTY_def)

lemma nothing_to_do: "(f AND (B_VALID OR B_DIRTY) = B_VALID) \<longleftrightarrow> bit f 1 \<and> \<not> bit f 2"
proof
  assume f: "f AND (B_VALID OR B_DIRTY) = B_VALID"
  from arg_cong [OF f, of "\<lambda>w. bit w 1"] arg_cong [OF f, of "\<lambda>w. bit w 2"] show "bit f 1 \<and> \<not> bit f 2"
    by (simp add: bit_and_iff bit_or_iff bits_of_flags)
next
  assume "bit f 1 \<and> \<not> bit f 2"
  then show "f AND (B_VALID OR B_DIRTY) = B_VALID"
    by (intro bit_eqI) (auto simp: bit_and_iff bit_or_iff bits_of_flags)
qed

lemma flag_updates:
  "bit (f OR B_VALID) n \<longleftrightarrow> bit f n \<or> n = 1" "bit (f OR B_DIRTY) n \<longleftrightarrow> bit f n \<or> n = 2"
  "n < 32 \<Longrightarrow> bit (f AND NOT B_DIRTY) n \<longleftrightarrow> bit f n \<and> n \<noteq> 2"
  by (auto simp: bit_and_iff bit_or_iff bit_not_iff bits_of_flags)

lemma flags_bits: "is_valid v \<longleftrightarrow> bit (b_flags v) 1" "is_dirty v \<longleftrightarrow> bit (b_flags v) 2"
  by (simp_all add: is_valid_def is_dirty_def flag_bits)

section \<open>The contents of blocks\<close>

text \<open>A disk with its history.\<close>

record hist_state = log_state +
  hist :: "(uint \<Rightarrow> uchar list) list"

definition rec_rw :: "nat \<Rightarrow> 'z hist_state_scheme \<Rightarrow> 'z hist_state_scheme result" where
  "rec_rw b s = bnd (memide_rw b s) (\<lambda>s. Inr (s\<lparr>hist := hist s @ [memdisk s]\<rparr>))"

definition rec_env :: "('z hist_state_scheme \<Rightarrow> 'z hist_state_scheme) \<Rightarrow> 'z hist_state_scheme env" where
  "rec_env others = \<lparr>e_others = others, e_iderw = rec_rw, e_devread = (\<lambda>_. None), e_devwrite = (\<lambda>_. None)\<rparr>"

text \<open>
  The latest contents of a block are in the dirty buffer that holds it, and on the disk if no
  dirty buffer does.
\<close>

definition dirty_at :: "'z bio_state_scheme \<Rightarrow> uint \<Rightarrow> nat option" where
  "dirty_at s blk = find (\<lambda>b. is_dirty (bufs s b) \<and> b_blockno (bufs s b) = blk) [0..<NBUF]"

definition content :: "'z bio_state_scheme \<Rightarrow> uint \<Rightarrow> uchar list" where
  "content s blk = (case dirty_at s blk of Some b \<Rightarrow> b_data (bufs s b) | None \<Rightarrow> memdisk s blk)"

definition pinned :: "'z bio_state_scheme \<Rightarrow> uint set" where
  "pinned s = {blk. dirty_at s blk \<noteq> None}"

text \<open>
  The invariant of the cache while one thread holds the buffers \<open>H\<close>: the ring is whole, exactly
  the held buffers are locked and referenced, no block is in two buffers, a dirty buffer holds a
  block of the disk, and a clean valid one agrees with the disk.
\<close>

definition buf_ok :: "(uint \<Rightarrow> uchar list) \<Rightarrow> buf \<Rightarrow> bool" where
  "buf_ok d v \<longleftrightarrow> (is_dirty v \<longrightarrow> is_valid v \<and> b_dev v = 1)
     \<and> (b_dev v = 1 \<and> is_valid v \<and> \<not> is_dirty v \<longrightarrow> b_data v = d (b_blockno v))"

definition one_copy :: "(nat \<Rightarrow> buf) \<Rightarrow> bool" where
  "one_copy B \<longleftrightarrow> inj_on (\<lambda>b. b_blockno (B b)) {b. b < NBUF \<and> b_dev (B b) = 1}"

definition cache_ok :: "nat set \<Rightarrow> 'z bio_state_scheme \<Rightarrow> bool" where
  "cache_ok H s \<longleftrightarrow> (\<exists>xs. ring (bufs s) xs) \<and> H \<subseteq> {..<NBUF}
     \<and> (\<forall>b<NBUF. sl_locked (sleeplocks s (BufLock b)) = (b \<in> H) \<and> b_refcnt (bufs s b) = of_bool (b \<in> H))
     \<and> one_copy (bufs s) \<and> (\<forall>b<NBUF. buf_ok (memdisk s) (bufs s b))"

lemma dirty_at_cong:
  assumes "\<And>b. b < NBUF \<Longrightarrow> is_dirty (bufs t b) = is_dirty (bufs s b)"
    and "\<And>b. b < NBUF \<Longrightarrow> is_dirty (bufs s b) \<Longrightarrow> b_blockno (bufs t b) = b_blockno (bufs s b) \<and> b_data (bufs t b) = b_data (bufs s b)"
    and "memdisk t = memdisk s"
  shows "content t = content s" "pinned t = pinned s"
proof -
  have d: "dirty_at t blk = dirty_at s blk" for blk
    unfolding dirty_at_def using assms by (intro find_cong) auto
  then show "pinned t = pinned s" by (simp add: pinned_def)
  show "content t = content s"
  proof
    fix blk
    show "content t blk = content s blk"
    proof (cases "dirty_at s blk")
      case (Some b)
      then have "b < NBUF" "is_dirty (bufs s b)" by (auto simp: dirty_at_def find_upt_Some)
      with Some d assms(2) show ?thesis by (simp add: content_def)
    qed (simp add: content_def d assms(3))
  qed
qed

lemma pinned_iff: "blk \<in> pinned s \<longleftrightarrow> (\<exists>b<NBUF. is_dirty (bufs s b) \<and> b_blockno (bufs s b) = blk)"
  by (auto simp: pinned_def dirty_at_def find_None_iff)

lemma same_buffer:
  assumes "one_copy B" "a < NBUF" "b < NBUF" "b_dev (B a) = 1" "b_dev (B b) = 1" "b_blockno (B a) = b_blockno (B b)"
  shows "a = b"
  using assms by (auto simp: one_copy_def inj_on_def)

lemma content_held:
  assumes "cache_ok H s" "b < NBUF" "b_dev (bufs s b) = 1" "is_valid (bufs s b)"
  shows "b_data (bufs s b) = content s (b_blockno (bufs s b))"
proof (cases "dirty_at s (b_blockno (bufs s b))")
  case None
  then have "\<not> is_dirty (bufs s b)" using assms(2) by (auto simp: dirty_at_def find_None_iff)
  with None assms show ?thesis by (auto simp: content_def cache_ok_def buf_ok_def)
next
  case (Some a)
  then have a: "a < NBUF" "is_dirty (bufs s a)" "b_blockno (bufs s a) = b_blockno (bufs s b)"
    by (auto simp: dirty_at_def find_upt_Some)
  then have "b_dev (bufs s a) = 1" using assms(1) by (auto simp: cache_ok_def buf_ok_def)
  with a assms have "a = b" by (intro same_buffer [of "bufs s"]) (auto simp: cache_ok_def)
  with Some show ?thesis by (simp add: content_def)
qed

text \<open>A buffer can be recycled as long as fewer than \<open>NBUF\<close> are pinned or held.\<close>

lemma card_dirty:
  assumes "cache_ok H s"
  shows "card {b. b < NBUF \<and> is_dirty (bufs s b)} = card (pinned s)"
proof (rule bij_betw_same_card [of "\<lambda>b. b_blockno (bufs s b)"])
  have "inj_on (\<lambda>b. b_blockno (bufs s b)) {b. b < NBUF \<and> is_dirty (bufs s b)}"
    using assms by (auto simp: cache_ok_def buf_ok_def one_copy_def elim!: inj_on_subset)
  moreover have "(\<lambda>b. b_blockno (bufs s b)) ` {b. b < NBUF \<and> is_dirty (bufs s b)} = pinned s"
    by (auto simp: pinned_iff)
  ultimately show "bij_betw (\<lambda>b. b_blockno (bufs s b)) {b. b < NBUF \<and> is_dirty (bufs s b)} (pinned s)"
    by (simp add: bij_betw_def)
qed

lemma free_buffer:
  assumes "cache_ok H s" "card (pinned s) + card H < NBUF"
  shows "\<exists>b<NBUF. b \<notin> H \<and> \<not> is_dirty (bufs s b)"
proof (rule ccontr)
  assume "\<not> ?thesis"
  then have "{..<NBUF} \<subseteq> H \<union> {b. b < NBUF \<and> is_dirty (bufs s b)}" by auto
  moreover have "finite H" using assms(1) by (auto simp: cache_ok_def intro: finite_subset)
  ultimately have "card {..<NBUF} \<le> card H + card {b. b < NBUF \<and> is_dirty (bufs s b)}"
    by (intro order_trans [OF card_mono card_Un_le]) simp_all
  with assms card_dirty [OF assms(1)] show False by simp
qed

section \<open>Getting a buffer\<close>

text \<open>The state after \<open>b\<close> was given to the thread \<open>p\<close>, with the buffer's fields \<open>v\<close>.\<close>

definition given :: "nat \<Rightarrow> nat \<Rightarrow> buf \<Rightarrow> 'z bio_state_scheme \<Rightarrow> 'z bio_state_scheme" where
  "given p b v s = sleep_held (BufLock b) p (set_buf b v s)"

lemma given_fields:
  "bufs (given p b v s) = (bufs s)(b := v)" "memdisk (given p b v s) = memdisk s"
  "sleeplocks (given p b v s) = (sleeplocks s)(BufLock b := (sleeplocks s (BufLock b))\<lparr>sl_locked := True, sl_pid := p_pid (procs s p)\<rparr>)"
  by (simp_all add: given_def sleep_held_def set_sleeplock_def set_buf_def)

lemma cache_ok_given:
  assumes "cache_ok H s" "b < NBUF" "b_next v = b_next (bufs s b)" "b_prev v = b_prev (bufs s b)" "b_refcnt v = 1"
    and "buf_ok (memdisk s) v" "one_copy ((bufs s)(b := v))"
  shows "cache_ok (insert b H) (given p b v s)"
proof -
  obtain xs where "ring (bufs s) xs" using assms(1) by (auto simp: cache_ok_def)
  from ring_cong [OF this, of "(bufs s)(b := v)"] have "ring ((bufs s)(b := v)) xs" using assms(3,4) by simp
  then have "\<exists>xs. ring ((bufs s)(b := v)) xs" ..
  then show ?thesis using assms unfolding cache_ok_def given_fields by simp
qed

lemma bget_given:
  assumes "calm c p s" "cache_ok H s" "b \<notin> H" "b < NBUF" "b_refcnt v = 1"
    and "acquire BcacheLock s = Inr (locked_by c BcacheLock s)"
  shows "bnd (release BcacheLock (set_buf b v (locked_by c BcacheLock s))) (\<lambda>s. bnd (acquiresleep others (BufLock b) s) (\<lambda>s. Inr (b, s)))
    = Inr (b, given p b v s)"
proof -
  have "calm c p (set_buf b v s)" "\<not> sl_locked (sleeplocks (set_buf b v s) (BufLock b))"
    using assms(1-4) by (simp_all add: cache_ok_def) (simp add: set_buf_def)
  then show ?thesis
    by (simp add: lock_out calm_section(2) [where p = p] acquiresleep_eq [where c = c and p = p] given_def)
qed

text \<open>Whichever way \<open>bget\<close> finds a buffer, it only touches that one, which was neither held nor dirty for another block.\<close>

lemma bget_spec:
  assumes "calm c p s" "cache_ok H s" "\<And>x. x \<in> H \<Longrightarrow> b_dev (bufs s x) = 1 \<Longrightarrow> b_blockno (bufs s x) \<noteq> blk"
    and "blk \<in> pinned s \<or> card (pinned s) + card H < NBUF"
  obtains b v where "bget ev 1 blk s = Inr (b, given p b v s)" "b < NBUF" "b \<notin> H" "cache_ok (insert b H) (given p b v s)"
    and "b_dev v = 1" "b_blockno v = blk" "is_dirty v = is_dirty (bufs s b)"
    and "is_dirty (bufs s b) \<longrightarrow> b_blockno (bufs s b) = blk \<and> b_data v = b_data (bufs s b)"
proof -
  obtain xs where r: "ring (bufs s) xs" using assms(2) by (auto simp: cache_ok_def)
  then have xs: "set xs = {..<NBUF}" by (simp add: ring_def)
  let ?hit = "\<lambda>b. b_dev (bufs s b) = 1 \<and> b_blockno (bufs s b) = blk"
  let ?free = "\<lambda>b. b_refcnt (bufs s b) = 0 \<and> b_flags (bufs s b) AND B_DIRTY = 0"
  note acq = calm_section(1) [OF assms(1), of BcacheLock]
  have inv: "\<And>b. b < NBUF \<Longrightarrow> b_refcnt (bufs s b) = of_bool (b \<in> H)" "\<And>b. b < NBUF \<Longrightarrow> buf_ok (memdisk s) (bufs s b)"
    "one_copy (bufs s)"
    using assms(2) by (auto simp: cache_ok_def)
  show ?thesis
  proof (cases "find ?hit xs")
    case (Some b)
    then have b: "b < NBUF" "?hit b" using xs find_SomeD [OF Some] by simp_all
    then have H: "b \<notin> H" using assms(3) by blast
    let ?v = "(bufs s b)\<lparr>b_refcnt := b_refcnt (bufs s b) + 1\<rparr>"
    have v: "b_refcnt ?v = 1" using inv(1) b H by simp
    have "bget ev 1 blk s = Inr (b, given p b ?v s)"
      using Some bget_given [OF assms(1,2) H b(1) v acq, of "e_others ev"]
      by (simp add: bget_def acq lock_simps ring_scan [OF r] Let_def)
    moreover have "one_copy ((bufs s)(b := ?v))" using inv(3) b by (auto simp: one_copy_def inj_on_def)
    moreover have "buf_ok (memdisk s) ?v" using inv(2) b by (simp add: buf_ok_def is_valid_def is_dirty_def)
    ultimately show ?thesis
      using that [of b ?v] b H v cache_ok_given [OF assms(2) b(1), of ?v p] by (simp add: is_dirty_def)
  next
    case None
    then have none: "\<And>b. b < NBUF \<Longrightarrow> \<not> ?hit b" using xs by (auto simp: find_None_iff)
    have "blk \<notin> pinned s" using none inv(2) by (auto simp: pinned_iff buf_ok_def)
    then obtain x where "x < NBUF" "x \<notin> H" "\<not> is_dirty (bufs s x)" using free_buffer [OF assms(2)] assms(4) by auto
    then have "?free x" "x \<in> set (rev xs)" using inv(1) xs by (auto simp: is_dirty_def)
    then obtain b where f: "find ?free (rev xs) = Some b" by (cases "find ?free (rev xs)") (auto simp: find_None_iff)
    then have b: "b < NBUF" "?free b" using xs find_SomeD [OF f] by simp_all
    then have H: "b \<notin> H" using inv(1) [of b] by (auto split: if_splits)
    let ?v = "(bufs s b)\<lparr>b_dev := 1, b_blockno := blk, b_flags := 0, b_refcnt := 1\<rparr>"
    have "bget ev 1 blk s = Inr (b, given p b ?v s)"
      using None f bget_given [OF assms(1,2) H b(1) _ acq, of ?v "e_others ev"]
      by (simp add: bget_def acq lock_simps ring_scan [OF r] Let_def)
    moreover have "one_copy ((bufs s)(b := ?v))" using inv(3) none by (auto simp: one_copy_def inj_on_def)
    moreover have "buf_ok (memdisk s) ?v" by (simp add: buf_ok_def is_valid_def is_dirty_def)
    ultimately show ?thesis
      using that [of b ?v] b H cache_ok_given [OF assms(2) b(1), of ?v p] by (simp add: is_dirty_def)
  qed
qed

section \<open>Reading, writing and releasing a block\<close>

text \<open>Only the cache, its locks, the disk and the history change.\<close>

definition only_io :: "'z hist_state_scheme \<Rightarrow> 'z hist_state_scheme \<Rightarrow> bool" where
  "only_io s t \<longleftrightarrow> (\<exists>B L D h. t = s\<lparr>bufs := B, sleeplocks := L, memdisk := D, hist := h\<rparr>)"

lemma only_ioI: "t = s\<lparr>bufs := bufs t, sleeplocks := sleeplocks t, memdisk := memdisk t, hist := hist t\<rparr> \<Longrightarrow> only_io s t"
  by (auto simp: only_io_def)

lemma only_io_trans: "only_io s t \<Longrightarrow> only_io t u \<Longrightarrow> only_io s u"
  unfolding only_io_def by (elim exE) (simp, blast)

lemma only_ioD:
  assumes "only_io s t"
  shows "calm c p t = calm c p s" "lh_n t = lh_n s" "lh_block t = lh_block s" "lg_start t = lg_start s" "lg_dev t = lg_dev s"
    "disksize t = disksize s" "lg_size t = lg_size s"
proof -
  obtain B L D h where t: "t = s\<lparr>bufs := B, sleeplocks := L, memdisk := D, hist := h\<rparr>"
    using assms by (auto simp: only_io_def)
  show "calm c p t = calm c p s" by (rule calm_cong) (simp_all add: t)
qed (use assms in \<open>auto simp: only_io_def\<close>)

lemma rec_rw_read:
  assumes "calm c p s" "sl_locked (sleeplocks s (BufLock b))" "b_dev (bufs s b) = 1" "b_blockno (bufs s b) < disksize s"
    and "\<not> is_valid (bufs s b)" "\<not> is_dirty (bufs s b)"
  shows "rec_rw b s = Inr ((set_buf b ((bufs s b)\<lparr>b_data := memdisk s (b_blockno (bufs s b)), b_flags := b_flags (bufs s b) OR B_VALID\<rparr>) s)
      \<lparr>hist := hist s @ [memdisk s]\<rparr>)"
  using assms
  by (simp add: rec_rw_def memide_rw_def holdingsleep_eq [where c = c and p = p] nothing_to_do flags_bits flag_bits not_le Let_def)
    (simp add: set_buf_def)

lemma rec_rw_write:
  assumes "calm c p s" "sl_locked (sleeplocks s (BufLock b))" "b_dev (bufs s b) = 1" "b_blockno (bufs s b) < disksize s"
    and "is_dirty (bufs s b)"
  shows "rec_rw b s = Inr ((set_buf b ((bufs s b)\<lparr>b_flags := b_flags (bufs s b) AND NOT B_DIRTY OR B_VALID\<rparr>) s)
      \<lparr>memdisk := (memdisk s)(b_blockno (bufs s b) := b_data (bufs s b)),
       hist := hist s @ [(memdisk s)(b_blockno (bufs s b) := b_data (bufs s b))]\<rparr>)"
  using assms
  by (simp add: rec_rw_def memide_rw_def holdingsleep_eq [where c = c and p = p] nothing_to_do flags_bits flag_bits not_le Let_def)
    (simp add: set_buf_def)

lemma cache_ok_replace:
  assumes "cache_ok H s" "bufs t = (bufs s)(b := w)" "sleeplocks t = sleeplocks s"
    and "b_next w = b_next (bufs s b)" "b_prev w = b_prev (bufs s b)" "b_refcnt w = b_refcnt (bufs s b)"
    and "b_dev w = b_dev (bufs s b)" "b_blockno w = b_blockno (bufs s b)" "buf_ok (memdisk t) w"
    and "\<And>x. x < NBUF \<Longrightarrow> x \<noteq> b \<Longrightarrow> buf_ok (memdisk t) (bufs s x)"
  shows "cache_ok H t"
proof -
  obtain xs where "ring (bufs s) xs" using assms(1) by (auto simp: cache_ok_def)
  from ring_cong [OF this, of "bufs t"] have "ring (bufs t) xs" using assms(2,4,5) by simp
  then have "\<exists>xs. ring (bufs t) xs" ..
  moreover have "one_copy (bufs t)"
  proof -
    have "b_dev (bufs t x) = b_dev (bufs s x)" "b_blockno (bufs t x) = b_blockno (bufs s x)" for x
      using assms(2,7,8) by simp_all
    then show ?thesis using assms(1) by (simp add: cache_ok_def one_copy_def)
  qed
  moreover have "buf_ok (memdisk t) (bufs t x)" if "x < NBUF" for x
    using assms(2,9,10) that by (cases "x = b") simp_all
  ultimately show ?thesis
    using assms(1,2,3,6) by (simp add: cache_ok_def)
qed

definition read_block :: "nat set \<Rightarrow> uint \<Rightarrow> 'z hist_state_scheme \<Rightarrow> nat \<Rightarrow> 'z hist_state_scheme \<Rightarrow> bool" where
  "read_block H blk s b t \<longleftrightarrow> only_io s t \<and> cache_ok (insert b H) t \<and> b < NBUF \<and> b \<notin> H
     \<and> b_dev (bufs t b) = 1 \<and> b_blockno (bufs t b) = blk \<and> is_valid (bufs t b) \<and> b_data (bufs t b) = content s blk
     \<and> (\<forall>x. x \<noteq> b \<longrightarrow> bufs t x = bufs s x) \<and> memdisk t = memdisk s \<and> content t = content s \<and> pinned t = pinned s
     \<and> (\<exists>h. hist t = hist s @ h \<and> set h \<subseteq> {memdisk s})"

lemma bread_spec:
  assumes "calm c p s" "cache_ok H s" "\<And>x. x \<in> H \<Longrightarrow> b_dev (bufs s x) = 1 \<Longrightarrow> b_blockno (bufs s x) \<noteq> blk"
    and "blk \<in> pinned s \<or> card (pinned s) + card H < NBUF" "blk < disksize s"
  shows "\<exists>b t. bread (rec_env others) 1 blk s = Inr (b, t) \<and> read_block H blk s b t"
proof -
  let ?ev = "rec_env others"
  obtain b v where g: "bget ?ev 1 blk s = Inr (b, given p b v s)" "b < NBUF" "b \<notin> H" "cache_ok (insert b H) (given p b v s)"
    "b_dev v = 1" "b_blockno v = blk" "is_dirty v = is_dirty (bufs s b)"
    and d: "is_dirty (bufs s b) \<longrightarrow> b_blockno (bufs s b) = blk \<and> b_data v = b_data (bufs s b)"
    by (rule bget_spec [OF assms(1-4), of ?ev]) blast
  let ?u = "given p b v s"
  have u: "only_io s ?u" "hist ?u = hist s"
    by (auto intro!: only_ioI simp: given_def sleep_held_def set_sleeplock_def set_buf_def)
  have c: "content ?u = content s" "pinned ?u = pinned s"
    by (rule dirty_at_cong; use g(6,7) d in \<open>auto simp: given_fields split: if_splits\<close>)+
  show ?thesis
  proof (cases "is_valid v")
    case True
    then have "bread ?ev 1 blk s = Inr (b, ?u)"
      using g(1) by (simp add: bread_def given_fields is_valid_def)
    moreover have "b_data v = content s blk"
      using content_held [OF g(4), of b] g True c by (simp add: given_fields)
    ultimately show ?thesis
      using g u c True by (intro exI [of _ b] exI [of _ ?u]) (simp add: read_block_def given_fields)
  next
    case False
    then have nd: "\<not> is_dirty v"
      using g(2,4) by (auto simp: cache_ok_def given_fields buf_ok_def)
    let ?w = "v\<lparr>b_data := memdisk s blk, b_flags := b_flags v OR B_VALID\<rparr>"
    let ?t = "(set_buf b ?w ?u)\<lparr>hist := hist s @ [memdisk s]\<rparr>"
    have t: "bufs ?t = (bufs s)(b := ?w)" "memdisk ?t = memdisk s" "sleeplocks ?t = sleeplocks ?u"
      by (simp_all add: set_buf_def given_fields)
    have w: "is_valid ?w" "\<not> is_dirty ?w" using nd by (simp_all add: flags_bits flag_updates)
    have "rec_rw b ?u = Inr ?t"
      using g False nd assms(1,5) only_ioD [OF u(1)] u(2) by (subst rec_rw_read [of c p]) (simp_all add: given_fields)
    then have run: "bread ?ev 1 blk s = Inr (b, ?t)"
      using g(1) False by (simp add: bread_def given_fields is_valid_def rec_env_def)
    have ok: "cache_ok (insert b H) ?t"
    proof (rule cache_ok_replace [OF g(4)])
      show "bufs ?t = (bufs ?u)(b := ?w)" by (simp add: t given_fields)
      show "buf_ok (memdisk ?t) ?w" using g(6) w by (simp add: buf_ok_def t)
      show "buf_ok (memdisk ?t) (bufs ?u x)" if "x < NBUF" for x
        using g(4) that by (simp add: cache_ok_def t given_fields)
    qed (simp_all add: t given_fields)
    have "content ?t = content s" "pinned ?t = pinned s"
      by (rule dirty_at_cong; use g(7) nd w in \<open>auto simp: t split: if_splits\<close>)+
    moreover have "b_data ?w = content s blk"
      using content_held [OF ok g(2)] g(5,6) w(1) calculation(1) by (simp add: t)
    moreover have "only_io s ?t" by (rule only_ioI) (simp add: set_buf_def given_def sleep_held_def set_sleeplock_def)
    ultimately show ?thesis
      using run ok g t w by (intro exI [of _ b] exI [of _ ?t]) (auto simp: read_block_def)
  qed
qed

definition wrote_block :: "nat set \<Rightarrow> nat \<Rightarrow> uchar list \<Rightarrow> 'z hist_state_scheme \<Rightarrow> 'z hist_state_scheme \<Rightarrow> bool" where
  "wrote_block H b d s t \<longleftrightarrow> only_io s t \<and> cache_ok H t
     \<and> memdisk t = (memdisk s)(b_blockno (bufs s b) := d) \<and> content t = (content s)(b_blockno (bufs s b) := d)
     \<and> pinned t = pinned s - {b_blockno (bufs s b)} \<and> hist t = hist s @ [memdisk t]"

text \<open>The effect of a write on the contents: the buffer becomes clean and agrees with the disk.\<close>

lemma write_effect:
  assumes "cache_ok H s" "b < NBUF" "b_dev (bufs s b) = 1" "bufs t = (bufs s)(b := w)" "sleeplocks t = sleeplocks s"
    and "memdisk t = (memdisk s)(b_blockno (bufs s b) := d)" "is_valid w" "\<not> is_dirty w" "b_data w = d"
    and "b_dev w = 1" "b_blockno w = b_blockno (bufs s b)" "b_next w = b_next (bufs s b)" "b_prev w = b_prev (bufs s b)"
    and "b_refcnt w = b_refcnt (bufs s b)"
  shows "cache_ok H t" "content t = (content s)(b_blockno (bufs s b) := d)" "pinned t = pinned s - {b_blockno (bufs s b)}"
proof -
  let ?blk = "b_blockno (bufs s b)"
  have other: "x = b" if "x < NBUF" "b_dev (bufs s x) = 1" "b_blockno (bufs s x) = ?blk" for x
    using that assms(1,2,3) by (intro same_buffer [of "bufs s"]) (auto simp: cache_ok_def)
  have okx: "buf_ok (memdisk s) (bufs s x)" if "x < NBUF" for x using assms(1) that by (simp add: cache_ok_def)
  show "cache_ok H t"
  proof (rule cache_ok_replace [OF assms(1) assms(4) assms(5) assms(12) assms(13) assms(14)])
    show "buf_ok (memdisk t) w" using assms by (simp add: buf_ok_def)
    show "buf_ok (memdisk t) (bufs s x)" if "x < NBUF" "x \<noteq> b" for x
      using okx [OF that(1)] other [OF that(1)] that(2) by (auto simp: buf_ok_def assms(6))
  qed (use assms in simp_all)
  have da: "dirty_at t blk = (if blk = ?blk then None else dirty_at s blk)" for blk
  proof (cases "blk = ?blk")
    case True
    have "\<not> (is_dirty (bufs t x) \<and> b_blockno (bufs t x) = ?blk)" if "x < NBUF" for x
      using okx [OF that] other [OF that] assms(8) by (auto simp: assms(4) buf_ok_def)
    with True show ?thesis by (auto simp: dirty_at_def find_None_iff)
  next
    case False
    then have "dirty_at t blk = dirty_at s blk"
      unfolding dirty_at_def using assms(8,11) by (intro find_cong) (auto simp: assms(4))
    with False show ?thesis by simp
  qed
  show "pinned t = pinned s - {?blk}" by (auto simp: pinned_def da)
  show "content t = (content s)(?blk := d)"
  proof
    fix blk
    show "content t blk = ((content s)(?blk := d)) blk"
    proof (cases "blk = ?blk \<or> dirty_at s blk = None")
      case False
      then obtain x where x: "dirty_at s blk = Some x" by auto
      then have "b_blockno (bufs s x) = blk" using find_SomeD by (fastforce simp: dirty_at_def)
      with False x show ?thesis by (auto simp: content_def da assms(4))
    qed (auto simp: content_def da assms(6))
  qed
qed

lemma bwrite_spec:
  assumes "calm c p s" "cache_ok H s" "b \<in> H" "b_dev (bufs s b) = 1" "b_blockno (bufs s b) < disksize s"
  shows "\<exists>t. bwrite (rec_env others) b (set_data b d s) = Inr t \<and> wrote_block H b d s t"
proof -
  let ?blk = "b_blockno (bufs s b)"
  define v where "v = (bufs s b)\<lparr>b_data := d, b_flags := b_flags (bufs s b) OR B_DIRTY\<rparr>"
  define w where "w = v\<lparr>b_flags := b_flags v AND NOT B_DIRTY OR B_VALID\<rparr>"
  define u where "u = set_buf b v s"
  define t where "t = (set_buf b w s)\<lparr>memdisk := (memdisk s)(?blk := d), hist := hist s @ [(memdisk s)(?blk := d)]\<rparr>"
  have b: "b < NBUF" "sl_locked (sleeplocks s (BufLock b))" using assms(2,3) by (auto simp: cache_ok_def)
  have t: "bufs t = (bufs s)(b := w)" "sleeplocks t = sleeplocks s" "memdisk t = (memdisk s)(?blk := d)"
    "hist t = hist s @ [memdisk t]"
    by (simp_all add: t_def set_buf_def)
  have io: "only_io s t" by (rule only_ioI) (simp add: t_def set_buf_def)
  have "is_dirty v" by (simp add: v_def flags_bits flag_updates)
  moreover have f: "b_dev v = 1" "b_blockno v = ?blk" "b_data v = d" using assms(4) by (simp_all add: v_def)
  moreover have uf: "bufs u b = v" "sleeplocks u = sleeplocks s" "memdisk u = memdisk s" "hist u = hist s" "disksize u = disksize s"
    "calm c p u"
    using assms(1) by (simp_all add: u_def) (simp_all add: set_buf_def)
  ultimately have "rec_rw b u = Inr t"
    using assms(5) b(2) rec_rw_write [of c p u b] by (simp add: t_def w_def u_def) (simp add: set_buf_def)
  moreover have "set_buf b ((bufs (set_data b d s) b)\<lparr>b_flags := b_flags (bufs (set_data b d s) b) OR B_DIRTY\<rparr>) (set_data b d s) = u"
    by (simp add: set_data_def set_buf_def u_def v_def)
  ultimately have "bwrite (rec_env others) b (set_data b d s) = Inr t"
    using assms(1) b(2) by (simp add: bwrite_def holdingsleep_eq [where c = c and p = p] set_data_def rec_env_def)
      (simp add: set_buf_def)
  moreover have "is_valid w" "\<not> is_dirty w" by (simp_all add: w_def flags_bits flag_updates)
  then have "cache_ok H t" "content t = (content s)(?blk := d)" "pinned t = pinned s - {?blk}"
    by (rule write_effect [OF assms(2) b(1) assms(4) t(1-3)]; use f in \<open>simp add: w_def v_def\<close>)+
  ultimately show ?thesis using t(3,4) io by (auto simp: wrote_block_def)
qed

definition released_block :: "nat set \<Rightarrow> nat \<Rightarrow> 'z hist_state_scheme \<Rightarrow> 'z hist_state_scheme \<Rightarrow> bool" where
  "released_block H b s t \<longleftrightarrow> only_io s t \<and> cache_ok (H - {b}) t \<and> memdisk t = memdisk s \<and> content t = content s
     \<and> pinned t = pinned s \<and> hist t = hist s
     \<and> (\<forall>x. b_dev (bufs t x) = b_dev (bufs s x) \<and> b_blockno (bufs t x) = b_blockno (bufs s x))"

lemma set_links_core:
  "b_dev (bufs (set_buf y ((bufs s y)\<lparr>b_prev := v\<rparr>) s) x) = b_dev (bufs s x)"
  "b_blockno (bufs (set_buf y ((bufs s y)\<lparr>b_prev := v\<rparr>) s) x) = b_blockno (bufs s x)"
  "b_flags (bufs (set_buf y ((bufs s y)\<lparr>b_prev := v\<rparr>) s) x) = b_flags (bufs s x)"
  "b_data (bufs (set_buf y ((bufs s y)\<lparr>b_prev := v\<rparr>) s) x) = b_data (bufs s x)"
  "b_refcnt (bufs (set_buf y ((bufs s y)\<lparr>b_prev := v\<rparr>) s) x) = b_refcnt (bufs s x)"
  "b_dev (bufs (set_buf y ((bufs s y)\<lparr>b_next := v\<rparr>) s) x) = b_dev (bufs s x)"
  "b_blockno (bufs (set_buf y ((bufs s y)\<lparr>b_next := v\<rparr>) s) x) = b_blockno (bufs s x)"
  "b_flags (bufs (set_buf y ((bufs s y)\<lparr>b_next := v\<rparr>) s) x) = b_flags (bufs s x)"
  "b_data (bufs (set_buf y ((bufs s y)\<lparr>b_next := v\<rparr>) s) x) = b_data (bufs s x)"
  "b_refcnt (bufs (set_buf y ((bufs s y)\<lparr>b_next := v\<rparr>) s) x) = b_refcnt (bufs s x)"
  by (simp_all add: set_buf_def)

lemma unlink_front_core:
  "b_dev (bufs (unlink_front b s) x) = b_dev (bufs s x)" "b_blockno (bufs (unlink_front b s) x) = b_blockno (bufs s x)"
  "b_flags (bufs (unlink_front b s) x) = b_flags (bufs s x)" "b_data (bufs (unlink_front b s) x) = b_data (bufs s x)"
  "b_refcnt (bufs (unlink_front b s) x) = b_refcnt (bufs s x)"
  by (simp_all only: unlink_front_def Let_def set_links_core)

lemma set_buf_rest: "u = s\<lparr>bufs := A\<rparr> \<Longrightarrow> set_buf y w u = s\<lparr>bufs := bufs (set_buf y w u)\<rparr>"
  by (simp add: set_buf_def)

lemma unlink_front_frame: "unlink_front b s = s\<lparr>bufs := bufs (unlink_front b s)\<rparr>"
proof -
  have "set_buf y w s = s\<lparr>bufs := bufs (set_buf y w s)\<rparr>" for y w by (simp add: set_buf_def)
  then show ?thesis
    unfolding unlink_front_def Let_def by (rule set_buf_rest [OF set_buf_rest [OF set_buf_rest [OF set_buf_rest [OF set_buf_rest]]]])
qed

lemma brelse_spec:
  assumes "calm c p s" "cache_ok H s" "b \<in> H"
  shows "\<exists>t. brelse b s = Inr t \<and> released_block H b s t"
proof -
  have b: "b < NBUF" "sl_locked (sleeplocks s (BufLock b))" "b_refcnt (bufs s b) = 1" using assms(2,3) by (auto simp: cache_ok_def)
  define u where "u = set_buf b ((bufs s b)\<lparr>b_refcnt := 0\<rparr>) (sleep_freed (BufLock b) s)"
  define t where "t = unlink_front b u"
  have uf: "bufs u = (bufs s)(b := (bufs s b)\<lparr>b_refcnt := 0\<rparr>)" "memdisk u = memdisk s" "hist u = hist s"
    "\<And>x. sl_locked (sleeplocks u (BufLock x)) = (sl_locked (sleeplocks s (BufLock x)) \<and> x \<noteq> b)" "calm c p u"
    using assms(1) by (simp_all add: u_def sleep_freed_def) (auto simp: set_buf_def set_sleeplock_def)
  have tu: "t = u\<lparr>bufs := bufs t\<rparr>" unfolding t_def by (rule unlink_front_frame)
  have tf: "memdisk t = memdisk u" "hist t = hist u" "sleeplocks t = sleeplocks u" "calm c p t"
    using uf(5) by (subst tu, simp)+
  have core: "b_dev (bufs t x) = b_dev (bufs s x)" "b_blockno (bufs t x) = b_blockno (bufs s x)" "b_flags (bufs t x) = b_flags (bufs s x)"
    "b_data (bufs t x) = b_data (bufs s x)" "b_refcnt (bufs t x) = (if x = b then 0 else b_refcnt (bufs s x))" for x
    by (simp_all add: unlink_front_core [of b u, folded t_def] uf(1))
  have "brelse b s = Inr t"
  proof -
    have "unlink_front b (locked_by c BcacheLock u) = locked_by c BcacheLock t"
      by (simp add: t_def unlink_front_def lock_simps lock_out Let_def)
    moreover have "set_buf b ((bufs s b)\<lparr>b_refcnt := 0\<rparr>) (locked_by c BcacheLock (sleep_freed (BufLock b) s)) = locked_by c BcacheLock u"
      by (simp add: u_def lock_out)
    moreover have "bufs (sleep_freed (BufLock b) s) = bufs s" "calm c p (sleep_freed (BufLock b) s)"
      using assms(1) by (simp_all add: sleep_freed_def) (simp add: set_sleeplock_def)
    ultimately show ?thesis
      using b by (simp add: brelse_def holdingsleep_eq [OF assms(1)] releasesleep_eq [OF assms(1)]
          calm_section(1) [where p = p] lock_simps Let_def uf calm_section(2) [OF tf(4)])
  qed
  moreover have "only_io s t"
  proof (rule only_io_trans)
    show "only_io s u" by (rule only_ioI) (simp add: u_def sleep_freed_def set_buf_def set_sleeplock_def)
    have "u\<lparr>bufs := bufs t\<rparr> = u\<lparr>bufs := bufs t, sleeplocks := sleeplocks u, memdisk := memdisk u, hist := hist u\<rparr>" by simp
    from trans [OF tu this] show "only_io u t" unfolding only_io_def by (intro exI)
  qed
  moreover have "content t = content s" "pinned t = pinned s"
    by (rule dirty_at_cong; simp add: is_dirty_def core uf(2) tf)+
  moreover have "cache_ok (H - {b}) t"
  proof -
    obtain xs where "ring (bufs s) xs" using assms(2) by (auto simp: cache_ok_def)
    from ring_cong [OF this, of "bufs u"] have "ring (bufs u) xs" by (simp add: uf)
    then have "\<exists>ys. ring (bufs t) ys" unfolding t_def by (rule unlink_front_ring [OF _ b(1)])
    moreover have "one_copy (bufs t)" using assms(2) by (simp add: cache_ok_def one_copy_def core)
    moreover have "buf_ok (memdisk t) (bufs t x)" if "x < NBUF" for x
      using assms(2) that by (simp add: cache_ok_def buf_ok_def is_valid_def is_dirty_def core uf(2) tf)
    ultimately show ?thesis using assms(2) by (auto simp: cache_ok_def core uf(4) tf)
  qed
  ultimately show ?thesis by (auto simp: released_block_def core uf(2,3) tf)
qed

end
