(* ===== verification/Crash.thy ===== *)
theory Crash
  imports Bcache
begin

text \<open>
  Crash safety of the log. A transaction is committed by a sequence of disk writes; the system may
  stop after any of them. The history of the disk in \<open>Bcache\<close> has the disk after each write, and
  recovery is run on it with an empty cache.
\<close>

section \<open>Sequences of disk writes\<close>

type_synonym disk = "uint \<Rightarrow> uchar list"

definition apply_writes :: "(uint \<times> uchar list) list \<Rightarrow> disk \<Rightarrow> disk" where
  "apply_writes ws d = fold (\<lambda>(b, v) d. d(b := v)) ws d"

lemma apply_writes_simps [simp]:
  "apply_writes [] d = d" "apply_writes ((b, v) # ws) d = apply_writes ws (d(b := v))"
  "apply_writes (ws @ vs) d = apply_writes vs (apply_writes ws d)"
  by (simp_all add: apply_writes_def)

lemma apply_writes_other: "x \<notin> fst ` set ws \<Longrightarrow> apply_writes ws d x = d x"
  by (induction ws arbitrary: d) auto

lemma apply_writes_at:
  assumes "inj_on f (set xs)" "i \<in> set xs"
  shows "apply_writes (map (\<lambda>i. (f i, g i)) xs) d (f i) = g i"
  using assms
proof (induction xs rule: rev_induct)
  case (snoc x xs)
  show ?case
  proof (cases "i = x")
    case False
    then have "f i \<noteq> f x" using snoc.prems by (auto simp: inj_on_def)
    with False snoc show ?thesis by (auto elim: inj_on_subset)
  qed simp
qed simp

text \<open>The disks one after another while the blocks \<open>ws\<close> are written.\<close>

fun disks :: "(uint \<times> uchar list) list \<Rightarrow> disk \<Rightarrow> disk set" where
  "disks [] d = {d}"
| "disks ((b, v) # ws) d = insert d (disks ws (d(b := v)))"

lemma disks_first: "d \<in> disks ws d"
  by (cases "(ws, d)" rule: disks.cases) auto

lemma disks_last: "apply_writes ws d \<in> disks ws d"
  by (induction ws d rule: disks.induct) (auto simp: fun_upd_def)

lemma disks_append: "disks (ws @ vs) d = disks ws d \<union> disks vs (apply_writes ws d)"
  by (induction ws d rule: disks.induct) (use disks_first in \<open>auto simp: fun_upd_def\<close>)

text \<open>
  A run of the code that writes the blocks \<open>ws\<close>, in this order: the entries it adds to the history
  are exactly the disks while they are written.
\<close>

definition disk_writes :: "'z hist_state_scheme \<Rightarrow> (uint \<times> uchar list) list \<Rightarrow> 'z hist_state_scheme \<Rightarrow> bool" where
  "disk_writes s ws t \<longleftrightarrow> memdisk t = apply_writes ws (memdisk s)
     \<and> (\<exists>h. hist t = hist s @ h \<and> insert (memdisk s) (set h) = disks ws (memdisk s))"

lemma disk_writes_trans:
  assumes "disk_writes s ws t" "disk_writes t vs u"
  shows "disk_writes s (ws @ vs) u"
proof -
  obtain h h' where h: "hist t = hist s @ h" "insert (memdisk s) (set h) = disks ws (memdisk s)"
    and h': "hist u = hist t @ h'" "insert (memdisk t) (set h') = disks vs (memdisk t)"
    using assms by (auto simp: disk_writes_def)
  have "memdisk t \<in> insert (memdisk s) (set h)"
    unfolding h(2) using assms(1) disks_last [of ws "memdisk s"] by (simp add: disk_writes_def)
  then have "insert (memdisk s) (set (h @ h')) = insert (memdisk s) (set h) \<union> insert (memdisk t) (set h')" by auto
  also have "\<dots> = disks (ws @ vs) (memdisk s)" unfolding h(2) h'(2) using assms(1) by (simp add: disks_append disk_writes_def)
  finally have "\<exists>h. hist u = hist s @ h \<and> insert (memdisk s) (set h) = disks (ws @ vs) (memdisk s)"
    using h(1) h'(1) by (intro exI [of _ "h @ h'"]) simp
  then show ?thesis using assms by (simp add: disk_writes_def)
qed

text \<open>A run that moreover changes nothing but the disk and the cache, and whose writes reach the cache as well.\<close>

definition wrote :: "'z hist_state_scheme \<Rightarrow> (uint \<times> uchar list) list \<Rightarrow> 'z hist_state_scheme \<Rightarrow> bool" where
  "wrote s ws t \<longleftrightarrow> only_io s t \<and> cache_ok {} t \<and> content t = apply_writes ws (content s)
     \<and> pinned t = pinned s - fst ` set ws \<and> disk_writes s ws t"

lemma wrote_trans:
  assumes "wrote s ws t" "wrote t vs u"
  shows "wrote s (ws @ vs) u"
  using assms disk_writes_trans [of s ws t vs u] only_io_trans [of s t u] by (auto simp: wrote_def)

lemma wrote_loop:
  assumes "cache_ok {} s" "\<And>ys y zs u. xs = ys @ y # zs \<Longrightarrow> wrote s (map w ys) u \<Longrightarrow> \<exists>v. f y u = Inr v \<and> wrote u [w y] v"
  shows "\<exists>t. for_each f xs s = Inr t \<and> wrote s (map w xs) t"
  using assms(2)
proof (induction xs rule: rev_induct)
  case Nil
  have "only_io s s" by (rule only_ioI) simp
  with assms(1) show ?case by (simp add: wrote_def disk_writes_def)
next
  case (snoc x xs)
  have "\<exists>t. for_each f xs s = Inr t \<and> wrote s (map w xs) t"
    by (rule snoc.IH) (use snoc.prems in auto)
  then obtain u where u: "for_each f xs s = Inr u" "wrote s (map w xs) u" by blast
  obtain v where v: "f x u = Inr v" "wrote u [w x] v" using snoc.prems [of xs x "[]" u] u(2) by auto
  then show ?case using u wrote_trans [OF u(2) v(2)] by (simp add: for_each_append)
qed

section \<open>The steps of the log\<close>

lemma wrote_one:
  assumes "only_io u t" "cache_ok {} t" "memdisk t = (memdisk u)(blk := d)" "content t = (content u)(blk := d)"
    and "pinned t = pinned u - {blk}" "hist t = hist u @ [memdisk t]"
  shows "wrote u [(blk, d)] t"
proof -
  have "\<exists>h. hist t = hist u @ h \<and> insert (memdisk u) (set h) = disks [(blk, d)] (memdisk u)"
    using assms(3,6) by (intro exI [of _ "[memdisk t]"]) simp
  with assms(1-5) show ?thesis unfolding wrote_def disk_writes_def by simp
qed

lemma write_release:
  assumes "calm c p u" "cache_ok {a, b} u" "a \<noteq> b" "b_dev (bufs u a) = 1" "b_blockno (bufs u a) = blk" "blk < disksize u"
  shows "\<exists>t. bnd (bwrite (rec_env others) a (set_data a d u)) (\<lambda>s. bnd (brelse b s) (\<lambda>s. brelse a s)) = Inr t \<and> wrote u [(blk, d)] t"
proof -
  obtain v where v: "bwrite (rec_env others) a (set_data a d u) = Inr v" "wrote_block {a, b} a d u v"
    using bwrite_spec [OF assms(1,2), of a others d] assms(4-6) by auto
  then have v': "only_io u v" "cache_ok {a, b} v" by (simp_all add: wrote_block_def)
  obtain w where w: "brelse b v = Inr w" "released_block {a, b} b v w"
    using brelse_spec [of c p v "{a, b}" b] only_ioD(1) [OF v'(1)] v'(2) assms(1) by auto
  then have w': "only_io v w" "cache_ok {a} w" using assms(3) by (auto simp: released_block_def insert_Diff_if)
  obtain t where t: "brelse a w = Inr t" "released_block {a} a w t"
    using brelse_spec [of c p w "{a}" a] only_ioD(1) [OF v'(1)] only_ioD(1) [OF w'(1)] w'(2) assms(1) by auto
  have "only_io u t" using only_io_trans [OF only_io_trans [OF v'(1) w'(1)]] t(2) by (simp add: released_block_def)
  then have "wrote u [(blk, d)] t"
    by (rule wrote_one) (use v(2) w(2) t(2) assms(5) in \<open>simp_all add: wrote_block_def released_block_def\<close>)
  then show ?thesis using v(1) w(1) t(1) by simp
qed

text \<open>Two blocks are read, the contents of one are copied to the other, and the other is written.\<close>

lemma read_two:
  assumes "calm c p s" "cache_ok {} s" "x \<noteq> y" "x < disksize s" "y < disksize s"
    and "x \<in> pinned s \<or> card (pinned s) < NBUF" "y \<in> pinned s \<or> card (pinned s) + 1 < NBUF"
  obtains a u b v where "bread (rec_env others) 1 x s = Inr (a, u)" "bread (rec_env others) 1 y u = Inr (b, v)"
    "only_io s u" "only_io s v" "cache_ok {a, b} v" "a \<noteq> b" "b_dev (bufs v a) = 1" "b_dev (bufs v b) = 1"
    "b_blockno (bufs v a) = x" "b_blockno (bufs v b) = y" "b_data (bufs v a) = content s x" "b_data (bufs v b) = content s y"
    "memdisk v = memdisk s" "content v = content s" "pinned v = pinned s" "\<exists>h. hist v = hist s @ h \<and> set h \<subseteq> {memdisk s}"
proof -
  obtain a u where a: "bread (rec_env others) 1 x s = Inr (a, u)" "read_block {} x s a u"
    using bread_spec [OF assms(1,2), of x others] assms(4,6) by auto
  then have u: "only_io s u" "cache_ok {a} u" "b_dev (bufs u a) = 1" "b_blockno (bufs u a) = x" "b_data (bufs u a) = content s x"
    "memdisk u = memdisk s" "content u = content s" "pinned u = pinned s" "\<exists>h. hist u = hist s @ h \<and> set h \<subseteq> {memdisk s}"
    by (simp_all add: read_block_def)
  have "\<exists>b t. bread (rec_env others) 1 y u = Inr (b, t) \<and> read_block {a} y u b t"
    by (rule bread_spec [of c p]) (use assms u only_ioD [OF u(1)] in auto)
  then obtain b v where b: "bread (rec_env others) 1 y u = Inr (b, v)" "read_block {a} y u b v" by blast
  then have v: "only_io u v" "cache_ok {a, b} v" "b \<noteq> a" "b_dev (bufs v b) = 1" "b_blockno (bufs v b) = y"
    "b_data (bufs v b) = content u y" "bufs v a = bufs u a" "memdisk v = memdisk u" "content v = content u" "pinned v = pinned u"
    "\<exists>h. hist v = hist u @ h \<and> set h \<subseteq> {memdisk u}"
    by (simp_all add: read_block_def insert_commute)
  have "\<exists>h. hist v = hist s @ h \<and> set h \<subseteq> {memdisk s}"
  proof -
    obtain h h' where "hist u = hist s @ h" "set h \<subseteq> {memdisk s}" "hist v = hist u @ h'" "set h' \<subseteq> {memdisk s}"
      using u(6,9) v(11) by auto
    then show ?thesis by (intro exI [of _ "h @ h'"]) simp
  qed
  then show ?thesis
    using a(1) b(1) u v only_io_trans [OF u(1) v(1)] by (intro that [of a u b v]) simp_all
qed

lemma wrote_after_reads:
  assumes "only_io s v" "memdisk v = memdisk s" "content v = content s" "pinned v = pinned s"
    and "\<exists>h. hist v = hist s @ h \<and> set h \<subseteq> {memdisk s}" "wrote v ws t"
  shows "wrote s ws t"
proof -
  have "disk_writes s [] v" using assms(2,5) by (auto simp: disk_writes_def)
  then have "disk_writes s ([] @ ws) t" by (rule disk_writes_trans) (use assms(6) in \<open>simp add: wrote_def\<close>)
  then show ?thesis using assms only_io_trans [OF assms(1)] by (simp add: wrote_def)
qed

lemma write_log_one_spec:
  assumes "calm c p s" "cache_ok {} s" "lg_dev s = 1" "log_blockno s i \<noteq> home_blockno s i"
    and "log_blockno s i < disksize s" "home_blockno s i < disksize s" "card (pinned s) < NBUF" "home_blockno s i \<in> pinned s"
  shows "\<exists>t. write_log_one (rec_env others) i s = Inr t \<and> wrote s [(log_blockno s i, content s (home_blockno s i))] t"
proof -
  obtain a u b v where r: "bread (rec_env others) 1 (log_blockno s i) s = Inr (a, u)" "bread (rec_env others) 1 (home_blockno s i) u = Inr (b, v)"
    "only_io s u" "only_io s v" "cache_ok {a, b} v" "a \<noteq> b" "b_dev (bufs v a) = 1" "b_dev (bufs v b) = 1"
    "b_blockno (bufs v a) = log_blockno s i" "b_blockno (bufs v b) = home_blockno s i"
    "b_data (bufs v a) = content s (log_blockno s i)" "b_data (bufs v b) = content s (home_blockno s i)"
    "memdisk v = memdisk s" "content v = content s" "pinned v = pinned s" "\<exists>h. hist v = hist s @ h \<and> set h \<subseteq> {memdisk s}"
    by (rule read_two [OF assms(1,2,4,5,6), of others]) (use assms(7,8) in auto)
  have "\<exists>t. bnd (bwrite (rec_env others) a (set_data a (b_data (bufs v b)) v)) (\<lambda>s. bnd (brelse b s) (\<lambda>s. brelse a s)) = Inr t
      \<and> wrote v [(log_blockno s i, b_data (bufs v b))] t"
    by (rule write_release [of c p]) (use r assms only_ioD [OF r(4)] in auto)
  then obtain t where t: "bnd (bwrite (rec_env others) a (set_data a (b_data (bufs v b)) v)) (\<lambda>s. bnd (brelse b s) (\<lambda>s. brelse a s)) = Inr t"
    "wrote v [(log_blockno s i, b_data (bufs v b))] t" by blast
  have "lg_dev u = 1" "home_blockno u i = home_blockno s i"
    using only_ioD [OF r(3)] assms(3) by (simp_all add: home_blockno_def)
  then have "write_log_one (rec_env others) i s = Inr t"
    using r(1,2) t(1) assms(3) by (simp add: write_log_one_def Let_def)
  then show ?thesis using wrote_after_reads [OF r(4) r(13-16) t(2)] r(12) by auto
qed

lemma install_one_spec:
  assumes "calm c p s" "cache_ok {} s" "lg_dev s = 1" "log_blockno s i \<noteq> home_blockno s i"
    and "log_blockno s i < disksize s" "home_blockno s i < disksize s" "card (pinned s) < NBUF"
    and "home_blockno s i \<in> pinned s \<or> card (pinned s) + 1 < NBUF"
  shows "\<exists>t. install_one (rec_env others) i s = Inr t \<and> wrote s [(home_blockno s i, content s (log_blockno s i))] t"
proof -
  obtain a u b v where r: "bread (rec_env others) 1 (log_blockno s i) s = Inr (a, u)" "bread (rec_env others) 1 (home_blockno s i) u = Inr (b, v)"
    "only_io s u" "only_io s v" "cache_ok {a, b} v" "a \<noteq> b" "b_dev (bufs v a) = 1" "b_dev (bufs v b) = 1"
    "b_blockno (bufs v a) = log_blockno s i" "b_blockno (bufs v b) = home_blockno s i"
    "b_data (bufs v a) = content s (log_blockno s i)" "b_data (bufs v b) = content s (home_blockno s i)"
    "memdisk v = memdisk s" "content v = content s" "pinned v = pinned s" "\<exists>h. hist v = hist s @ h \<and> set h \<subseteq> {memdisk s}"
    by (rule read_two [OF assms(1,2,4,5,6), of others]) (use assms(7,8) in auto)
  have "\<exists>t. bnd (bwrite (rec_env others) b (set_data b (b_data (bufs v a)) v)) (\<lambda>s. bnd (brelse a s) (\<lambda>s. brelse b s)) = Inr t
      \<and> wrote v [(home_blockno s i, b_data (bufs v a))] t"
    by (rule write_release [of c p]) (use r assms only_ioD [OF r(4)] in \<open>auto simp: insert_commute\<close>)
  then obtain t where t: "bnd (bwrite (rec_env others) b (set_data b (b_data (bufs v a)) v)) (\<lambda>s. bnd (brelse a s) (\<lambda>s. brelse b s)) = Inr t"
    "wrote v [(home_blockno s i, b_data (bufs v a))] t" by blast
  have "lg_dev u = 1" "home_blockno u i = home_blockno s i"
    using only_ioD [OF r(3)] assms(3) by (simp_all add: home_blockno_def)
  then have "install_one (rec_env others) i s = Inr t"
    using r(1,2) t(1) assms(3) by (simp add: install_one_def Let_def)
  then show ?thesis using wrote_after_reads [OF r(4) r(13-16) t(2)] r(11) by auto
qed

definition new_head :: "'z log_state_scheme \<Rightarrow> uchar list \<Rightarrow> uchar list" where
  "new_head s d = put_head [0..lh_n s - 1] (lh_block s) (put32 d 0 (word_of_int (lh_n s)))"

lemma write_head_spec:
  assumes "calm c p s" "cache_ok {} s" "lg_dev s = 1" "word_of_int (lg_start s) < disksize s" "card (pinned s) < NBUF"
  shows "\<exists>t. write_head (rec_env others) s = Inr t
    \<and> wrote s [(word_of_int (lg_start s), new_head s (content s (word_of_int (lg_start s))))] t"
proof -
  let ?h = "word_of_int (lg_start s) :: uint"
  obtain b u where r: "bread (rec_env others) 1 ?h s = Inr (b, u)" "read_block {} ?h s b u"
    using bread_spec [OF assms(1,2), of ?h others] assms(4,5) by auto
  then have u: "only_io s u" "cache_ok {b} u" "b_dev (bufs u b) = 1" "b_blockno (bufs u b) = ?h" "b_data (bufs u b) = content s ?h"
    "memdisk u = memdisk s" "content u = content s" "pinned u = pinned s" "\<exists>h. hist u = hist s @ h \<and> set h \<subseteq> {memdisk s}"
    by (simp_all add: read_block_def)
  let ?d = "new_head s (content s ?h)"
  obtain v where v: "bwrite (rec_env others) b (set_data b ?d u) = Inr v" "wrote_block {b} b ?d u v"
    using bwrite_spec [of c p u "{b}" b others ?d] u assms only_ioD [OF u(1)] by auto
  then have v': "only_io u v" "cache_ok {b} v" by (simp_all add: wrote_block_def)
  obtain t where t: "brelse b v = Inr t" "released_block {b} b v t"
    using brelse_spec [of c p v "{b}" b] v'(2) assms(1) only_ioD(1) [OF u(1)] only_ioD(1) [OF v'(1)] by auto
  have "only_io u t" using only_io_trans [OF v'(1)] t(2) by (simp add: released_block_def)
  then have "wrote u [(?h, ?d)] t"
    by (rule wrote_one) (use v(2) t(2) u(4) in \<open>simp_all add: wrote_block_def released_block_def\<close>)
  moreover have "write_head (rec_env others) s = Inr t"
    using r(1) v(1) t(1) u(5) assms(3) only_ioD [OF u(1)] by (simp add: write_head_def Let_def new_head_def)
  ultimately show ?thesis using wrote_after_reads [OF u(1,6,7,8,9)] by blast
qed

section \<open>Where the log lies\<close>

text \<open>
  The header and the log are one region of \<open>lg_size\<close> blocks of the disk, and the blocks in the
  in-memory header are distinct blocks outside of it; there are fewer of them than blocks of the region.
\<close>

definition outside_log :: "'z log_state_scheme \<Rightarrow> uint \<Rightarrow> bool" where
  "outside_log s b \<longleftrightarrow> uint b < lg_start s \<or> lg_start s + lg_size s \<le> uint b"

definition log_layout :: "'z log_state_scheme \<Rightarrow> bool" where
  "log_layout s \<longleftrightarrow> lg_dev s = 1 \<and> 0 \<le> lg_start s \<and> lg_start s + lg_size s \<le> uint (disksize s) \<and> uint (disksize s) < 2 ^ 31
     \<and> 0 \<le> lh_n s \<and> lh_n s \<le> LOGSIZE \<and> lh_n s < lg_size s \<and> inj_on (lh_block s) {0..lh_n s - 1}
     \<and> (\<forall>i\<in>{0..lh_n s - 1}. 0 \<le> lh_block s i \<and> lh_block s i < uint (disksize s)
          \<and> (lh_block s i < lg_start s \<or> lg_start s + lg_size s \<le> lh_block s i))"

lemma uint_of_int: "0 \<le> x \<Longrightarrow> x < 2 ^ 32 \<Longrightarrow> uint (word_of_int x :: uint) = x"
  by (simp add: uint_word_of_int)

lemma log_layout_uint:
  assumes "log_layout s"
  shows "uint (word_of_int (lg_start s) :: uint) = lg_start s"
    "i \<in> {0..lh_n s - 1} \<Longrightarrow> uint (log_blockno s i) = lg_start s + i + 1"
    "i \<in> {0..lh_n s - 1} \<Longrightarrow> uint (home_blockno s i) = lh_block s i"
proof -
  have l: "0 \<le> lg_start s" "lg_start s + lg_size s \<le> uint (disksize s)" "uint (disksize s) < 2 ^ 31" "lh_n s < lg_size s" "0 \<le> lh_n s"
    using assms by (simp_all add: log_layout_def)
  show "uint (word_of_int (lg_start s) :: uint) = lg_start s" by (rule uint_of_int) (use l in simp_all)
  show "uint (log_blockno s i) = lg_start s + i + 1" if "i \<in> {0..lh_n s - 1}"
    unfolding log_blockno_def by (rule uint_of_int) (use l that in simp_all)
  show "uint (home_blockno s i) = lh_block s i" if "i \<in> {0..lh_n s - 1}"
  proof -
    have "0 \<le> lh_block s i" "lh_block s i < uint (disksize s)" using assms that by (simp_all add: log_layout_def)
    then show ?thesis unfolding home_blockno_def using l(3) by (intro uint_of_int) simp_all
  qed
qed

lemma log_layoutD:
  assumes "log_layout s"
  shows "word_of_int (lg_start s) < disksize s"
    "i \<in> {0..lh_n s - 1} \<Longrightarrow> log_blockno s i < disksize s" "i \<in> {0..lh_n s - 1} \<Longrightarrow> home_blockno s i < disksize s"
    "i \<in> {0..lh_n s - 1} \<Longrightarrow> j \<in> {0..lh_n s - 1} \<Longrightarrow> log_blockno s i \<noteq> home_blockno s j"
    "i \<in> {0..lh_n s - 1} \<Longrightarrow> log_blockno s i \<noteq> word_of_int (lg_start s)"
    "i \<in> {0..lh_n s - 1} \<Longrightarrow> home_blockno s i \<noteq> word_of_int (lg_start s)"
    "inj_on (log_blockno s) {0..lh_n s - 1}" "inj_on (home_blockno s) {0..lh_n s - 1}"
    "i \<in> {0..lh_n s - 1} \<Longrightarrow> \<not> outside_log s (log_blockno s i)" "\<not> outside_log s (word_of_int (lg_start s))"
proof -
  note u = log_layout_uint [OF assms]
  have l: "0 \<le> lg_start s" "lg_start s + lg_size s \<le> uint (disksize s)" "lh_n s < lg_size s" "0 \<le> lh_n s" "inj_on (lh_block s) {0..lh_n s - 1}"
    using assms by (simp_all add: log_layout_def)
  have h: "0 \<le> lh_block s i \<and> lh_block s i < uint (disksize s) \<and> (lh_block s i < lg_start s \<or> lg_start s + lg_size s \<le> lh_block s i)"
    if "i \<in> {0..lh_n s - 1}" for i
    using assms that by (simp add: log_layout_def)
  show "word_of_int (lg_start s) < disksize s" "\<not> outside_log s (word_of_int (lg_start s))"
    using l by (simp_all add: word_less_def u(1) outside_log_def)
  show "inj_on (log_blockno s) {0..lh_n s - 1}" "inj_on (home_blockno s) {0..lh_n s - 1}"
    using l(5) by (auto simp: inj_on_def dest!: arg_cong [of _ _ uint] simp: u)
  show "log_blockno s i < disksize s" "log_blockno s i \<noteq> word_of_int (lg_start s)" "\<not> outside_log s (log_blockno s i)"
    "home_blockno s i < disksize s" "home_blockno s i \<noteq> word_of_int (lg_start s)" if "i \<in> {0..lh_n s - 1}"
    using l h [OF that] that u(2,3) [OF that] by (auto simp: word_less_def word_uint_eq_iff u(1) outside_log_def)
  show "log_blockno s i \<noteq> home_blockno s j" if "i \<in> {0..lh_n s - 1}" "j \<in> {0..lh_n s - 1}"
    using l h [OF that(2)] that u(2) [OF that(1)] u(3) [OF that(2)] by (auto simp: word_uint_eq_iff)
qed

lemma only_io_layout:
  assumes "only_io s t"
  shows "log_layout t = log_layout s" "log_blockno t = log_blockno s" "home_blockno t = home_blockno s"
  using only_ioD [OF assms] by (simp_all add: log_layout_def log_blockno_def [abs_def] home_blockno_def [abs_def])

lemma finite_pinned: "finite (pinned s)"
proof -
  have "pinned s \<subseteq> (\<lambda>b. b_blockno (bufs s b)) ` {..<NBUF}" by (auto simp: pinned_iff)
  then show ?thesis by (rule finite_subset) simp
qed

lemma wrote_card: "wrote s ws t \<Longrightarrow> card (pinned t) \<le> card (pinned s)"
  using finite_pinned by (auto simp: wrote_def intro: card_mono)

section \<open>Commit as a sequence of writes\<close>

lemma write_log_spec:
  assumes "calm c p s" "cache_ok {} s" "log_layout s" "home_blockno s ` {0..lh_n s - 1} \<subseteq> pinned s" "card (pinned s) < NBUF"
    and "\<And>i. i \<in> {0..lh_n s - 1} \<Longrightarrow> log_blockno s i \<notin> pinned s"
  shows "\<exists>t. write_log (rec_env others) s = Inr t
    \<and> wrote s (map (\<lambda>i. (log_blockno s i, content s (home_blockno s i))) [0..lh_n s - 1]) t"
  unfolding write_log_def
proof (rule wrote_loop [OF assms(2)])
  fix ys y zs u
  let ?w = "\<lambda>i. (log_blockno s i, content s (home_blockno s i))"
  assume xs: "[0..lh_n s - 1] = ys @ y # zs" and u: "wrote s (map ?w ys) u"
  then have s: "set ys \<subseteq> {0..lh_n s - 1}" "y \<in> {0..lh_n s - 1}"
    by (metis Un_subset_iff set_append set_upto subset_refl, metis in_set_conv_decomp set_upto)
  note l = log_layoutD [OF assms(3)]
  have io: "only_io s u" "cache_ok {} u" using u by (simp_all add: wrote_def)
  note f = only_ioD [OF io(1)] only_io_layout [OF io(1)]
  have dev: "lg_dev s = 1" using assms(3) by (simp add: log_layout_def)
  have p: "pinned u = pinned s" using u assms(6) s(1) by (auto simp: wrote_def)
  have hy: "home_blockno s y \<in> pinned s" using assms(4) s(2) by blast
  have cu: "content u (home_blockno s y) = content s (home_blockno s y)"
    using u l(4) s apply_writes_other [of "home_blockno s y" "map ?w ys" "content s"] by (force simp: wrote_def)
  have "\<exists>v. write_log_one (rec_env others) y u = Inr v \<and> wrote u [(log_blockno u y, content u (home_blockno u y))] v"
    by (rule write_log_one_spec [of c p])
      (use assms(1,5) io(2) dev l(2,3) [OF s(2)] l(4) [OF s(2) s(2)] hy in \<open>simp_all add: f p\<close>)
  then show "\<exists>v. write_log_one (rec_env others) y u = Inr v \<and> wrote u [?w y] v"
    by (simp add: f cu)
qed

lemma install_spec:
  assumes "calm c p s" "cache_ok {} s" "log_layout s" "card (pinned s) < NBUF"
    and "home_blockno s ` {0..lh_n s - 1} \<subseteq> pinned s \<or> card (pinned s) + 1 < NBUF"
  shows "\<exists>t. install_trans (rec_env others) s = Inr t
    \<and> wrote s (map (\<lambda>i. (home_blockno s i, content s (log_blockno s i))) [0..lh_n s - 1]) t"
  unfolding install_trans_def
proof (rule wrote_loop [OF assms(2)])
  fix ys y zs u
  let ?w = "\<lambda>i. (home_blockno s i, content s (log_blockno s i))"
  assume xs: "[0..lh_n s - 1] = ys @ y # zs" and u: "wrote s (map ?w ys) u"
  then have s: "set ys \<subseteq> {0..lh_n s - 1}" "y \<in> {0..lh_n s - 1}" "y \<notin> set ys"
    using distinct_upto [of 0 "lh_n s - 1"]
    by (metis Un_subset_iff set_append set_upto subset_refl, metis in_set_conv_decomp set_upto, simp)
  note l = log_layoutD [OF assms(3)]
  have io: "only_io s u" "cache_ok {} u" using u by (simp_all add: wrote_def)
  note f = only_ioD [OF io(1)] only_io_layout [OF io(1)]
  have dev: "lg_dev s = 1" using assms(3) by (simp add: log_layout_def)
  have c: "card (pinned u) \<le> card (pinned s)" by (rule wrote_card [OF u])
  have hy: "home_blockno s y \<notin> home_blockno s ` set ys" using inj_on_image_mem_iff [OF l(8) s(2,1)] s(3) by simp
  have p: "home_blockno s y \<in> pinned u \<or> card (pinned u) + 1 < NBUF"
    using assms(5) c u hy s(2) by (auto simp: wrote_def)
  have cu: "content u (log_blockno s y) = content s (log_blockno s y)"
    using u l(4) s apply_writes_other [of "log_blockno s y" "map ?w ys" "content s"] by (force simp: wrote_def)
  have "\<exists>v. install_one (rec_env others) y u = Inr v \<and> wrote u [(home_blockno u y, content u (log_blockno u y))] v"
    by (rule install_one_spec [of c p])
      (use assms(1,4) c io(2) dev l(2,3) [OF s(2)] l(4) [OF s(2) s(2)] p in \<open>simp_all add: f\<close>)
  then show "\<exists>v. install_one (rec_env others) y u = Inr v \<and> wrote u [?w y] v"
    by (simp add: f cu)
qed

lemma lh_frames [simp]:
  "calm c p (s\<lparr>lh_n := n\<rparr>) = calm c p s" "calm c p (s\<lparr>lh_block := f\<rparr>) = calm c p s"
  "cache_ok H (s\<lparr>lh_n := n\<rparr>) = cache_ok H s" "cache_ok H (s\<lparr>lh_block := f\<rparr>) = cache_ok H s"
  "content (s\<lparr>lh_n := n\<rparr>) = content s" "content (s\<lparr>lh_block := f\<rparr>) = content s"
  "pinned (s\<lparr>lh_n := n\<rparr>) = pinned s" "pinned (s\<lparr>lh_block := f\<rparr>) = pinned s"
  by (rule calm_cong; simp)+ (simp_all add: cache_ok_def, (rule dirty_at_cong; simp)+)

lemma length_put_head [simp]: "length (put_head is f d) = length d"
  by (induction "is" f d rule: put_head.induct) simp_all

lemma put_head_other:
  "(\<And>j. j \<in> set is \<Longrightarrow> 0 \<le> j \<and> (k + 4 \<le> nat (4 + 4 * j) \<or> nat (4 + 4 * j) + 4 \<le> k)) \<Longrightarrow> get32 (put_head is f d) k = get32 d k"
  by (induction "is" f d rule: put_head.induct) (simp_all add: get32_put32_other)

lemma put_head_at:
  "i \<in> set is \<Longrightarrow> distinct is \<Longrightarrow> (\<And>j. j \<in> set is \<Longrightarrow> 0 \<le> j \<and> nat (4 + 4 * j) + 3 < length d) \<Longrightarrow>
   get32 (put_head is f d) (nat (4 + 4 * i)) = word_of_int (f i)"
proof (induction "is" f d rule: put_head.induct)
  case (2 j js f d)
  show ?case
  proof (cases "i = j")
    case True
    have "get32 (put_head js f (put32 d (nat (4 + 4 * j)) (word_of_int (f j)))) (nat (4 + 4 * i))
        = get32 (put32 d (nat (4 + 4 * j)) (word_of_int (f j))) (nat (4 + 4 * i))"
    proof (rule put_head_other)
      fix x
      assume "x \<in> set js"
      then have "0 \<le> x" "x \<noteq> i" "0 \<le> i" using 2(3,4) True by auto
      then show "0 \<le> x \<and> (nat (4 + 4 * i) + 4 \<le> nat (4 + 4 * x) \<or> nat (4 + 4 * x) + 4 \<le> nat (4 + 4 * i))" by auto
    qed
    with True 2(4) show ?thesis by (simp add: get32_put32)
  next
    case False
    with 2 show ?thesis by simp
  qed
qed simp

lemma new_head_read:
  assumes "length d = BSIZE" "0 \<le> lh_n s" "lh_n s \<le> LOGSIZE"
  shows "head_n (new_head s d) = lh_n s" "i \<in> {0..lh_n s - 1} \<Longrightarrow> head_block (new_head s d) i = sint (word_of_int (lh_block s i) :: uint)"
    "length (new_head s d) = BSIZE"
proof -
  have n: "sint (word_of_int (lh_n s) :: uint) = lh_n s"
    using assms(2,3) uint_of_int [of "lh_n s"] by (simp add: sint_cases LOGSIZE_def MAXOPBLOCKS_def)
  have "get32 (new_head s d) 0 = get32 (put32 d 0 (word_of_int (lh_n s))) 0"
    unfolding new_head_def by (rule put_head_other) auto
  then show "head_n (new_head s d) = lh_n s" using n assms(1) by (simp add: head_n_def get32_put32 BSIZE_def)
  have "get32 (new_head s d) (nat (4 + 4 * i)) = word_of_int (lh_block s i)" if "i \<in> {0..lh_n s - 1}"
    unfolding new_head_def
    by (rule put_head_at) (use that assms in \<open>auto simp: BSIZE_def LOGSIZE_def MAXOPBLOCKS_def\<close>)
  then show "i \<in> {0..lh_n s - 1} \<Longrightarrow> head_block (new_head s d) i = sint (word_of_int (lh_block s i) :: uint)"
    by (simp add: head_block_def)
  show "length (new_head s d) = BSIZE" using assms(1) by (simp add: new_head_def)
qed

text \<open>The writes of a commit: the log, the header, the home blocks, and the empty header.\<close>

definition log_part :: "'z hist_state_scheme \<Rightarrow> (uint \<times> uchar list) list" where
  "log_part s = map (\<lambda>i. (log_blockno s i, content s (home_blockno s i))) [0..lh_n s - 1]"

definition home_part :: "'z hist_state_scheme \<Rightarrow> (uint \<times> uchar list) list" where
  "home_part s = map (\<lambda>i. (home_blockno s i, content s (home_blockno s i))) [0..lh_n s - 1]"

definition header :: "'z log_state_scheme \<Rightarrow> uint" where
  "header s = word_of_int (lg_start s)"

definition full_head :: "'z hist_state_scheme \<Rightarrow> uchar list" where
  "full_head s = new_head s (content s (header s))"

definition commit_writes :: "'z hist_state_scheme \<Rightarrow> (uint \<times> uchar list) list" where
  "commit_writes s = log_part s @ (header s, full_head s) # home_part s @ [(header s, new_head (s\<lparr>lh_n := 0\<rparr>) (full_head s))]"

text \<open>A transaction that is about to commit: its blocks, and only they, are pinned in the cache.\<close>

definition ready_to_commit :: "nat \<Rightarrow> nat \<Rightarrow> 'z hist_state_scheme \<Rightarrow> bool" where
  "ready_to_commit c p s \<longleftrightarrow> calm c p s \<and> cache_ok {} s \<and> log_layout s \<and> 0 < lh_n s \<and> lh_n s < int NBUF
     \<and> pinned s = home_blockno s ` {0..lh_n s - 1}"

lemma ready_pinned:
  assumes "ready_to_commit c p s"
  shows "card (pinned s) < NBUF" "i \<in> {0..lh_n s - 1} \<Longrightarrow> log_blockno s i \<notin> pinned s" "header s \<notin> pinned s"
proof -
  have r: "log_layout s" "lh_n s < int NBUF" "pinned s = home_blockno s ` {0..lh_n s - 1}" using assms by (simp_all add: ready_to_commit_def)
  have "card (pinned s) \<le> card {0..lh_n s - 1}" unfolding r(3) by (rule card_image_le) simp
  also have "\<dots> < NBUF" using r(2) by (simp add: NBUF_def)
  finally show "card (pinned s) < NBUF" .
  show "log_blockno s i \<notin> pinned s" if "i \<in> {0..lh_n s - 1}"
    unfolding r(3) using log_layoutD(4) [OF r(1) that] by blast
  show "header s \<notin> pinned s" unfolding r(3) header_def using log_layoutD(6) [OF r(1)] by (metis imageE)
qed

lemma commit_runs:
  assumes "ready_to_commit c p s"
  shows "\<exists>t. commit (rec_env others) s = Inr t \<and> disk_writes s (commit_writes s) t"
proof -
  let ?ev = "rec_env others"
  have r: "calm c p s" "cache_ok {} s" "log_layout s" "0 < lh_n s" "pinned s = home_blockno s ` {0..lh_n s - 1}"
    using assms by (simp_all add: ready_to_commit_def)
  note l = log_layoutD [OF r(3)]
  obtain t1 where t1: "write_log ?ev s = Inr t1" "wrote s (log_part s) t1"
    using write_log_spec [OF r(1-3) _ ready_pinned(1,2) [OF assms], of others] r(5) by (auto simp: log_part_def)
  have io1: "only_io s t1" "cache_ok {} t1" using t1(2) by (simp_all add: wrote_def)
  note f1 = only_ioD [OF io1(1)] only_io_layout [OF io1(1)]
  have "content t1 (header s) = content s (header s)"
    using t1(2) l(5) apply_writes_other [of "header s" "log_part s" "content s"] by (force simp: wrote_def log_part_def header_def)
  then have h1: "new_head t1 (content t1 (word_of_int (lg_start t1))) = full_head s"
    using f1 by (simp add: full_head_def new_head_def header_def)
  obtain t2 where t2: "write_head ?ev t1 = Inr t2" "wrote t1 [(header s, full_head s)] t2"
    using write_head_spec [of c p t1 others] h1 f1 r(1,3) l(1) io1(2) wrote_card [OF t1(2)] ready_pinned(1) [OF assms]
    by (auto simp: header_def log_layout_def)
  have w2: "wrote s (log_part s @ [(header s, full_head s)]) t2" by (rule wrote_trans [OF t1(2) t2(2)])
  have io2: "only_io s t2" "cache_ok {} t2" using w2 by (simp_all add: wrote_def)
  note f2 = only_ioD [OF io2(1)] only_io_layout [OF io2(1)]
  have p2: "pinned t2 = pinned s"
    using w2 ready_pinned(2,3) [OF assms] by (auto simp: wrote_def log_part_def)
  have c2: "content t2 (log_blockno s i) = content s (home_blockno s i)" if "i \<in> {0..lh_n s - 1}" for i
  proof -
    have "apply_writes (log_part s) (content s) (log_blockno s i) = content s (home_blockno s i)"
      unfolding log_part_def by (rule apply_writes_at) (use l(7) that in simp_all)
    then show ?thesis using w2 l(5) [OF that] by (simp add: wrote_def header_def)
  qed
  have "map (\<lambda>i. (home_blockno t2 i, content t2 (log_blockno t2 i))) [0..lh_n t2 - 1] = home_part s"
    using c2 by (simp add: home_part_def f2)
  then obtain t3 where t3: "install_trans ?ev t2 = Inr t3" "wrote t2 (home_part s) t3"
    using install_spec [of c p t2 others] f2 r io2(2) p2 ready_pinned(1) [OF assms] by auto
  have w3: "wrote s ((log_part s @ [(header s, full_head s)]) @ home_part s) t3" by (rule wrote_trans [OF w2 t3(2)])
  have io3: "only_io s t3" "cache_ok {} t3" using w3 by (simp_all add: wrote_def)
  note f3 = only_ioD [OF io3(1)] only_io_layout [OF io3(1)]
  have "header s \<notin> fst ` set (home_part s)"
  proof
    assume "header s \<in> fst ` set (home_part s)"
    then obtain i where "i \<in> {0..lh_n s - 1}" "home_blockno s i = header s" by (auto simp: home_part_def)
    with l(6) show False unfolding header_def by blast
  qed
  note nh = apply_writes_other [OF this]
  have "content t3 (header s) = full_head s"
    using w3 by (simp add: wrote_def nh)
  then have h3: "new_head (t3\<lparr>lh_n := 0\<rparr>) (content t3 (header s)) = new_head (s\<lparr>lh_n := 0\<rparr>) (full_head s)"
    by (simp add: new_head_def)
  have "card (pinned t3) < NBUF" using wrote_card [OF w3] ready_pinned(1) [OF assms] by simp
  then obtain t4 where t4: "write_head ?ev (t3\<lparr>lh_n := 0\<rparr>) = Inr t4"
    "wrote (t3\<lparr>lh_n := 0\<rparr>) [(header s, new_head (s\<lparr>lh_n := 0\<rparr>) (full_head s))] t4"
    using write_head_spec [of c p "t3\<lparr>lh_n := 0\<rparr>" others] h3 f3 r(1,3) l(1) io3(2) by (auto simp: header_def log_layout_def)
  then have d4: "disk_writes t3 [(header s, new_head (s\<lparr>lh_n := 0\<rparr>) (full_head s))] t4"
    by (simp add: wrote_def disk_writes_def)
  have d3: "disk_writes s ((log_part s @ [(header s, full_head s)]) @ home_part s) t3" using w3 unfolding wrote_def by blast
  have "disk_writes s (((log_part s @ [(header s, full_head s)]) @ home_part s) @ [(header s, new_head (s\<lparr>lh_n := 0\<rparr>) (full_head s))]) t4"
    by (rule disk_writes_trans [OF d3 d4])
  moreover have "commit ?ev s = Inr t4" using r(4) t1(1) t2(1) t3(1) t4(1) by (simp add: commit_def)
  ultimately show ?thesis by (simp add: commit_writes_def)
qed

section \<open>Recovery as a sequence of writes\<close>

text \<open>The state with the header of the disk read into memory.\<close>

definition headed :: "uchar list \<Rightarrow> 'z log_state_scheme \<Rightarrow> 'z log_state_scheme" where
  "headed h s = s\<lparr>lh_n := head_n h, lh_block := (\<lambda>i. if 0 \<le> i \<and> i < head_n h then head_block h i else lh_block s i)\<rparr>"

lemma headed_frames [simp]:
  "calm c p (headed h s) = calm c p s" "cache_ok H (headed h s) = cache_ok H s" "bufs (headed h s) = bufs s"
  "memdisk (headed h s) = memdisk s" "hist (headed h s) = hist s" "content (headed h s) = content s" "pinned (headed h s) = pinned s"
  "lg_start (headed h s) = lg_start s" "lg_size (headed h s) = lg_size s" "lg_dev (headed h s) = lg_dev s" "disksize (headed h s) = disksize s"
  "lh_n (headed h s) = head_n h" "log_blockno (headed h s) = log_blockno s"
  by (simp_all add: headed_def log_blockno_def [abs_def])

lemma headed_home: "i \<in> {0..head_n h - 1} \<Longrightarrow> home_blockno (headed h s) i = word_of_int (head_block h i)"
  by (simp add: home_blockno_def headed_def)

lemma only_io_headed:
  assumes "only_io s u"
  shows "only_io (headed h s) (headed h u)"
proof -
  obtain B L D k where "u = s\<lparr>bufs := B, sleeplocks := L, memdisk := D, hist := k\<rparr>" using assms by (auto simp: only_io_def)
  then have "headed h u = (headed h s)\<lparr>bufs := B, sleeplocks := L, memdisk := D, hist := k\<rparr>" by (simp add: headed_def cong: if_cong)
  then show ?thesis unfolding only_io_def by blast
qed

definition recovery_writes :: "int \<Rightarrow> disk \<Rightarrow> (uint \<times> uchar list) list" where
  "recovery_writes start d = (let h = d (word_of_int start) in
     map (\<lambda>i. (word_of_int (head_block h i), d (word_of_int (start + i + 1)))) [0..head_n h - 1]
     @ [(word_of_int start, put32 h 0 0)])"

lemma empty_head [simp]: "new_head (s\<lparr>lh_n := 0\<rparr>) d = put32 d 0 0"
  by (simp add: new_head_def)

lemma content_unpinned: "x \<notin> pinned s \<Longrightarrow> content s x = memdisk s x"
  by (simp add: pinned_def content_def)

lemma read_head_spec:
  assumes "calm c p s" "cache_ok {} s" "pinned s = {}" "lg_dev s = 1" "header s < disksize s" "head_n (memdisk s (header s)) \<le> LOGSIZE"
  shows "\<exists>t. read_head (rec_env others) s = Inr t \<and> only_io (headed (memdisk s (header s)) s) t \<and> cache_ok {} t
    \<and> memdisk t = memdisk s \<and> pinned t = {} \<and> content t = memdisk s \<and> disk_writes s [] t"
proof -
  let ?h = "memdisk s (header s)"
  have m: "content s = memdisk s" using content_unpinned [of _ s] assms(3) by auto
  obtain b u where r: "bread (rec_env others) 1 (header s) s = Inr (b, u)" "read_block {} (header s) s b u"
    using bread_spec [OF assms(1,2), of "header s" others] assms(3,5) by (auto simp: NBUF_def)
  then have u: "only_io s u" "cache_ok {b} u" "b_data (bufs u b) = ?h" "memdisk u = memdisk s" "content u = memdisk s" "pinned u = {}"
    "\<exists>h. hist u = hist s @ h \<and> set h \<subseteq> {memdisk s}"
    using m assms(3) by (simp_all add: read_block_def)
  obtain t where t: "brelse b (headed ?h u) = Inr t" "released_block {b} b (headed ?h u) t"
    using brelse_spec [of c p "headed ?h u" "{b}" b] u(2) assms(1) only_ioD(1) [OF u(1)] by auto
  then have t': "only_io (headed ?h u) t" "cache_ok {} t" "memdisk t = memdisk s" "content t = memdisk s" "pinned t = {}" "hist t = hist u"
    using u by (simp_all add: released_block_def)
  have "only_io (headed ?h s) t" by (rule only_io_trans [OF only_io_headed [OF u(1)] t'(1)])
  moreover have "disk_writes s [] t" using t' u(7) by (auto simp: disk_writes_def)
  moreover have "read_head (rec_env others) s = Inr t"
    using r(1) t(1) assms(4,6) u(3) by (simp add: read_head_def header_def Let_def headed_def cong: if_cong)
  ultimately show ?thesis using t' by blast
qed

lemma recover_spec:
  assumes "calm c p s" "cache_ok {} s" "pinned s = {}" "log_layout (headed (memdisk s (header s)) s)"
  shows "\<exists>t. recover_from_log (rec_env others) s = Inr t \<and> disk_writes s (recovery_writes (lg_start s) (memdisk s)) t"
proof -
  let ?h = "memdisk s (header s)" and ?ev = "rec_env others"
  let ?w = "map (\<lambda>i. (word_of_int (head_block ?h i), memdisk s (log_blockno s i))) [0..head_n ?h - 1]"
  note l = log_layoutD [OF assms(4)]
  have h: "lg_dev s = 1" "head_n ?h \<le> LOGSIZE" "header s < disksize s" using assms(4) l(1) by (simp_all add: log_layout_def header_def)
  obtain t1 where t1: "read_head ?ev s = Inr t1" "only_io (headed ?h s) t1" "cache_ok {} t1" "memdisk t1 = memdisk s"
    "pinned t1 = {}" "content t1 = memdisk s" "disk_writes s [] t1"
    using read_head_spec [OF assms(1-3) h(1,3,2)] by blast
  note f1 = only_ioD [OF t1(2)] only_io_layout [OF t1(2)]
  have w: "map (\<lambda>i. (home_blockno t1 i, content t1 (log_blockno t1 i))) [0..lh_n t1 - 1] = ?w"
    by (simp add: f1 t1(6) headed_home)
  have "\<exists>t. install_trans ?ev t1 = Inr t \<and> wrote t1 (map (\<lambda>i. (home_blockno t1 i, content t1 (log_blockno t1 i))) [0..lh_n t1 - 1]) t"
    by (rule install_spec [of c p]) (use assms(1,4) t1(3,5) in \<open>simp_all add: f1 NBUF_def\<close>)
  then obtain t2 where t2: "install_trans ?ev t1 = Inr t2" "wrote t1 ?w t2" unfolding w by blast
  have io2: "only_io (headed ?h s) t2" "cache_ok {} t2" "pinned t2 = {}" "disk_writes t1 ?w t2"
    using only_io_trans [OF t1(2)] t2(2) t1(5) by (simp_all add: wrote_def)
  note f2 = only_ioD [OF io2(1)] only_io_layout [OF io2(1)]
  have "header s \<notin> fst ` set ?w"
  proof
    assume "header s \<in> fst ` set ?w"
    then obtain i where "i \<in> {0..head_n ?h - 1}" "word_of_int (head_block ?h i) = header s" by auto
    with l(6) [of i] show False by (simp add: header_def headed_home)
  qed
  from apply_writes_other [OF this] have "content t2 (header s) = ?h" using t2(2) t1(6) by (simp add: wrote_def)
  then obtain t3 where t3: "write_head ?ev (t2\<lparr>lh_n := 0\<rparr>) = Inr t3" "wrote (t2\<lparr>lh_n := 0\<rparr>) [(header s, put32 ?h 0 0)] t3"
    using write_head_spec [of c p "t2\<lparr>lh_n := 0\<rparr>" others] f2 io2 assms(1) h(1) l(1) by (auto simp: header_def NBUF_def)
  then have d3: "disk_writes t2 [(header s, put32 ?h 0 0)] t3" by (simp add: wrote_def disk_writes_def)
  have "disk_writes s (([] @ ?w) @ [(header s, put32 ?h 0 0)]) t3"
    by (rule disk_writes_trans [OF disk_writes_trans [OF t1(7) io2(4)] d3])
  moreover have "recover_from_log ?ev s = Inr t3" using t1(1) t2(1) t3(1) by (simp add: recover_from_log_def)
  ultimately show ?thesis by (simp add: recovery_writes_def header_def Let_def log_blockno_def)
qed

section \<open>The disk at every moment\<close>

fun along :: "(disk \<Rightarrow> bool) \<Rightarrow> (uint \<times> uchar list) list \<Rightarrow> disk \<Rightarrow> bool" where
  "along P [] d = P d"
| "along P ((b, v) # ws) d = (P d \<and> along P ws (d(b := v)))"

lemma along_disks: "along P ws d \<Longrightarrow> d' \<in> disks ws d \<Longrightarrow> P d'"
  by (induction P ws d rule: along.induct) (auto simp: fun_upd_def)

lemma along_append: "along P ws d \<Longrightarrow> along P vs (apply_writes ws d) \<Longrightarrow> along P (ws @ vs) d"
  by (induction P ws d rule: along.induct) (auto simp: fun_upd_def)

lemma along_inv: "P d \<Longrightarrow> (\<And>d b v. (b, v) \<in> set ws \<Longrightarrow> P d \<Longrightarrow> P (d(b := v))) \<Longrightarrow> along P ws d"
  by (induction P ws d rule: along.induct) (auto simp: fun_upd_def)

lemma along_last: "along P ws d \<Longrightarrow> P (apply_writes ws d)"
  by (rule along_disks [OF _ disks_last])

lemma along_mono: "along P ws d \<Longrightarrow> (\<And>d. P d \<Longrightarrow> Q d) \<Longrightarrow> along Q ws d"
  by (induction P ws d rule: along.induct) (auto simp: fun_upd_def)

text \<open>
  The three forms the disk takes: no transaction in the log and the old blocks, the whole
  transaction in the log, and no transaction in the log and the new blocks.
\<close>

definition old_image :: "'z hist_state_scheme \<Rightarrow> disk \<Rightarrow> bool" where
  "old_image s d \<longleftrightarrow> length (d (header s)) = BSIZE \<and> head_n (d (header s)) = 0
     \<and> (\<forall>x. outside_log s x \<longrightarrow> d x = memdisk s x)"

definition new_image :: "'z hist_state_scheme \<Rightarrow> disk \<Rightarrow> bool" where
  "new_image s d \<longleftrightarrow> length (d (header s)) = BSIZE \<and> head_n (d (header s)) = 0
     \<and> (\<forall>x. outside_log s x \<longrightarrow> d x = content s x)"

definition full_image :: "'z hist_state_scheme \<Rightarrow> disk \<Rightarrow> bool" where
  "full_image s d \<longleftrightarrow> d (header s) = full_head s
     \<and> (\<forall>i\<in>{0..lh_n s - 1}. d (log_blockno s i) = content s (home_blockno s i))
     \<and> (\<forall>x. outside_log s x \<and> x \<notin> home_blockno s ` {0..lh_n s - 1} \<longrightarrow> d x = content s x)"

definition any_image :: "'z hist_state_scheme \<Rightarrow> disk \<Rightarrow> bool" where
  "any_image s d \<longleftrightarrow> old_image s d \<or> full_image s d \<or> new_image s d"

lemma head_n_empty: "length d = BSIZE \<Longrightarrow> head_n (put32 d 0 0) = 0"
  by (simp add: head_n_def get32_put32 BSIZE_def)

lemma layout_header: "log_layout s \<Longrightarrow> \<not> outside_log s (header s)"
  using log_layoutD(10) by (simp add: header_def)

lemma image_empty_head:
  assumes "log_layout s"
  shows "old_image s d \<Longrightarrow> old_image s (d(header s := put32 (d (header s)) 0 0))"
    "new_image s d \<Longrightarrow> new_image s (d(header s := put32 (d (header s)) 0 0))"
  using layout_header [OF assms] by (auto simp: old_image_def new_image_def head_n_empty)

lemma old_image_log:
  assumes "log_layout s" "old_image s d" "i \<in> {0..lh_n s - 1}"
  shows "old_image s (d(log_blockno s i := v))"
proof -
  note l = log_layoutD(5,9) [OF assms(1,3)]
  have "x \<noteq> log_blockno s i" if "outside_log s x" for x using l(2) that by blast
  then show ?thesis using assms(2) l(1) by (simp add: old_image_def header_def)
qed

lemma full_image_home:
  assumes "log_layout s" "full_image s d" "i \<in> {0..lh_n s - 1}"
  shows "full_image s (d(home_blockno s i := v))"
proof -
  note l = log_layoutD(4) [OF assms(1) _ assms(3)] log_layoutD(6) [OF assms(1,3)]
  have "x \<noteq> home_blockno s i" if "x \<notin> home_blockno s ` {0..lh_n s - 1}" for x using assms(3) that by blast
  moreover have "header s \<noteq> home_blockno s i" using l(2) by (simp add: header_def)
  ultimately show ?thesis using assms(2) l(1) by (simp add: full_image_def)
qed

lemma apply_log_part:
  assumes "log_layout s" "old_image s d" "\<And>x. x \<notin> home_blockno s ` {0..lh_n s - 1} \<Longrightarrow> content s x = memdisk s x"
  shows "full_image s ((apply_writes (log_part s) d)(header s := full_head s))"
proof -
  note l = log_layoutD [OF assms(1)]
  have "apply_writes (log_part s) d (log_blockno s i) = content s (home_blockno s i)" if "i \<in> {0..lh_n s - 1}" for i
    unfolding log_part_def by (rule apply_writes_at) (use l(7) that in simp_all)
  moreover have "apply_writes (log_part s) d x = d x" if "outside_log s x" for x
    by (rule apply_writes_other) (use l(9) that in \<open>auto simp: log_part_def\<close>)
  moreover have "x \<noteq> header s" if "outside_log s x" for x using that layout_header [OF assms(1)] by blast
  ultimately show ?thesis using assms(2,3) l(5) by (simp add: full_image_def old_image_def header_def)
qed

lemma apply_home_part:
  assumes "log_layout s" "full_image s d" "length (full_head s) = BSIZE"
  shows "new_image s ((apply_writes (home_part s) d)(header s := put32 (full_head s) 0 0))"
proof -
  have "apply_writes (home_part s) d x = content s x" if "outside_log s x" for x
  proof (cases "x \<in> home_blockno s ` {0..lh_n s - 1}")
    case True
    then obtain i where i: "i \<in> {0..lh_n s - 1}" "x = home_blockno s i" by blast
    show ?thesis
      unfolding home_part_def i(2) by (rule apply_writes_at) (use log_layoutD(8) [OF assms(1)] i(1) in simp_all)
  next
    case False
    then have "apply_writes (home_part s) d x = d x" by (intro apply_writes_other) (force simp: home_part_def)
    then show ?thesis using assms(2) False that by (simp add: full_image_def)
  qed
  moreover have "x \<noteq> header s" if "outside_log s x" for x using that layout_header [OF assms(1)] by blast
  ultimately show ?thesis using assms(3) by (simp add: new_image_def head_n_empty)
qed

lemma along_full:
  assumes "log_layout s" "full_image s d" "length (full_head s) = BSIZE"
  shows "along (any_image s) (home_part s @ [(header s, put32 (full_head s) 0 0)]) d"
proof (rule along_append)
  have "along (full_image s) (home_part s) d"
    by (rule along_inv [where P = "full_image s"]) (use assms(2) full_image_home [OF assms(1)] in \<open>auto simp: home_part_def\<close>)
  then show "along (any_image s) (home_part s) d" by (rule along_mono) (simp add: any_image_def)
  from along_last [OF this] show "along (any_image s) [(header s, put32 (full_head s) 0 0)] (apply_writes (home_part s) d)"
    using apply_home_part [OF assms] by (simp add: any_image_def)
qed

lemma along_commit:
  assumes "ready_to_commit c p s" "old_image s (memdisk s)"
  shows "along (any_image s) (commit_writes s) (memdisk s)" "new_image s (apply_writes (commit_writes s) (memdisk s))"
proof -
  have r: "log_layout s" "0 < lh_n s" "lh_n s < int NBUF" "pinned s = home_blockno s ` {0..lh_n s - 1}"
    using assms(1) by (simp_all add: ready_to_commit_def)
  have "content s (header s) = memdisk s (header s)" by (rule content_unpinned [OF ready_pinned(3) [OF assms(1)]])
  then have len: "length (full_head s) = BSIZE"
    using assms(2) r(1-3) by (simp add: full_head_def new_head_read(3) old_image_def log_layout_def)
  have f: "full_image s ((apply_writes (log_part s) (memdisk s))(header s := full_head s))"
    by (rule apply_log_part [OF r(1) assms(2)]) (use content_unpinned [of _ s] r(4) in blast)
  have o: "along (old_image s) (log_part s) (memdisk s)"
    by (rule along_inv [where P = "old_image s"]) (use assms(2) old_image_log [OF r(1)] in \<open>auto simp: log_part_def\<close>)
  have c: "commit_writes s = log_part s @ (header s, full_head s) # home_part s @ [(header s, put32 (full_head s) 0 0)]"
    by (simp add: commit_writes_def)
  show "along (any_image s) (commit_writes s) (memdisk s)" unfolding c
  proof (rule along_append)
    show "along (any_image s) (log_part s) (memdisk s)" by (rule along_mono [OF o]) (simp add: any_image_def)
    show "along (any_image s) ((header s, full_head s) # home_part s @ [(header s, put32 (full_head s) 0 0)]) (apply_writes (log_part s) (memdisk s))"
      using along_last [OF o] along_full [OF r(1) f len] by (simp add: any_image_def)
  qed
  show "new_image s (apply_writes (commit_writes s) (memdisk s))"
    unfolding c using apply_home_part [OF r(1) f len] by simp
qed

lemma recovery_writes_none: "head_n (d (header s)) = 0 \<Longrightarrow> recovery_writes (lg_start s) d = [(header s, put32 (d (header s)) 0 0)]"
  by (simp add: recovery_writes_def header_def)

lemma full_head_read:
  assumes "log_layout s" "length (content s (header s)) = BSIZE"
  shows "head_n (full_head s) = lh_n s" "i \<in> {0..lh_n s - 1} \<Longrightarrow> head_block (full_head s) i = lh_block s i" "length (full_head s) = BSIZE"
proof -
  have n: "0 \<le> lh_n s" "lh_n s \<le> LOGSIZE" using assms(1) by (simp_all add: log_layout_def)
  note r = new_head_read [OF assms(2) n, folded full_head_def]
  show "head_n (full_head s) = lh_n s" "length (full_head s) = BSIZE" using r by simp_all
  show "head_block (full_head s) i = lh_block s i" if "i \<in> {0..lh_n s - 1}"
  proof -
    have "0 \<le> lh_block s i" "lh_block s i < uint (disksize s)" "uint (disksize s) < 2 ^ 31"
      using assms(1) that by (simp_all add: log_layout_def)
    then have b: "0 \<le> lh_block s i" "lh_block s i < 2 ^ 31" by linarith+
    then have "sint (word_of_int (lh_block s i) :: uint) = lh_block s i" using uint_of_int [of "lh_block s i"] by (simp add: sint_cases)
    then show ?thesis using r(2) [OF that] by simp
  qed
qed

lemma recovery_writes_full:
  assumes "log_layout s" "length (content s (header s)) = BSIZE" "full_image s d"
  shows "recovery_writes (lg_start s) d = home_part s @ [(header s, put32 (full_head s) 0 0)]"
proof -
  note f = full_head_read [OF assms(1,2)]
  have h: "d (word_of_int (lg_start s)) = full_head s" using assms(3) by (simp add: full_image_def header_def)
  have "map (\<lambda>i. (word_of_int (head_block (full_head s) i), d (word_of_int (lg_start s + i + 1)))) [0..lh_n s - 1] = home_part s"
    using assms(3) f(2) by (auto simp: home_part_def home_blockno_def full_image_def log_blockno_def)
  then show ?thesis by (simp add: recovery_writes_def Let_def h f(1) header_def)
qed

lemma along_recovery:
  assumes "log_layout s" "length (content s (header s)) = BSIZE" "any_image s d"
  shows "along (any_image s) (recovery_writes (lg_start s) d) d
    \<and> (old_image s (apply_writes (recovery_writes (lg_start s) d) d) \<or> new_image s (apply_writes (recovery_writes (lg_start s) d) d))"
proof -
  consider "old_image s d" | "full_image s d" | "new_image s d" using assms(3) by (auto simp: any_image_def)
  then show ?thesis
  proof cases
    case 1
    moreover have "recovery_writes (lg_start s) d = [(header s, put32 (d (header s)) 0 0)]"
      by (rule recovery_writes_none) (use 1 in \<open>simp add: old_image_def\<close>)
    ultimately show ?thesis using image_empty_head(1) [OF assms(1)] by (simp add: any_image_def)
  next
    case 2
    note w = recovery_writes_full [OF assms(1,2) 2] and len = full_head_read(3) [OF assms(1,2)]
    show ?thesis unfolding w using along_full [OF assms(1) 2 len] apply_home_part [OF assms(1) 2 len] by simp
  next
    case 3
    moreover have "recovery_writes (lg_start s) d = [(header s, put32 (d (header s)) 0 0)]"
      by (rule recovery_writes_none) (use 3 in \<open>simp add: new_image_def\<close>)
    ultimately show ?thesis using image_empty_head(2) [OF assms(1)] by (simp add: any_image_def)
  qed
qed

section \<open>Crash and recovery\<close>

text \<open>
  The machine after a restart: the disk is what the crash left, the cache is empty, and the log is
  where it was.
\<close>

definition booted :: "nat \<Rightarrow> nat \<Rightarrow> 'z hist_state_scheme \<Rightarrow> disk \<Rightarrow> 'z hist_state_scheme \<Rightarrow> bool" where
  "booted c p s d b \<longleftrightarrow> calm c p b \<and> cache_ok {} b \<and> pinned b = {} \<and> memdisk b = d
     \<and> lg_start b = lg_start s \<and> lg_size b = lg_size s \<and> lg_dev b = 1 \<and> disksize b = disksize s"

text \<open>
  The disks that a crash can leave: the machine stops after any disk operation of the commit, and
  then again after any disk operation of a recovery, any number of times.
\<close>

inductive crashed :: "'z hist_state_scheme \<Rightarrow> disk \<Rightarrow> bool" for s where
  before: "crashed s (memdisk s)"
| in_commit: "commit (rec_env others) s = Inr t \<Longrightarrow> d \<in> set (drop (length (hist s)) (hist t)) \<Longrightarrow> crashed s d"
| in_recovery: "crashed s d \<Longrightarrow> booted c p s d b \<Longrightarrow> recover_from_log (rec_env others) b = Inr r
    \<Longrightarrow> d' \<in> set (drop (length (hist b)) (hist r)) \<Longrightarrow> crashed s d'"

lemma disk_writes_hist:
  assumes "disk_writes s ws t"
  shows "insert (memdisk s) (set (drop (length (hist s)) (hist t))) = disks ws (memdisk s)"
proof -
  obtain h where "hist t = hist s @ h" "insert (memdisk s) (set h) = disks ws (memdisk s)"
    using assms unfolding disk_writes_def by blast
  then show ?thesis by simp
qed

lemma disk_writes_along:
  assumes "disk_writes s ws t" "along P ws (memdisk s)" "d \<in> set (drop (length (hist s)) (hist t))"
  shows "P d"
  using assms(3) disk_writes_hist [OF assms(1)] by (intro along_disks [OF assms(2)]) blast

lemma booted_layout:
  assumes "log_layout s" "length (content s (header s)) = BSIZE" "any_image s d" "booted c p s d b"
  shows "log_layout (headed (d (header s)) b)"
proof (cases "full_image s d")
  case True
  note f = full_head_read [OF assms(1,2)]
  have "d (header s) = full_head s" using True by (simp add: full_image_def)
  moreover have "inj_on (\<lambda>i. if 0 \<le> i \<and> i < lh_n s then head_block (full_head s) i else lh_block b i) {0..lh_n s - 1}
      = inj_on (lh_block s) {0..lh_n s - 1}"
    by (rule inj_on_cong) (simp add: f(2))
  ultimately show ?thesis using assms(1,4) f(1,2) by (simp add: log_layout_def headed_def booted_def)
next
  case False
  then have "head_n (d (header s)) = 0" using assms(3) by (auto simp: any_image_def old_image_def new_image_def)
  then show ?thesis using assms(1,4) by (simp add: log_layout_def headed_def booted_def LOGSIZE_def MAXOPBLOCKS_def)
qed

lemma recover_image:
  assumes "log_layout s" "length (content s (header s)) = BSIZE" "any_image s d" "booted c p s d b"
  shows "\<exists>r. recover_from_log (rec_env others) b = Inr r \<and> (old_image s (memdisk r) \<or> new_image s (memdisk r))
    \<and> (\<forall>d'\<in>set (drop (length (hist b)) (hist r)). any_image s d')"
proof -
  have b: "calm c p b" "cache_ok {} b" "pinned b = {}" "memdisk b = d" "lg_start b = lg_start s" "header b = header s"
    using assms(4) by (simp_all add: booted_def header_def)
  obtain r where r: "recover_from_log (rec_env others) b = Inr r" "disk_writes b (recovery_writes (lg_start s) d) r"
    using recover_spec [OF b(1-3), of others] booted_layout [OF assms] unfolding b(4-6) by blast
  note a = along_recovery [OF assms(1-3)]
  have "any_image s d'" if "d' \<in> set (drop (length (hist b)) (hist r))" for d'
    using disk_writes_along [OF r(2) _ that] a b(4) by blast
  moreover have "memdisk r = apply_writes (recovery_writes (lg_start s) d) d" using r(2) b(4) by (simp add: disk_writes_def)
  ultimately show ?thesis using r(1) a by auto
qed

lemma header_unchanged:
  assumes "ready_to_commit c p s" "old_image s (memdisk s)"
  shows "length (content s (header s)) = BSIZE"
  using content_unpinned [OF ready_pinned(3) [OF assms(1)]] assms(2) by (simp add: old_image_def)

lemma crashed_image:
  assumes "crashed s d" "ready_to_commit c p s" "old_image s (memdisk s)"
  shows "any_image s d"
  using assms(1)
proof (induction rule: crashed.induct)
  case before
  show ?case using assms(3) by (simp add: any_image_def)
next
  case (in_commit others t d)
  obtain u where "commit (rec_env others) s = Inr u" "disk_writes s (commit_writes s) u"
    using commit_runs [OF assms(2)] by blast
  with in_commit show ?case using disk_writes_along [OF _ along_commit(1) [OF assms(2,3)]] by auto
next
  case (in_recovery d c' p' b others r d')
  have "log_layout s" using assms(2) by (simp add: ready_to_commit_def)
  from recover_image [OF this header_unchanged [OF assms(2,3)] in_recovery(5,2), of others]
  show ?case using in_recovery(3,4) by auto
qed

section \<open>A cache with no buffer left\<close>

text \<open>When every buffer is pinned, a block that is not in the cache cannot be read.\<close>

lemma bget_none:
  assumes "calm c p s" "cache_ok {} s" "card (pinned s) = NBUF" "blk \<notin> pinned s"
  shows "bget ev 1 blk s = Inl (Panic ''bget: no buffers'')"
proof -
  obtain xs where r: "ring (bufs s) xs" using assms(2) by (auto simp: cache_ok_def)
  then have xs: "set xs = {..<NBUF}" by (simp add: ring_def)
  have "{b. b < NBUF \<and> is_dirty (bufs s b)} = {..<NBUF}"
    by (rule card_subset_eq) (use assms(3) card_dirty [OF assms(2)] in auto)
  then have dirty: "is_dirty (bufs s b)" if "b < NBUF" for b using that by blast
  then have miss: "b_blockno (bufs s b) \<noteq> blk" if "b < NBUF" for b using assms(4) that pinned_iff by blast
  have "find (\<lambda>b. b_dev (bufs s b) = 1 \<and> b_blockno (bufs s b) = blk) xs = None"
    "find (\<lambda>b. b_refcnt (bufs s b) = 0 \<and> b_flags (bufs s b) AND B_DIRTY = 0) (rev xs) = None"
    using miss dirty xs by (auto simp: find_None_iff is_dirty_def)
  then show ?thesis
    by (simp add: bget_def calm_section(1) [OF assms(1)] lock_simps ring_scan [OF r])
qed

section \<open>A machine with a transaction\<close>

text \<open>The first \<open>n\<close> buffers hold the blocks from 60 on, modified and not yet committed.\<close>

definition txn_demo :: "nat \<Rightarrow> hist_state" where
  "txn_demo n = log_state.extend (log_demo\<lparr>lh_n := int n, bufs := (\<lambda>b. if b < n
       then (bufs log_demo b)\<lparr>b_flags := B_VALID OR B_DIRTY, b_dev := 1, b_blockno := word_of_int (60 + int b), b_data := replicate BSIZE 1\<rparr>
       else bufs log_demo b)\<rparr>) \<lparr>hist = []\<rparr>"

lemma txn_demo_fields [simp]:
  "bufs (txn_demo n) b = (if b < n then \<lparr>b_flags = B_VALID OR B_DIRTY, b_dev = 1, b_blockno = word_of_int (60 + int b), b_refcnt = 0,
     b_prev = (b + NBUF) mod (NBUF + 1), b_next = (b + 1) mod (NBUF + 1), b_qnext = None, b_data = replicate BSIZE 1\<rparr>
   else \<lparr>b_flags = 0, b_dev = 0, b_blockno = 0, b_refcnt = 0, b_prev = (b + NBUF) mod (NBUF + 1),
     b_next = (b + 1) mod (NBUF + 1), b_qnext = None, b_data = replicate BSIZE 0\<rparr>)"
  "memdisk (txn_demo n) = (\<lambda>_. replicate BSIZE 0)" "disksize (txn_demo n) = 1000" "lg_start (txn_demo n) = 2" "lg_size (txn_demo n) = 40" "lg_dev (txn_demo n) = 1"
  "lh_n (txn_demo n) = int n" "lh_block (txn_demo n) = (\<lambda>i. 60 + i)" "\<not> sl_locked (sleeplocks (txn_demo n) l)" "hist (txn_demo n) = []"
  by (simp_all add: txn_demo_def log_state.defs log_demo_defs bio_demo_defs)

lemma txn_demo_calm: "calm 0 0 (txn_demo n)"
proof -
  have "\<not> (p_state (procs (txn_demo n) q) = SLEEPING \<and> p_chan (procs (txn_demo n) q) = ChSleep l)" for q l
    by (simp add: txn_demo_def log_state.defs log_demo_defs bio_demo_defs mux_demo_defs)
  moreover have "cpu_ok 0 (txn_demo n)" "free_lock l (txn_demo n)" "cproc (cpus (txn_demo n) 0) = Some 0" for l
    using bio_demo_ok(1,4) bio_demo_ok(2) [of l] by (simp_all add: cpu_ok_def this_cpu_def free_lock_def txn_demo_def log_state.defs log_demo_defs)
  ultimately show ?thesis by (simp add: calm_def)
qed

lemma txn_demo_flags: "is_dirty (bufs (txn_demo n) b) = (b < n)" "is_valid (bufs (txn_demo n) b) = (b < n)"
  by (simp_all add: flags_bits bit_or_iff bits_of_flags)

lemma txn_demo_uint: "b < NBUF \<Longrightarrow> uint (word_of_int (60 + int b) :: uint) = 60 + int b"
  by (rule uint_of_int) (simp_all add: NBUF_def)

lemma txn_demo_cache:
  assumes "n \<le> NBUF"
  shows "cache_ok {} (txn_demo n)"
proof -
  have up: "[0..<NBUF] = [0, 1, 2, 3, 4, 5, 6, 7, 8, 9, 10, 11, 12, 13, 14, 15, 16, 17, 18, 19, 20, 21, 22, 23, 24, 25, 26, 27, 28, 29]"
    by (simp add: NBUF_def upt_conv_Cons)
  have "path (\<lambda>b. b_next (bufs (txn_demo n) b)) NBUF [0..<NBUF] NBUF" "path (\<lambda>b. b_prev (bufs (txn_demo n) b)) NBUF (rev [0..<NBUF]) NBUF"
    unfolding up by (simp_all add: NBUF_def)
  then have "ring (bufs (txn_demo n)) [0..<NBUF]" by (simp add: ring_def atLeast0LessThan)
  moreover have "one_copy (bufs (txn_demo n))"
  proof -
    have "b = b'" if "b < n" "b' < n" "word_of_int (60 + int b) = (word_of_int (60 + int b') :: uint)" for b b'
    proof -
      have "60 + int b = 60 + int b'"
        using arg_cong [OF that(3), of uint] txn_demo_uint [of b] txn_demo_uint [of b'] that(1,2) assms by linarith
      then show ?thesis by simp
    qed
    then show ?thesis by (auto simp: one_copy_def inj_on_def split: if_splits)
  qed
  moreover have "buf_ok (memdisk (txn_demo n)) (bufs (txn_demo n) b)" for b
    unfolding buf_ok_def txn_demo_flags by simp
  ultimately show ?thesis by (auto simp: cache_ok_def)
qed

lemma txn_demo_pinned:
  assumes "n \<le> NBUF"
  shows "pinned (txn_demo n) = home_blockno (txn_demo n) ` {0..int n - 1}" "card (pinned (txn_demo n)) = n"
proof -
  have p: "blk \<in> pinned (txn_demo n) \<longleftrightarrow> (\<exists>b<n. word_of_int (60 + int b) = blk)" for blk
    unfolding pinned_iff txn_demo_flags using assms by auto
  show "pinned (txn_demo n) = home_blockno (txn_demo n) ` {0..int n - 1}"
  proof (intro set_eqI iffI)
    fix blk
    assume "blk \<in> pinned (txn_demo n)"
    then obtain b where "b < n" "word_of_int (60 + int b) = blk" unfolding p by blast
    then show "blk \<in> home_blockno (txn_demo n) ` {0..int n - 1}" by (intro image_eqI [of _ _ "int b"]) (auto simp: home_blockno_def)
  next
    fix blk
    assume "blk \<in> home_blockno (txn_demo n) ` {0..int n - 1}"
    then obtain i where "0 \<le> i" "i < int n" "word_of_int (60 + i) = blk" by (auto simp: home_blockno_def)
    then show "blk \<in> pinned (txn_demo n)" unfolding p by (intro exI [of _ "nat i"]) auto
  qed
  have "{b. b < NBUF \<and> is_dirty (bufs (txn_demo n) b)} = {..<n}" unfolding txn_demo_flags using assms by auto
  then show "card (pinned (txn_demo n)) = n" using card_dirty [OF txn_demo_cache [OF assms]] by simp
qed

lemma txn_demo_layout:
  assumes "n \<le> NBUF"
  shows "log_layout (txn_demo n)"
  using assms by (auto simp: log_layout_def LOGSIZE_def MAXOPBLOCKS_def NBUF_def inj_on_def)

lemma txn_demo_ready:
  assumes "0 < n" "n < NBUF"
  shows "ready_to_commit 0 0 (txn_demo n)" "old_image (txn_demo n) (memdisk (txn_demo n))"
  using assms txn_demo_calm txn_demo_cache [of n] txn_demo_layout [of n] txn_demo_pinned(1) [of n]
  by (simp_all add: ready_to_commit_def old_image_def head_n_def get32_def BSIZE_def)

section \<open>Properties\<close>

text \<open>C7.
  A commit returns with the disk holding the new contents of every block outside the log and an
  empty log, and the disks it goes through are, in this order, those of writing the log blocks,
  the header, the home blocks and the empty header.
\<close>

theorem commit_durable:
  assumes "ready_to_commit c p s" "old_image s (memdisk s)"
  shows "\<exists>t. commit (rec_env others) s = Inr t \<and> new_image s (memdisk t)
    \<and> insert (memdisk s) (set (drop (length (hist s)) (hist t))) = disks (commit_writes s) (memdisk s)"
proof -
  obtain t where t: "commit (rec_env others) s = Inr t" "disk_writes s (commit_writes s) t" using commit_runs [OF assms(1)] by blast
  then have "new_image s (memdisk t)" using along_commit(2) [OF assms] by (simp add: disk_writes_def)
  with t(1) disk_writes_hist [OF t(2)] show ?thesis by blast
qed

theorem commit_durable_witness:
  "\<exists>t. commit (rec_env id) (txn_demo 2) = Inr t \<and> new_image (txn_demo 2) (memdisk t)
    \<and> insert (memdisk (txn_demo 2)) (set (drop (length (hist (txn_demo 2))) (hist t))) = disks (commit_writes (txn_demo 2)) (memdisk (txn_demo 2))"
  by (rule commit_durable [where c = 0 and p = 0]) (use txn_demo_ready [of 2] in \<open>simp_all add: NBUF_def\<close>)

text \<open>C1.
  Crash atomicity: wherever the machine stops during a commit, and wherever it stops again during
  any number of recoveries, the next recovery returns with an empty log and with either all blocks
  outside the log as before the transaction or all of them as after it.
\<close>

theorem crash_atomic:
  assumes "ready_to_commit c p s" "old_image s (memdisk s)" "crashed s d" "booted c' p' s d b"
  shows "\<exists>r. recover_from_log (rec_env others) b = Inr r \<and> (old_image s (memdisk r) \<or> new_image s (memdisk r))"
proof -
  have "log_layout s" using assms(1) by (simp add: ready_to_commit_def)
  from recover_image [OF this header_unchanged [OF assms(1,2)] crashed_image [OF assms(3,1,2)] assms(4), of others]
  show ?thesis by blast
qed

lemma txn_demo_booted: "booted 0 0 (txn_demo 2) d ((txn_demo 0)\<lparr>memdisk := d\<rparr>)"
proof -
  have "calm 0 0 ((txn_demo 0)\<lparr>memdisk := d\<rparr>)" using txn_demo_calm by simp
  moreover have "cache_ok {} ((txn_demo 0)\<lparr>memdisk := d\<rparr>)" using txn_demo_cache [of 0] by (auto simp: cache_ok_def buf_ok_def)
  moreover have "pinned ((txn_demo 0)\<lparr>memdisk := d\<rparr>) = {}" by (auto simp: pinned_iff is_dirty_def)
  ultimately show ?thesis by (simp add: booted_def)
qed

lemma txn_demo_crashed: "crashed (txn_demo 2) (apply_writes (log_part (txn_demo 2) @ [(header (txn_demo 2), full_head (txn_demo 2))]) (memdisk (txn_demo 2)))"
proof -
  let ?s = "txn_demo 2" and ?ws = "log_part (txn_demo 2) @ [(header (txn_demo 2), full_head (txn_demo 2))]"
  obtain t where t: "commit (rec_env id) ?s = Inr t" "disk_writes ?s (commit_writes ?s) t"
    using commit_runs [OF txn_demo_ready(1) [of 2]] by (auto simp: NBUF_def)
  obtain vs where "commit_writes ?s = ?ws @ vs" by (simp add: commit_writes_def)
  then have "apply_writes ?ws (memdisk ?s) \<in> disks (commit_writes ?s) (memdisk ?s)" using disks_last [of ?ws] by (simp only: disks_append) simp
  then have "apply_writes ?ws (memdisk ?s) \<in> insert (memdisk ?s) (set (drop (length (hist ?s)) (hist t)))"
    unfolding disk_writes_hist [OF t(2)] .
  then show ?thesis
  proof (rule insertE)
    assume "apply_writes ?ws (memdisk ?s) = memdisk ?s"
    then show ?thesis using crashed.before [of ?s] by simp
  qed (rule crashed.in_commit [OF t(1)])
qed

theorem crash_atomic_witness:
  "\<exists>d b r. crashed (txn_demo 2) d \<and> d (header (txn_demo 2)) = full_head (txn_demo 2) \<and> booted 0 0 (txn_demo 2) d b
    \<and> recover_from_log (rec_env id) b = Inr r \<and> (old_image (txn_demo 2) (memdisk r) \<or> new_image (txn_demo 2) (memdisk r))"
proof -
  let ?d = "apply_writes (log_part (txn_demo 2) @ [(header (txn_demo 2), full_head (txn_demo 2))]) (memdisk (txn_demo 2))"
  have "ready_to_commit 0 0 (txn_demo 2)" "old_image (txn_demo 2) (memdisk (txn_demo 2))" using txn_demo_ready [of 2] by (simp_all add: NBUF_def)
  from crash_atomic [OF this txn_demo_crashed txn_demo_booted, of id] obtain r where
    "recover_from_log (rec_env id) ((txn_demo 0)\<lparr>memdisk := ?d\<rparr>) = Inr r" "old_image (txn_demo 2) (memdisk r) \<or> new_image (txn_demo 2) (memdisk r)"
    by blast
  moreover have "?d (header (txn_demo 2)) = full_head (txn_demo 2)" by simp
  ultimately show ?thesis using txn_demo_crashed txn_demo_booted by blast
qed

text \<open>
  That a transaction has fewer blocks than there are buffers is needed: a commit with every buffer
  pinned panics because no buffer is left for a block of the log.
\<close>

theorem full_commit_panics:
  assumes "calm c p s" "cache_ok {} s" "log_layout s" "0 < lh_n s" "pinned s = home_blockno s ` {0..lh_n s - 1}" "card (pinned s) = NBUF"
  shows "commit (rec_env others) s = Inl (Panic ''bget: no buffers'')"
proof -
  have "0 \<in> {0..lh_n s - 1}" using assms(4) by simp
  then have "log_blockno s 0 \<notin> pinned s" unfolding assms(5) using log_layoutD(4) [OF assms(3)] by blast
  then have "bread (rec_env others) (lg_dev s) (log_blockno s 0) s = Inl (Panic ''bget: no buffers'')"
    using bget_none [OF assms(1,2,6)] assms(3) by (simp add: bread_def log_layout_def)
  moreover have "[0..lh_n s - 1] = 0 # [1..lh_n s - 1]" using assms(4) by (simp add: upto.simps)
  ultimately show ?thesis using assms(4) by (simp add: commit_def write_log_def write_log_one_def)
qed

theorem full_commit_panics_witness:
  "lh_n (txn_demo 30) = LOGSIZE \<and> commit (rec_env id) (txn_demo 30) = Inl (Panic ''bget: no buffers'')"
proof
  show "lh_n (txn_demo 30) = LOGSIZE" by (simp add: LOGSIZE_def MAXOPBLOCKS_def)
  show "commit (rec_env id) (txn_demo 30) = Inl (Panic ''bget: no buffers'')"
    by (rule full_commit_panics [OF txn_demo_calm])
      (use txn_demo_cache [of 30] txn_demo_layout [of 30] txn_demo_pinned [of 30] in \<open>simp_all add: NBUF_def\<close>)
qed

end
