(* ===== verification/Ulib.thy ===== *)
theory Ulib
  imports Console
begin

text \<open>
  The user library: strings and memory (\<open>ulib.c\<close>), formatted output (\<open>printf.c\<close>) and the memory
  allocator (\<open>umalloc.c\<close>). The memory is that of the process. System calls are parameters: the
  output of one byte, the input of one byte, and \<open>sbrk\<close>. A loop that runs on without end has no
  result. The functions \<open>stat\<close>, \<open>shm_get\<close> and \<open>shm_rem\<close> only pass their arguments to system calls and
  are left out.
\<close>

section \<open>Strings and memory\<close>

partial_function (option) strcpy :: "memory \<Rightarrow> uint \<Rightarrow> uint \<Rightarrow> memory option" where
  "strcpy m s t = (if m t = 0 then Some (m(s := 0)) else strcpy (m(s := m t)) (s + 1) (t + 1))"

partial_function (option) strcmp :: "memory \<Rightarrow> uint \<Rightarrow> uint \<Rightarrow> int option" where
  "strcmp m p q = (if m p \<noteq> 0 \<and> m p = m q then strcmp m (p + 1) (q + 1) else Some (uint (m p) - uint (m q)))"

definition umemset :: "memory \<Rightarrow> uint \<Rightarrow> uint \<Rightarrow> uint \<Rightarrow> memory" where
  "umemset m dst c n = stosb m dst c (unat n)"

text \<open>The address of the first occurrence, 0 if there is none.\<close>

partial_function (option) strchr :: "memory \<Rightarrow> uint \<Rightarrow> uchar \<Rightarrow> uint option" where
  "strchr m s c = (if m s = 0 then Some 0 else if m s = c then Some s else strchr m (s + 1) c)"

fun umemmove_loop :: "memory \<Rightarrow> uint \<Rightarrow> uint \<Rightarrow> nat \<Rightarrow> memory" where
  "umemmove_loop m dst src 0 = m"
| "umemmove_loop m dst src (Suc n) = umemmove_loop (m(dst := m src)) (dst + 1) (src + 1) n"

definition umemmove :: "memory \<Rightarrow> uint \<Rightarrow> uint \<Rightarrow> uint \<Rightarrow> memory" where
  "umemmove m dst src n = umemmove_loop m dst src (nat (sint n))"

text \<open>\<open>getb\<close> reads one byte from descriptor 0; no byte at the end of the input or after an error.\<close>

fun gets_loop :: "('w \<Rightarrow> uchar option \<times> 'w) \<Rightarrow> nat \<Rightarrow> 'w \<Rightarrow> uchar list \<times> 'w" where
  "gets_loop getb 0 w = ([], w)"
| "gets_loop getb (Suc n) w =
     (case getb w of
        (None, w) \<Rightarrow> ([], w)
      | (Some c, w) \<Rightarrow>
          if c = 10 \<or> c = 13 then ([c], w)
          else let (cs, w) = gets_loop getb n w in (c # cs, w))"

definition gets :: "('w \<Rightarrow> uchar option \<times> 'w) \<Rightarrow> memory \<Rightarrow> uint \<Rightarrow> int \<Rightarrow> 'w \<Rightarrow> memory \<times> 'w" where
  "gets getb m buf mx w =
     (let (cs, w) = gets_loop getb (nat (mx - 1)) w in
      (put_bytes m buf (cs @ [0]), w))"

text \<open>\<open>atoi\<close> on the bytes of the string.\<close>

fun atoi_loop :: "uint \<Rightarrow> uchar list \<Rightarrow> uint" where
  "atoi_loop n [] = n"
| "atoi_loop n (c # cs) = (if 48 \<le> c \<and> c \<le> 57 then atoi_loop (n * 10 + ucast c - 48) cs else n)"

definition atoi :: "uchar list \<Rightarrow> uint" where
  "atoi cs = atoi_loop 0 cs"

section \<open>Formatted output\<close>

definition udigit :: "uint \<Rightarrow> uchar" where
  "udigit d = chars ''0123456789ABCDEF'' ! unat d"

function udigits_of :: "uint \<Rightarrow> uint \<Rightarrow> uchar list" where
  "udigits_of base x = udigit (x mod base) # (if base \<le> 1 \<or> x div base = 0 then [] else udigits_of base (x div base))"
  by pat_completeness auto
termination
proof (relation "measure (\<lambda>(base, x). unat x)", simp, goal_cases)
  case (1 base x)
  then have "1 < unat base" "0 < unat x"
    by (auto simp: word_less_nat_alt not_le unat_gt_0)
  then show ?case by (simp add: unat_div)
qed

declare udigits_of.simps [simp del]

definition uprintint :: "uint \<Rightarrow> uint \<Rightarrow> bool \<Rightarrow> uchar list" where
  "uprintint xx base sg =
     (if sg \<and> sint xx < 0 then 45 # rev (udigits_of base (- xx)) else rev (udigits_of base xx))"

text \<open>One conversion of \<open>printf\<close>: the bytes it writes and the arguments left.\<close>

definition uformat_one :: "uchar \<Rightarrow> fmtarg list \<Rightarrow> (uchar list \<times> fmtarg list) result" where
  "uformat_one c args =
     (if c = 100 then (case args of NumArg x # as \<Rightarrow> Inr (uprintint x 10 True, as) | _ \<Rightarrow> Inl (Fault ''ap''))
      else if c = 120 \<or> c = 112 then (case args of NumArg x # as \<Rightarrow> Inr (uprintint x 16 False, as) | _ \<Rightarrow> Inl (Fault ''ap''))
      else if c = 115 then
        (case args of
           StrArg (Some str) # as \<Rightarrow> Inr (str, as)
         | StrArg None # as \<Rightarrow> Inr (chars ''(null)'', as)
         | _ \<Rightarrow> Inl (Fault ''ap''))
      else if c = 99 then (case args of NumArg x # as \<Rightarrow> Inr ([ucast x], as) | _ \<Rightarrow> Inl (Fault ''ap''))
      else if c = 37 then Inr ([c], args)
      else Inr ([37, c], args))"

text \<open>\<open>pct\<close> is the state of the scan: the last byte was an unused percent sign.\<close>

fun printf_loop :: "bool \<Rightarrow> uchar list \<Rightarrow> fmtarg list \<Rightarrow> uchar list result" where
  "printf_loop pct [] args = Inr []"
| "printf_loop pct (c # fmt) args =
     (if \<not> pct then
        if c = 37 then printf_loop True fmt args
        else bnd (printf_loop False fmt args) (\<lambda>out. Inr (c # out))
      else
        bnd (uformat_one c args) (\<lambda>(bs, args).
        bnd (printf_loop False fmt args) (\<lambda>out. Inr (bs @ out))))"

text \<open>\<open>putb\<close> writes one byte to a descriptor.\<close>

definition printf :: "(uchar \<Rightarrow> 'w \<Rightarrow> 'w) \<Rightarrow> uchar list \<Rightarrow> fmtarg list \<Rightarrow> 'w \<Rightarrow> 'w result" where
  "printf putb fmt args w = bnd (printf_loop False fmt args) (\<lambda>out. Inr (fold putb out w))"

section \<open>The allocator\<close>

text \<open>
  A header is eight bytes, the address of the next free block and the size in headers. \<open>base\<close> is the
  address of the static header that starts the list.
\<close>

record uheap =
  um :: memory
  freep :: uint

definition h_ptr :: "uint \<Rightarrow> 'z uheap_scheme \<Rightarrow> uint" where
  "h_ptr p h = read32 (um h) p"

definition h_size :: "uint \<Rightarrow> 'z uheap_scheme \<Rightarrow> uint" where
  "h_size p h = read32 (um h) (p + 4)"

definition set_ptr :: "uint \<Rightarrow> uint \<Rightarrow> 'z uheap_scheme \<Rightarrow> 'z uheap_scheme" where
  "set_ptr p v h = h\<lparr>um := write32 (um h) p v\<rparr>"

definition set_size :: "uint \<Rightarrow> uint \<Rightarrow> 'z uheap_scheme \<Rightarrow> 'z uheap_scheme" where
  "set_size p v h = h\<lparr>um := write32 (um h) (p + 4) v\<rparr>"

partial_function (option) free_find :: "'z uheap_scheme \<Rightarrow> uint \<Rightarrow> uint \<Rightarrow> uint option" where
  "free_find h bp p =
     (if bp > p \<and> bp < h_ptr p h then Some p
      else if p \<ge> h_ptr p h \<and> (bp > p \<or> bp < h_ptr p h) then Some p
      else free_find h bp (h_ptr p h))"

definition free_link :: "uint \<Rightarrow> uint \<Rightarrow> 'z uheap_scheme \<Rightarrow> 'z uheap_scheme" where
  "free_link bp p h =
     (let h = (if bp + 8 * h_size bp h = h_ptr p h then
                 let h = set_size bp (h_size bp h + h_size (h_ptr p h) h) h in
                 set_ptr bp (h_ptr (h_ptr p h) h) h
               else set_ptr bp (h_ptr p h) h);
          h = (if p + 8 * h_size p h = bp then
                 let h = set_size p (h_size p h + h_size bp h) h in
                 set_ptr p (h_ptr bp h) h
               else set_ptr p bp h) in
      h\<lparr>freep := p\<rparr>)"

definition free :: "uint \<Rightarrow> 'z uheap_scheme \<Rightarrow> 'z uheap_scheme option" where
  "free ap h = map_option (\<lambda>p. free_link (ap - 8) p h) (free_find h (ap - 8) (freep h))"

definition morecore ::
  "(uint \<Rightarrow> 'z uheap_scheme \<Rightarrow> uint \<times> 'z uheap_scheme) \<Rightarrow> uint \<Rightarrow> 'z uheap_scheme \<Rightarrow> (uint \<times> 'z uheap_scheme) option"
where
  "morecore sbrk nu h =
     (let nu = (if nu < 4096 then 4096 else nu);
          (p, h) = sbrk (nu * 8) h in
      if p = -1 then Some (0, h)
      else map_option (\<lambda>h. (freep h, h)) (free (p + 8) (set_size p nu h)))"

text \<open>A block that is large enough: unlinked if it fits exactly, else its tail is cut off.\<close>

definition malloc_take :: "uint \<Rightarrow> uint \<Rightarrow> uint \<Rightarrow> 'z uheap_scheme \<Rightarrow> uint \<times> 'z uheap_scheme" where
  "malloc_take nunits prevp p h =
     (if h_size p h = nunits then (p + 8, (set_ptr prevp (h_ptr p h) h)\<lparr>freep := prevp\<rparr>)
      else
        let h = set_size p (h_size p h - nunits) h;
            p = p + 8 * h_size p h;
            h = set_size p nunits h in
        (p + 8, h\<lparr>freep := prevp\<rparr>))"

partial_function (option) malloc_loop ::
  "(uint \<Rightarrow> 'z uheap_scheme \<Rightarrow> uint \<times> 'z uheap_scheme) \<Rightarrow> uint \<Rightarrow> uint \<Rightarrow> uint \<Rightarrow> 'z uheap_scheme
   \<Rightarrow> (uint \<times> 'z uheap_scheme) option"
where
  "malloc_loop sbrk nunits prevp p h =
     (if h_size p h \<ge> nunits then Some (malloc_take nunits prevp p h)
      else if p = freep h then
        Option.bind (morecore sbrk nunits h) (\<lambda>r.
        if fst r = 0 then Some r
        else malloc_loop sbrk nunits (fst r) (h_ptr (fst r) (snd r)) (snd r))
      else malloc_loop sbrk nunits p (h_ptr p h) h)"

definition malloc ::
  "(uint \<Rightarrow> 'z uheap_scheme \<Rightarrow> uint \<times> 'z uheap_scheme) \<Rightarrow> uint \<Rightarrow> uint \<Rightarrow> 'z uheap_scheme
   \<Rightarrow> (uint \<times> 'z uheap_scheme) option"
where
  "malloc sbrk base nbytes h =
     (let nunits = (nbytes + 8 - 1) div 8 + 1;
          h = (if freep h = 0 then set_size base 0 ((set_ptr base base h)\<lparr>freep := base\<rparr>) else h) in
      malloc_loop sbrk nunits (freep h) (h_ptr (freep h) h) h)"

section \<open>First fit\<close>

fun links :: "'z uheap_scheme \<Rightarrow> uint \<Rightarrow> uint list \<Rightarrow> bool" where
  "links h p [] \<longleftrightarrow> True"
| "links h p (q # qs) \<longleftrightarrow> h_ptr p h = q \<and> links h q qs"

lemma unat_negated: "x \<noteq> 0 \<Longrightarrow> unat (- x :: uint) = 2 ^ 32 - unat x"
proof -
  assume "x \<noteq> 0"
  then have k: "0 < uint x" "uint x < 2 ^ 32" using uint_bounded [of x] by (auto simp: word_neq_0_conv word_less_def)
  have "uint (- x) = (2 ^ 32 - uint x) mod 2 ^ 32" by (simp add: uint_word_ariths)
  also have "\<dots> = 2 ^ 32 - uint x" using k by (intro mod_pos_pos_trivial) simp_all
  finally have "int (unat (- x) + unat x) = int (2 ^ 32)" by simp
  then have "unat (- x) + unat x = 2 ^ 32" by (simp only: of_nat_eq_iff)
  then show ?thesis by simp
qed

lemma read32_write32_other:
  assumes "4 \<le> unat (x - a)" "4 \<le> unat (a - x)"
  shows "read32 (write32 m a v) x = read32 m x"
proof (rule read32_cong)
  fix k :: uint
  assume "k < 4"
  then have k: "unat k < 4" by (simp add: word_less_nat_alt)
  have "unat (a - x) = 2 ^ 32 - unat (x - a)"
    using assms(1) unat_negated [of "x - a"] by (cases "x = a") simp_all
  then have "unat (x - a) + unat k < 2 ^ 32" using assms(2) k by linarith
  then have "unat (x - a + k) = unat (x - a) + unat k" by (simp add: unat_word_ariths)
  moreover have "x + k - a = x - a + k" by simp
  ultimately have "4 \<le> unat (x + k - a)" using assms(1) by (metis trans_le_add1)
  then show "write32 m a v (x + k) = m (x + k)" by (rule write32_other)
qed

lemma unat_add_mod_8: "unat (x + y :: uint) mod 8 = (unat x + unat y) mod 8"
  by (simp add: unat_word_ariths mod_mod_cancel)

lemma unat_diff_mod_8: "(unat (x - y :: uint) + unat y) mod 8 = unat x mod 8"
  using unat_add_mod_8 [of "x - y" y] by simp

lemma four_mod_8: "n mod 8 = 4 \<Longrightarrow> 4 \<le> (n :: nat)"
  using mod_less_eq_dividend [of n 8] by simp

lemma plus_four_mod_8: "(n mod 8 + 4) mod 8 = 0 \<Longrightarrow> n mod 8 = (4 :: nat)"
  by presburger

lemma aligned_words_apart:
  assumes "unat p mod 8 = 0" "unat b mod 8 = 0"
  shows "4 \<le> unat (b + 4 - p :: uint)" "4 \<le> unat (p - (b + 4) :: uint)"
proof -
  have b4: "unat (b + 4) mod 8 = 4"
    using assms(2) mod_add_eq [of "unat b" 8 4] by (simp add: unat_add_mod_8)
  have "unat (b + 4 - p) mod 8 = 4"
    using unat_diff_mod_8 [of "b + 4" p] mod_add_eq [of "unat (b + 4 - p)" 8 "unat p"] assms(1) b4 by simp
  then show "4 \<le> unat (b + 4 - p)" by (rule four_mod_8)
  have "(unat (p - (b + 4)) mod 8 + 4) mod 8 = 0"
    using unat_diff_mod_8 [of p "b + 4"] mod_add_eq [of "unat (p - (b + 4))" 8 "unat (b + 4)"] assms(1) b4 by simp
  then show "4 \<le> unat (p - (b + 4))" by (intro four_mod_8 plus_four_mod_8)
qed

lemma malloc_loop_first_fit:
  assumes "links h prevp (xs @ [b])" "list_all (\<lambda>q. h_size q h < nunits \<and> q \<noteq> freep h) xs" "nunits \<le> h_size b h"
  shows "malloc_loop sbrk nunits prevp (h_ptr prevp h) h = Some (malloc_take nunits (last (prevp # xs)) b h)"
  using assms
proof (induction xs arbitrary: prevp)
  case Nil
  then show ?case by (simp add: malloc_loop.simps)
next
  case (Cons q qs)
  then have "h_ptr prevp h = q" "h_size q h < nunits" "q \<noteq> freep h" by simp_all
  then have "malloc_loop sbrk nunits prevp (h_ptr prevp h) h = malloc_loop sbrk nunits q (h_ptr q h) h"
    by (simp add: malloc_loop.simps [of sbrk nunits prevp] not_le [symmetric])
  with Cons show ?case by simp
qed

lemma malloc_take_exact:
  assumes "h_size b h = n" "unat p mod 8 = 0" "unat b mod 8 = 0"
  shows "\<exists>h'. malloc_take n p b h = (b + 8, h') \<and> h_size b h' = n \<and> freep h' = p \<and> h_ptr p h' = h_ptr b h"
  using assms(1) aligned_words_apart [OF assms(2,3)]
  by (simp add: malloc_take_def set_ptr_def h_size_def h_ptr_def read32_write32_other read32_write32_same)

lemma malloc_take_tail:
  assumes "n < h_size b h" "0 < n" "unat b + 8 * unat (h_size b h) < 2 ^ 32"
  shows "\<exists>h'. malloc_take n p b h = (b + 8 * (h_size b h - n) + 8, h') \<and> h_size (b + 8 * (h_size b h - n)) h' = n
    \<and> freep h' = p \<and> h_size b h' = h_size b h - n"
proof -
  define k where "k = h_size b h - n"
  have k: "0 < unat k" "unat k < unat (h_size b h)"
    using assms(1,2) by (simp_all add: k_def unat_sub word_less_nat_alt word_le_nat_alt)
  then have k8: "unat (8 * k) = 8 * unat k" using assms(3) by (simp add: unat_word_ariths)
  then have "8 * k \<noteq> 0" using k(1) by (metis mult_is_0 not_less0 unat_0 zero_neq_numeral)
  then have "unat (- (8 * k)) = 2 ^ 32 - 8 * unat k" using k8 unat_negated by metis
  then have far: "4 \<le> unat (b + 4 - (b + 8 * k + 4))" "4 \<le> unat (b + 8 * k + 4 - (b + 4))"
    using k k8 assms(3) by simp_all
  let ?h = "(set_size (b + 8 * k) n (set_size b k h))\<lparr>freep := p\<rparr>"
  have s: "h_size b (set_size b k h) = k" "h_size (b + 8 * k) ?h = n" "h_size b ?h = k"
    by (simp_all add: h_size_def set_size_def read32_write32_same read32_write32_other [OF far])
  have "h_size b h \<noteq> n" using assms(1) by simp
  then have "malloc_take n p b h = (b + 8 * k + 8, ?h)"
    unfolding malloc_take_def k_def [symmetric] Let_def s(1) by simp
  moreover have "freep ?h = p" by simp
  ultimately show ?thesis
    using s(2,3) unfolding k_def [symmetric] by (intro exI [of _ ?h]) (simp only: simp_thms)
qed

text \<open>C33. The allocator takes the first free block that is large enough. When the blocks on the list before
  \<open>b\<close> are too small and \<open>b\<close> is not, \<open>malloc\<close> returns without asking the kernel for memory; the
  bytes it hands out lie inside \<open>b\<close>, behind a header that records the size for \<open>free\<close>; a block that
  fits exactly is taken off the list, and a larger one is shortened by what was taken.\<close>

theorem malloc_first_fit:
  assumes "freep h \<noteq> 0" "links h (freep h) (xs @ [b])" "unat nbytes + 8 < 2 ^ 32" "nunits = (nbytes + 7) div 8 + 1"
    and "list_all (\<lambda>q. h_size q h < nunits \<and> q \<noteq> freep h) xs" "nunits \<le> h_size b h"
    and "unat b + 8 * unat (h_size b h) < 2 ^ 32" "unat b mod 8 = 0" "unat (last (freep h # xs)) mod 8 = 0"
  shows "\<exists>r h'. malloc sbrk base nbytes h = Some (r, h') \<and> unat b + 8 \<le> unat r
    \<and> unat r + unat nbytes \<le> unat b + 8 * unat (h_size b h) \<and> h_size (r - 8) h' = nunits
    \<and> freep h' = last (freep h # xs)
    \<and> (if h_size b h = nunits then h_ptr (freep h') h' = h_ptr b h
       else h_size b h' = h_size b h - nunits \<and> r - 8 = b + 8 * (h_size b h - nunits))"
proof -
  let ?p = "last (freep h # xs)"
  have n: "unat nunits = (unat nbytes + 7) div 8 + 1"
    using assms(3) by (simp add: assms(4) unat_word_ariths unat_div)
  have le: "unat nunits \<le> unat (h_size b h)" using assms(6) by (simp add: word_le_nat_alt)
  have "(nbytes + 8 - 1) div 8 + 1 = nunits" by (simp add: assms(4) add.commute)
  then have run: "malloc sbrk base nbytes h = Some (malloc_take nunits ?p b h)"
    using assms(1) malloc_loop_first_fit [OF assms(2,5,6), of sbrk] by (simp only: malloc_def Let_def if_False)
  show ?thesis
  proof (cases "h_size b h = nunits")
    case True
    then have "unat (b + 8) = unat b + 8" using assms(7) n by (simp add: unat_word_ariths)
    with True run malloc_take_exact [OF True assms(9,8)] n show ?thesis by auto
  next
    case False
    define k where "k = h_size b h - nunits"
    have k: "unat k = unat (h_size b h) - unat nunits" using le by (simp add: k_def unat_sub word_le_nat_alt)
    have "unat (8 * k) = 8 * unat k" using k assms(7) by (simp add: unat_word_ariths)
    then have r: "unat (b + 8 * k + 8) = unat b + 8 * unat k + 8"
      using k n le assms(7) by (simp add: unat_word_ariths)
    have "nunits < h_size b h" "0 < nunits" using False assms(6) n by (auto simp: word_less_nat_alt le_less)
    from malloc_take_tail [OF this assms(7), of ?p] obtain h' where
      h': "malloc_take nunits ?p b h = (b + 8 * k + 8, h')" "h_size (b + 8 * k) h' = nunits" "freep h' = ?p" "h_size b h' = k"
      by (auto simp flip: k_def)
    have u: "unat b + 8 \<le> unat (b + 8 * k + 8)" "unat (b + 8 * k + 8) + unat nbytes \<le> unat b + 8 * unat (h_size b h)"
      "b + 8 * k + 8 - 8 = b + 8 * k"
      using k n le r by simp_all
    show ?thesis
      unfolding run h'(1) k_def [symmetric]
      by (intro exI [of _ "b + 8 * k + 8"] exI [of _ h']) (simp only: u h' False if_False simp_thms)
  qed
qed

definition heap_demo :: uheap where
  "heap_demo =
     (let h = \<lparr>um = (\<lambda>_. 0), freep = 0x1000\<rparr>;
          h = set_size 0x1000 0 (set_ptr 0x1000 0x2000 h);
          h = set_size 0x2000 2 (set_ptr 0x2000 0x3000 h) in
      set_size 0x3000 10 (set_ptr 0x3000 0x1000 h))"

lemma heap_demo_list:
  "freep heap_demo = 0x1000" "h_ptr 0x1000 heap_demo = 0x2000" "h_ptr 0x2000 heap_demo = 0x3000"
  "h_size 0x2000 heap_demo = 2" "h_size 0x3000 heap_demo = 10"
  by (simp_all add: heap_demo_def set_size_def set_ptr_def h_ptr_def h_size_def read32_write32_other read32_write32_same Let_def)

theorem malloc_first_fit_witness:
  "\<exists>r h'. malloc (\<lambda>_ h. (-1, h)) 0x1000 20 heap_demo = Some (r, h') \<and> 0x3008 \<le> unat r
    \<and> unat r + 20 \<le> 0x3050 \<and> h_size (r - 8) h' = 4 \<and> freep h' = 0x2000 \<and> h_size 0x3000 h' = 6"
proof -
  have n: "4 = ((20 :: uint) + 7) div 8 + 1" by (simp add: word_unat_eq_iff unat_div)
  have a: "freep heap_demo \<noteq> 0" "links heap_demo (freep heap_demo) ([0x2000] @ [0x3000])"
    "list_all (\<lambda>q. h_size q heap_demo < 4 \<and> q \<noteq> freep heap_demo) [0x2000]" "4 \<le> h_size 0x3000 heap_demo"
    by (simp_all add: heap_demo_list word_less_nat_alt word_le_nat_alt)
  have b: "unat (20 :: uint) + 8 < 2 ^ 32" "unat (0x3000 :: uint) + 8 * unat (h_size 0x3000 heap_demo) < 2 ^ 32"
    "unat (0x3000 :: uint) mod 8 = 0" "unat (last (freep heap_demo # [0x2000])) mod 8 = 0"
    by (simp_all add: heap_demo_list)
  have c: "unat (0x3000 :: uint) = 0x3000" "unat (20 :: uint) = 20" "unat (10 :: uint) = 10" "(10 :: uint) - 4 = 6"
    "(10 :: uint) \<noteq> 4" "last [0x1000, 0x2000 :: uint] = 0x2000"
    by simp_all
  obtain r h' where r: "malloc (\<lambda>_ h. (-1, h)) 0x1000 20 heap_demo = Some (r, h')" "0x3000 + 8 \<le> unat r"
    "unat r + 20 \<le> 0x3000 + 8 * 10" "h_size (r - 8) h' = 4" "freep h' = 0x2000" "h_size 0x3000 h' = 6"
    using malloc_first_fit [OF a(1,2) b(1) n a(3,4) b(2-4), of "\<lambda>_ h. (-1, h)" "0x1000"]
    unfolding heap_demo_list c by (auto simp only: c if_False)
  show ?thesis
    by (rule exI [of _ r], rule exI [of _ h'], intro conjI) (use r in simp_all)
qed

end
