(* ===== verification/Programs.thy ===== *)
theory Programs
  imports Ulib
begin

text \<open>
  Programs of the user: \<open>cat\<close>, \<open>wc\<close>, \<open>echo\<close>, \<open>kill\<close>, \<open>ln\<close>, \<open>mkdir\<close>, \<open>rm\<close> and \<open>grep\<close>. A string is the list of
  its bytes before the NUL. The system calls are parameters, on a state \<open>'w\<close> of the rest of the
  system; a program that calls \<open>exit\<close> ends with this state. No result stands for a program that
  does not come to its \<open>exit\<close>.
\<close>

section \<open>System calls\<close>

text \<open>
  \<open>u_read\<close> gives the bytes read, none of them at the end of the file, or no list after an error.
  The other calls give their result.
\<close>

record 'w sys =
  u_read :: "int \<Rightarrow> nat \<Rightarrow> 'w \<Rightarrow> uchar list option \<times> 'w"
  u_write :: "int \<Rightarrow> uchar list \<Rightarrow> 'w \<Rightarrow> int \<times> 'w"
  u_open :: "uchar list \<Rightarrow> uint \<Rightarrow> 'w \<Rightarrow> int \<times> 'w"
  u_close :: "int \<Rightarrow> 'w \<Rightarrow> 'w"
  u_kill :: "uint \<Rightarrow> 'w \<Rightarrow> 'w"
  u_link :: "uchar list \<Rightarrow> uchar list \<Rightarrow> 'w \<Rightarrow> int \<times> 'w"
  u_mkdir :: "uchar list \<Rightarrow> 'w \<Rightarrow> int \<times> 'w"
  u_unlink :: "uchar list \<Rightarrow> 'w \<Rightarrow> int \<times> 'w"

text \<open>\<open>printf\<close> to a descriptor, byte by byte.\<close>

definition say :: "'w sys \<Rightarrow> int \<Rightarrow> string \<Rightarrow> fmtarg list \<Rightarrow> 'w \<Rightarrow> 'w option" where
  "say sys fd fmt args w =
     (case printf (\<lambda>c w. snd (u_write sys fd [c] w)) (chars fmt) args w of Inr w \<Rightarrow> Some w | Inl h \<Rightarrow> None)"

text \<open>A message and then \<open>exit\<close>: the flag says whether the program goes on.\<close>

definition say_exit :: "'w sys \<Rightarrow> int \<Rightarrow> string \<Rightarrow> fmtarg list \<Rightarrow> 'w \<Rightarrow> (bool \<times> 'w) option" where
  "say_exit sys fd fmt args w = map_option (Pair False) (say sys fd fmt args w)"

text \<open>The loop over the arguments that \<open>cat\<close>, \<open>wc\<close> and \<open>grep\<close> have: \<open>f\<close> treats one open file.\<close>

fun each_file :: "'w sys \<Rightarrow> string \<Rightarrow> (uchar list \<Rightarrow> int \<Rightarrow> 'w \<Rightarrow> (bool \<times> 'w) option) \<Rightarrow> uchar list list \<Rightarrow> 'w \<Rightarrow> 'w option" where
  "each_file sys msg f [] w = Some w"
| "each_file sys msg f (a # as) w =
     (case u_open sys a 0 w of (fd, w) \<Rightarrow>
        if fd < 0 then say sys 1 msg [StrArg (Some a)] w
        else (case f a fd w of
                None \<Rightarrow> None
              | Some (go, w) \<Rightarrow> if go then each_file sys msg f as (u_close sys fd w) else Some w))"

section \<open>Copying and counting\<close>

partial_function (option) cat :: "'w sys \<Rightarrow> int \<Rightarrow> 'w \<Rightarrow> (bool \<times> 'w) option" where
  "cat sys fd w =
     (case u_read sys fd 512 w of
        (None, w) \<Rightarrow> say_exit sys 1 ''cat: read error\<newline>'' [] w
      | (Some bs, w) \<Rightarrow>
          if bs = [] then Some (True, w)
          else (case u_write sys 1 bs w of (k, w) \<Rightarrow>
                  if k \<noteq> int (length bs) then say_exit sys 1 ''cat: write error\<newline>'' [] w
                  else cat sys fd w))"

text \<open>The arguments are those after the name of the program.\<close>

definition cat_main :: "'w sys \<Rightarrow> uchar list list \<Rightarrow> 'w \<Rightarrow> 'w option" where
  "cat_main sys args w =
     (if args = [] then map_option snd (cat sys 0 w)
      else each_file sys ''cat: cannot open %s\<newline>'' (\<lambda>_. cat sys) args w)"

definition is_space :: "uchar \<Rightarrow> bool" where
  "is_space b \<longleftrightarrow> b \<in> {32, 13, 9, 10, 11}"

text \<open>Lines, words, characters, and whether the last byte was in a word.\<close>

type_synonym counts = "uint \<times> uint \<times> uint \<times> bool"

fun wc_byte :: "uchar \<Rightarrow> counts \<Rightarrow> counts" where
  "wc_byte b (l, w, c, inword) =
     (let l = (if b = 10 then l + 1 else l) in
      if is_space b then (l, w, c + 1, False)
      else if \<not> inword then (l, w + 1, c + 1, True)
      else (l, w, c + 1, inword))"

partial_function (option) wc_loop :: "'w sys \<Rightarrow> int \<Rightarrow> counts \<Rightarrow> 'w \<Rightarrow> (counts option \<times> 'w) option" where
  "wc_loop sys fd st w =
     (case u_read sys fd 512 w of
        (None, w) \<Rightarrow> Some (None, w)
      | (Some bs, w) \<Rightarrow> if bs = [] then Some (Some st, w) else wc_loop sys fd (fold wc_byte bs st) w)"

definition wc :: "'w sys \<Rightarrow> int \<Rightarrow> uchar list \<Rightarrow> 'w \<Rightarrow> (bool \<times> 'w) option" where
  "wc sys fd name w =
     (case wc_loop sys fd (0, 0, 0, False) w of
        None \<Rightarrow> None
      | Some (None, w) \<Rightarrow> say_exit sys 1 ''wc: read error\<newline>'' [] w
      | Some (Some (l, k, c, inword), w) \<Rightarrow>
          map_option (Pair True) (say sys 1 ''%d %d %d %s\<newline>'' [NumArg l, NumArg k, NumArg c, StrArg (Some name)] w))"

definition wc_main :: "'w sys \<Rightarrow> uchar list list \<Rightarrow> 'w \<Rightarrow> 'w option" where
  "wc_main sys args w =
     (if args = [] then map_option snd (wc sys 0 [] w)
      else each_file sys ''wc: cannot open %s\<newline>'' (\<lambda>a fd. wc sys fd a) args w)"

section \<open>One call per argument\<close>

fun echo_main :: "'w sys \<Rightarrow> uchar list list \<Rightarrow> 'w \<Rightarrow> 'w option" where
  "echo_main sys [] w = Some w"
| "echo_main sys (a # as) w =
     Option.bind (say sys 1 ''%s%s'' [StrArg (Some a), StrArg (Some (chars (if as \<noteq> [] then '' '' else ''\<newline>'')))] w) (echo_main sys as)"

definition kill_main :: "'w sys \<Rightarrow> uchar list list \<Rightarrow> 'w \<Rightarrow> 'w option" where
  "kill_main sys args w =
     (if args = [] then say sys 2 ''usage: kill pid...\<newline>'' [] w
      else Some (fold (\<lambda>a. u_kill sys (atoi a)) args w))"

definition ln_main :: "'w sys \<Rightarrow> uchar list list \<Rightarrow> 'w \<Rightarrow> 'w option" where
  "ln_main sys args w =
     (if length args \<noteq> 2 then say sys 2 ''Usage: ln old new\<newline>'' [] w
      else case u_link sys (args ! 0) (args ! 1) w of (r, w) \<Rightarrow>
        if r < 0 then say sys 2 ''link %s %s: failed\<newline>'' [StrArg (Some (args ! 0)), StrArg (Some (args ! 1))] w
        else Some w)"

fun mkdir_each :: "'w sys \<Rightarrow> uchar list list \<Rightarrow> 'w \<Rightarrow> 'w option" where
  "mkdir_each sys [] w = Some w"
| "mkdir_each sys (a # as) w =
     (case u_mkdir sys a w of (r, w) \<Rightarrow>
        if r < 0 then say sys 2 ''mkdir: %s failed to create\<newline>'' [StrArg (Some a)] w else mkdir_each sys as w)"

definition mkdir_main :: "'w sys \<Rightarrow> uchar list list \<Rightarrow> 'w \<Rightarrow> 'w option" where
  "mkdir_main sys args w = (if args = [] then say sys 2 ''Usage: mkdir files...\<newline>'' [] w else mkdir_each sys args w)"

fun rm_each :: "'w sys \<Rightarrow> uchar list list \<Rightarrow> 'w \<Rightarrow> 'w option" where
  "rm_each sys [] w = Some w"
| "rm_each sys (a # as) w =
     (case u_unlink sys a w of (r, w) \<Rightarrow>
        if r < 0 then say sys 2 ''rm: %s failed to delete\<newline>'' [StrArg (Some a)] w else rm_each sys as w)"

definition rm_main :: "'w sys \<Rightarrow> uchar list list \<Rightarrow> 'w \<Rightarrow> 'w option" where
  "rm_main sys args w = (if args = [] then say sys 2 ''Usage: rm files...\<newline>'' [] w else rm_each sys args w)"

section \<open>The matcher\<close>

function matchhere :: "uchar list \<Rightarrow> uchar list \<Rightarrow> bool"
  and matchstar :: "uchar \<Rightarrow> uchar list \<Rightarrow> uchar list \<Rightarrow> bool"
where
  "matchhere re str =
     (case re of
        [] \<Rightarrow> True
      | c # re1 \<Rightarrow>
          if re1 \<noteq> [] \<and> hd re1 = 42 then matchstar c (tl re1) str
          else if c = 36 \<and> re1 = [] then str = []
          else (case str of [] \<Rightarrow> False | x # str1 \<Rightarrow> if c = 46 \<or> c = x then matchhere re1 str1 else False))"
| "matchstar c re str =
     (if matchhere re str then True
      else case str of [] \<Rightarrow> False | x # str1 \<Rightarrow> if x = c \<or> c = 46 then matchstar c re str1 else False)"
  by pat_completeness auto
termination
  by (relation "measure (\<lambda>x. case x of Inl (re, str) \<Rightarrow> 2 * (length re + length str) | Inr (c, re, str) \<Rightarrow> 2 * (length re + length str) + 1)")
    auto

declare matchhere.simps [simp del] matchstar.simps [simp del]

fun match_from :: "uchar list \<Rightarrow> uchar list \<Rightarrow> bool" where
  "match_from re [] = matchhere re []"
| "match_from re (x # str) = (if matchhere re (x # str) then True else match_from re str)"

definition match :: "uchar list \<Rightarrow> uchar list \<Rightarrow> bool" where
  "match re str = (if re \<noteq> [] \<and> hd re = 94 then matchhere (tl re) str else match_from re str)"

section \<open>The loop of grep\<close>

text \<open>
  The complete lines at the front of the bytes in the buffer: each one that matches is written, and
  the bytes behind the last one are left. As \<open>strchr\<close> does, the search for the end of a line stops at
  a NUL.
\<close>

function grep_lines :: "'w sys \<Rightarrow> uchar list \<Rightarrow> uchar list \<Rightarrow> 'w \<Rightarrow> uchar list \<times> 'w" where
  "grep_lines sys re p w =
     (let l = takeWhile (\<lambda>x. x \<noteq> 10 \<and> x \<noteq> 0) p in
      case drop (length l) p of
        [] \<Rightarrow> (p, w)
      | x # q \<Rightarrow>
          if x = 10 then grep_lines sys re q (if match re l then snd (u_write sys 1 (l @ [10]) w) else w)
          else (p, w))"
  by pat_completeness auto
termination
proof (relation "measure (\<lambda>(sys, re, p, w). length p)")
  fix sys :: "'w sys" and re p l :: "uchar list" and w and x and q :: "uchar list"
  assume "drop (length l) p = x # q"
  then have "length (drop (length l) p) = Suc (length q)" by simp
  then have "length q < length p" by simp
  then show "((sys, re, q, if match re l then snd (u_write sys 1 (l @ [10]) w) else w), sys, re, p, w) \<in> measure (\<lambda>(sys, re, p, w). length p)"
    by simp
qed simp

declare grep_lines.simps [simp del]

text \<open>\<open>held\<close> are the bytes kept in the buffer from earlier rounds. When the buffer has no complete line it is emptied.\<close>

partial_function (option) grep :: "'w sys \<Rightarrow> uchar list \<Rightarrow> int \<Rightarrow> uchar list \<Rightarrow> 'w \<Rightarrow> 'w option" where
  "grep sys re fd held w =
     (case u_read sys fd (1024 - length held - 1) w of
        (None, w) \<Rightarrow> Some w
      | (Some bs, w) \<Rightarrow>
          if bs = [] then Some w
          else
            let buf = held @ bs; (p, w) = grep_lines sys re buf w in
            grep sys re fd (if length p = length buf then [] else p) w)"

definition grep_main :: "'w sys \<Rightarrow> uchar list list \<Rightarrow> 'w \<Rightarrow> 'w option" where
  "grep_main sys args w =
     (if args = [] then say sys 2 ''usage: grep pattern [file ...]\<newline>'' [] w
      else if length args = 1 then grep sys (args ! 0) 0 [] w
      else each_file sys ''grep: cannot open %s\<newline>''
             (\<lambda>_ fd w. map_option (Pair True) (grep sys (args ! 0) fd [] w)) (tl args) w)"

lemma matchhere_cases:
  "matchhere [] str"
  "matchhere [c] str = (if c = 36 then str = [] else case str of [] \<Rightarrow> False | x # str \<Rightarrow> (c = 46 \<or> c = x) \<and> matchhere [] str)"
  "matchhere (c # d # re) str = (if d = 42 then matchstar c re str
     else case str of [] \<Rightarrow> False | x # str \<Rightarrow> (c = 46 \<or> c = x) \<and> matchhere (d # re) str)"
  by (simp_all add: matchhere.simps [of "[]" str] matchhere.simps [of "[c]" str] matchhere.simps [of "c # d # re" str] split: list.splits) blast+

lemma matchstar_cases:
  "matchstar c re [] = matchhere re []"
  "matchstar c re (x # str) = (matchhere re (x # str) \<or> ((x = c \<or> c = 46) \<and> matchstar c re str))"
  by (simp_all add: matchstar.simps [of c re "[]"] matchstar.simps [of c re "x # str"])

section \<open>What a pattern means\<close>

datatype atom = One uchar | Star uchar | End

fun compile :: "uchar list \<Rightarrow> atom list" where
  "compile [] = []"
| "compile [c] = [if c = 36 then End else One c]"
| "compile (c # d # re) = (if d = 42 then Star c # compile re else One c # compile (d # re))"

definition fits_char :: "uchar \<Rightarrow> uchar \<Rightarrow> bool" where
  "fits_char c x \<longleftrightarrow> c = 46 \<or> c = x"

text \<open>The bytes \<open>u\<close>, followed by \<open>v\<close>, have the form of the pattern.\<close>

inductive fits :: "atom list \<Rightarrow> uchar list \<Rightarrow> uchar list \<Rightarrow> bool" where
  fits_Nil: "fits [] [] v"
| fits_One: "fits_char c x \<Longrightarrow> fits as u v \<Longrightarrow> fits (One c # as) (x # u) v"
| fits_Star: "list_all (fits_char c) w \<Longrightarrow> fits as u v \<Longrightarrow> fits (Star c # as) (w @ u) v"
| fits_End: "fits [End] [] []"

inductive_cases fits_NilE: "fits [] u v"
inductive_cases fits_OneE: "fits (One c # as) u v"
inductive_cases fits_StarE: "fits (Star c # as) u v"
inductive_cases fits_EndE: "fits [End] u v"

definition fits_at :: "atom list \<Rightarrow> uchar list \<Rightarrow> bool" where
  "fits_at as str \<longleftrightarrow> (\<exists>u v. str = u @ v \<and> fits as u v)"

lemma fits_at_simps:
  "fits_at [] str" "fits_at [End] str \<longleftrightarrow> str = []"
  "fits_at (One c # as) str \<longleftrightarrow> (\<exists>x t. str = x # t \<and> fits_char c x \<and> fits_at as t)"
proof -
  show "fits_at [] str" unfolding fits_at_def by (intro exI [of _ "[]"] exI [of _ str]) (simp add: fits_Nil)
  show "fits_at [End] str \<longleftrightarrow> str = []" unfolding fits_at_def by (auto intro: fits_End elim: fits_EndE)
  show "fits_at (One c # as) str \<longleftrightarrow> (\<exists>x t. str = x # t \<and> fits_char c x \<and> fits_at as t)"
  proof
    assume "fits_at (One c # as) str"
    then show "\<exists>x t. str = x # t \<and> fits_char c x \<and> fits_at as t" unfolding fits_at_def by (fastforce elim!: fits_OneE)
  next
    assume "\<exists>x t. str = x # t \<and> fits_char c x \<and> fits_at as t"
    then obtain x u v where "str = (x # u) @ v" "fits_char c x" "fits as u v" unfolding fits_at_def by auto
    then show "fits_at (One c # as) str" unfolding fits_at_def by (blast intro: fits_One)
  qed
qed

lemma fits_at_Star:
  "fits_at (Star c # as) str \<longleftrightarrow> fits_at as str \<or> (\<exists>x t. str = x # t \<and> fits_char c x \<and> fits_at (Star c # as) t)"
proof
  assume "fits_at (Star c # as) str"
  then obtain w u v where t: "str = (w @ u) @ v" "list_all (fits_char c) w" "fits as u v"
    unfolding fits_at_def by (auto elim!: fits_StarE)
  show "fits_at as str \<or> (\<exists>x t. str = x # t \<and> fits_char c x \<and> fits_at (Star c # as) t)"
  proof (cases w)
    case Nil
    with t show ?thesis by (auto simp: fits_at_def)
  next
    case (Cons x w')
    with t have "fits (Star c # as) (w' @ u) v" by (auto intro: fits_Star)
    then have "fits_at (Star c # as) ((w' @ u) @ v)" unfolding fits_at_def by blast
    with t Cons have "str = x # ((w' @ u) @ v)" "fits_char c x" "fits_at (Star c # as) ((w' @ u) @ v)" by auto
    then show ?thesis by blast
  qed
next
  assume "fits_at as str \<or> (\<exists>x t. str = x # t \<and> fits_char c x \<and> fits_at (Star c # as) t)"
  then show "fits_at (Star c # as) str"
  proof
    assume "fits_at as str"
    then obtain u v where "str = ([] @ u) @ v" "fits as u v" by (auto simp: fits_at_def)
    moreover from this have "fits (Star c # as) ([] @ u) v" by (intro fits_Star) simp_all
    ultimately show ?thesis unfolding fits_at_def by blast
  next
    assume "\<exists>x t. str = x # t \<and> fits_char c x \<and> fits_at (Star c # as) t"
    then obtain x w u v where "str = ((x # w) @ u) @ v" "fits_char c x" "list_all (fits_char c) w" "fits as u v"
      unfolding fits_at_def by (auto elim!: fits_StarE)
    moreover from this have "fits (Star c # as) ((x # w) @ u) v" by (intro fits_Star) simp_all
    ultimately show ?thesis unfolding fits_at_def by blast
  qed
qed

lemma matcher_fits:
  "matchhere re str \<longleftrightarrow> fits_at (compile re) str" "matchstar c re str \<longleftrightarrow> fits_at (Star c # compile re) str"
proof (induction re str and c re str rule: matchhere_matchstar.induct)
  case (1 re str)
  show ?case
  proof (cases re rule: compile.cases)
    case (2 c)
    then show ?thesis using 1(2) [of c "[]"] by (auto simp: matchhere_cases fits_at_simps fits_char_def split: list.splits)
  next
    case (3 c d re')
    show ?thesis
    proof (cases "d = 42")
      case True
      then show ?thesis using 1(1) [of c "d # re'"] 3 by (simp add: matchhere_cases)
    next
      case False
      then show ?thesis using 1(2) [of c "d # re'"] 3 by (auto simp: matchhere_cases fits_at_simps fits_char_def split: list.splits)
    qed
  qed (simp add: matchhere_cases fits_at_simps)
next
  case (2 c re str)
  show ?case
  proof (cases str)
    case Nil
    then show ?thesis using 2(1) fits_at_Star [of c "compile re" str] by (simp add: matchstar_cases)
  next
    case (Cons x t)
    then show ?thesis
      using 2(1) 2(2) [of x t] fits_at_Star [of c "compile re" str] by (auto simp: matchstar_cases fits_char_def)
  qed
qed

lemma match_from_iff: "match_from re str \<longleftrightarrow> (\<exists>w t. str = w @ t \<and> matchhere re t)"
proof (induction str)
  case (Cons x str)
  show ?case
  proof
    assume "match_from re (x # str)"
    then consider "matchhere re (x # str)" | "match_from re str" by (auto split: if_splits)
    then show "\<exists>w t. x # str = w @ t \<and> matchhere re t"
    proof cases
      case 1
      then show ?thesis by (intro exI [of _ "[]"] exI [of _ "x # str"]) simp
    next
      case 2
      then obtain w t where "x # str = (x # w) @ t" "matchhere re t" using Cons by auto
      then show ?thesis by blast
    qed
  next
    assume "\<exists>w t. x # str = w @ t \<and> matchhere re t"
    then show "match_from re (x # str)" using Cons by (auto simp: Cons_eq_append_conv)
  qed
qed simp

text \<open>C34.
  The matcher decides the meaning of its patterns: a pattern with \<open>^\<close> in front matches the lines
  that begin with bytes of its form, any other pattern the lines that have such bytes somewhere;
  \<open>c*\<close> stands for any number of the character and a final \<open>$\<close> for the end of the line.
\<close>

theorem match_correct:
  "match re str \<longleftrightarrow>
    (if re \<noteq> [] \<and> hd re = 94 then \<exists>u v. str = u @ v \<and> fits (compile (tl re)) u v
     else \<exists>w u v. str = w @ u @ v \<and> fits (compile re) u v)"
  by (auto simp: match_def match_from_iff matcher_fits(1) fits_at_def) 

section \<open>Counting\<close>

text \<open>Reading the descriptor until the end of the file gives the bytes \<open>cs\<close>, in whatever pieces.\<close>

inductive delivers :: "'w sys \<Rightarrow> int \<Rightarrow> nat \<Rightarrow> 'w \<Rightarrow> uchar list list \<Rightarrow> 'w \<Rightarrow> bool" for sys fd n where
  at_end: "u_read sys fd n w = (Some [], w') \<Longrightarrow> delivers sys fd n w [] w'"
| a_piece: "u_read sys fd n w = (Some b, w1) \<Longrightarrow> b \<noteq> [] \<Longrightarrow> delivers sys fd n w1 cs w' \<Longrightarrow> delivers sys fd n w (b # cs) w'"

text \<open>Where words begin.\<close>

definition word_starts :: "uchar list \<Rightarrow> nat" where
  "word_starts bs = card {i. i < length bs \<and> \<not> is_space (bs ! i) \<and> (i = 0 \<or> is_space (bs ! (i - 1)))}"

lemma word_starts_snoc:
  "word_starts (bs @ [b]) = word_starts bs + of_bool (\<not> is_space b \<and> (bs = [] \<or> is_space (last bs)))"
proof -
  define Q where "Q i \<longleftrightarrow> \<not> is_space ((bs @ [b]) ! i) \<and> (i = 0 \<or> is_space ((bs @ [b]) ! (i - 1)))" for i
  have last: "Q (length bs) \<longleftrightarrow> \<not> is_space b \<and> (bs = [] \<or> is_space (last bs))"
    by (cases bs rule: rev_cases) (simp_all add: Q_def nth_append)
  have "{i. i < length bs \<and> \<not> is_space (bs ! i) \<and> (i = 0 \<or> is_space (bs ! (i - 1)))} = {i. i < length bs \<and> Q i}"
    by (auto simp: Q_def nth_append)
  moreover have "{i. i < Suc (length bs) \<and> Q i} = {i. i < length bs \<and> Q i} \<union> (if Q (length bs) then {length bs} else {})"
    by (auto simp: less_Suc_eq)
  ultimately show ?thesis unfolding word_starts_def last [symmetric] Q_def [symmetric] by simp
qed

lemma wc_fold:
  "fold wc_byte bs (0, 0, 0, False)
    = (of_nat (count_list bs 10), of_nat (word_starts bs), of_nat (length bs), bs \<noteq> [] \<and> \<not> is_space (last bs))"
proof (induction bs rule: rev_induct)
  case Nil
  show ?case by (simp add: word_starts_def)
next
  case (snoc b bs)
  then show ?case by (auto simp: word_starts_snoc is_space_def Let_def)
qed

lemma wc_loop_delivers:
  "delivers sys fd 512 w cs w' \<Longrightarrow> wc_loop sys fd st w = Some (Some (fold wc_byte (concat cs) st), w')"
proof (induction arbitrary: st rule: delivers.induct)
  case (at_end w w')
  then show ?case by (subst wc_loop.simps) simp
next
  case (a_piece w b w1 cs w')
  then show ?case by (subst wc_loop.simps) simp
qed

section \<open>A scripted machine\<close>

text \<open>The input comes in given pieces, one per read where it fits; the writes are recorded.\<close>

type_synonym script = "uchar list list \<times> (int \<times> uchar list) list"

definition script :: "script sys" where
  "script = \<lparr>u_read = (\<lambda>fd n (cs, out). case cs of
       [] \<Rightarrow> (Some [], cs, out)
     | c # cs \<Rightarrow> (Some (take n c), (if length c \<le> n then cs else drop n c # cs), out)),
     u_write = (\<lambda>fd bs (cs, out). (int (length bs), cs, out @ [(fd, bs)])),
     u_open = (\<lambda>_ _ w. (3, w)), u_close = (\<lambda>_ w. w), u_kill = (\<lambda>_ w. w), u_link = (\<lambda>_ _ w. (0, w)),
     u_mkdir = (\<lambda>_ w. (0, w)), u_unlink = (\<lambda>_ w. (0, w))\<rparr>"

text \<open>The complete lines of the bytes, and what is behind the last one.\<close>

fun split_lines :: "uchar list \<Rightarrow> uchar list list \<times> uchar list" where
  "split_lines [] = ([], [])"
| "split_lines (x # xs) =
     (let (ls, r) = split_lines xs in
      if x = 10 then ([] # ls, r) else case ls of [] \<Rightarrow> ([], x # r) | l # ls \<Rightarrow> ((x # l) # ls, r))"

lemma split_lines_line: "10 \<notin> set l \<Longrightarrow> split_lines (l @ 10 # xs) = (l # fst (split_lines xs), snd (split_lines xs))"
  by (induction l) (auto simp: case_prod_beta)

lemma split_lines_none: "10 \<notin> set xs \<Longrightarrow> split_lines xs = ([], xs)"
  by (induction xs) auto

lemma line_cases:
  obtains "10 \<notin> set xs" | l ys where "xs = l @ 10 # ys" "10 \<notin> set (l :: uchar list)"
  using split_list_first [of 10 xs] by blast

lemma split_lines_append:
  "split_lines (xs @ ys) = (fst (split_lines xs) @ fst (split_lines (snd (split_lines xs) @ ys)), snd (split_lines (snd (split_lines xs) @ ys)))"
proof (induction "length xs" arbitrary: xs rule: less_induct)
  case less
  show ?case
  proof (cases xs rule: line_cases)
    case 1
    then show ?thesis by (simp add: split_lines_none)
  next
    case (2 l zs)
    then show ?thesis using less [of zs] by (simp add: split_lines_line)
  qed
qed

definition show_line :: "uchar list \<Rightarrow> uchar list \<Rightarrow> 'w sys \<Rightarrow> 'w \<Rightarrow> 'w" where
  "show_line re l sys w = (if match re l then snd (u_write sys 1 (l @ [10]) w) else w)"

lemma grep_lines_split:
  "0 \<notin> set p \<Longrightarrow> grep_lines sys re p w = (snd (split_lines p), fold (\<lambda>l. show_line re l sys) (fst (split_lines p)) w)"
proof (induction "length p" arbitrary: p w rule: less_induct)
  case less
  show ?case
  proof (cases p rule: line_cases)
    case 1
    then have tw: "takeWhile (\<lambda>x. x \<noteq> 10 \<and> x \<noteq> 0) p = p" using less.prems by (auto simp: takeWhile_eq_all_conv)
    show ?thesis unfolding grep_lines.simps [of sys re p] Let_def tw using 1 by (simp add: split_lines_none)
  next
    case (2 l q)
    then have tw: "takeWhile (\<lambda>x. x \<noteq> 10 \<and> x \<noteq> 0) p = l"
      using less.prems unfolding 2(1) by (subst takeWhile_append2) auto
    show ?thesis unfolding grep_lines.simps [of sys re p] Let_def tw using 2 less.hyps [of q] less.prems
      by (simp add: split_lines_line show_line_def)
  qed
qed

lemma show_lines_script:
  "fold (\<lambda>l. show_line re l script) ls (cs, out) = (cs, out @ map (\<lambda>l. (1, l @ [10])) (filter (match re) ls))"
  by (induction ls arbitrary: out) (simp_all add: show_line_def script_def)

lemma snd_split_lines: "length (snd (split_lines xs)) \<le> length xs \<and> 10 \<notin> set (snd (split_lines xs))
    \<and> set (snd (split_lines xs)) \<subseteq> set xs \<and> (10 \<in> set xs \<longrightarrow> length (snd (split_lines xs)) < length xs)"
  by (induction xs) (auto simp: case_prod_beta split: list.splits)

lemma snd_split_append: "10 \<in> set ys \<Longrightarrow> snd (split_lines (xs @ ys)) = snd (split_lines ys)"
proof (induction xs)
  case (Cons x xs)
  then have "fst (split_lines (xs @ ys)) \<noteq> []"
    using split_lines_line line_cases [of "xs @ ys"] by (metis Un_iff fst_conv list.distinct(1) set_append)
  with Cons show ?case by (auto simp: case_prod_beta split: list.splits)
qed simp

definition good_piece :: "uchar list \<Rightarrow> bool" where
  "good_piece c \<longleftrightarrow> 10 \<in> set c \<and> 0 \<notin> set c \<and> length c \<le> 512"

lemma grep_pieces:
  "list_all good_piece cs \<Longrightarrow> 0 \<notin> set held \<Longrightarrow> 10 \<notin> set held \<Longrightarrow> length held < 512 \<Longrightarrow>
   grep script re fd held (cs, out) = Some ([], out @ map (\<lambda>l. (1, l @ [10])) (filter (match re) (fst (split_lines (held @ concat cs)))))"
proof (induction cs arbitrary: held out)
  case Nil
  then show ?case by (subst grep.simps) (simp add: script_def split_lines_none)
next
  case (Cons c cs)
  let ?b = "held @ c" and ?p = "snd (split_lines c)"
  have c: "10 \<in> set c" "0 \<notin> set c" "length c \<le> 512" using Cons.prems(1) by (simp_all add: good_piece_def)
  then have ne: "c \<noteq> []" by auto
  have read: "u_read script fd (1023 - length held) (c # cs, out) = (Some c, cs, out)"
    using c(3) Cons.prems(4) by (simp add: script_def)
  have p: "snd (split_lines ?b) = ?p" by (rule snd_split_append [OF c(1)])
  have lines: "grep_lines script re ?b (cs, out) = (?p, cs, out @ map (\<lambda>l. (1, l @ [10])) (filter (match re) (fst (split_lines ?b))))"
    using grep_lines_split [of ?b script re] c(2) Cons.prems(2) by (simp add: show_lines_script p)
  have q: "length ?p < length c" "10 \<notin> set ?p" "0 \<notin> set ?p" using snd_split_lines [of c] c by auto
  have "split_lines (?b @ concat cs) = (fst (split_lines ?b) @ fst (split_lines (?p @ concat cs)), snd (split_lines (?p @ concat cs)))"
    by (simp add: split_lines_append [of ?b] p del: append_assoc)
  then have "fst (split_lines (held @ concat (c # cs))) = fst (split_lines ?b) @ fst (split_lines (?p @ concat cs))" by simp
  moreover have "grep script re fd ?p (cs, out') = Some ([], out' @ map (\<lambda>l. (1, l @ [10])) (filter (match re) (fst (split_lines (?p @ concat cs)))))" for out'
    by (rule Cons.IH) (use Cons.prems(1) q c(3) in auto)
  ultimately show ?case using ne q(1) by (subst grep.simps) (simp add: read lines)
qed

text \<open>
  \<open>wc\<close> prints the number of newlines, of beginnings of words and of bytes of its input, in whatever
  pieces the input arrives.
\<close>

theorem wc_counts:
  assumes "delivers sys fd 512 w cs w'"
  shows "wc sys fd name w = map_option (Pair True) (say sys 1 ''%d %d %d %s\<newline>''
    [NumArg (of_nat (count_list (concat cs) 10)), NumArg (of_nat (word_starts (concat cs))),
     NumArg (of_nat (length (concat cs))), StrArg (Some name)] w')"
  using wc_loop_delivers [OF assms] by (simp add: wc_def wc_fold)

theorem wc_counts_witness:
  "wc script 0 [] ([[97, 32, 98], [99, 10]], []) = map_option (Pair True) (say script 1 ''%d %d %d %s\<newline>''
    [NumArg (of_nat (count_list (concat [[97, 32, 98], [99 :: uchar, 10]]) 10)), NumArg (of_nat (word_starts (concat [[97, 32, 98], [99, 10]]))),
     NumArg (of_nat (length (concat [[97, 32, 98], [99 :: uchar, 10]]))), StrArg (Some [])] ([], []))"
  by (rule wc_counts) (auto intro!: delivers.intros simp: script_def)

text \<open>
  \<open>grep\<close> prints exactly the complete lines of its input that match, in order, if every piece that a
  read delivers has the end of a line in it; lines may begin in one piece and end in the next.
\<close>

theorem grep_prints:
  assumes "list_all good_piece cs"
  shows "grep script re fd [] (cs, out)
    = Some ([], out @ map (\<lambda>l. (1, l @ [10])) (filter (match re) (fst (split_lines (concat cs)))))"
  using grep_pieces [OF assms, of "[]"] by simp

theorem grep_prints_witness:
  "grep script [98] 0 [] ([[97, 10, 97], [98, 10]], []) = Some ([], [(1, [97, 98, 10])])"
proof -
  have "match [98] [97, 98]" "\<not> match [98] [97]" by (simp_all add: match_def matchhere_cases)
  then show ?thesis using grep_prints [of "[[97, 10, 97], [98, 10]]" "[98]" 0 "[]"] by (simp add: good_piece_def)
qed

text \<open>
  A piece of input without the end of a line is lost: \<open>grep\<close> goes on as if the line began with the
  next piece, and prints only that part of it.
\<close>

theorem grep_loses_piece:
  assumes "a \<noteq> []" "length a \<le> 512" "length b < 512" "0 \<notin> set (a @ b)" "10 \<notin> set (a @ b)"
  shows "grep script re fd [] ([a, b @ [10]], out) = Some ([], out @ (if match re b then [(1, b @ [10])] else []))"
proof -
  have "grep script re fd [] ([b @ [10]], out) = Some ([], out @ map (\<lambda>l. (1, l @ [10])) (filter (match re) (fst (split_lines (b @ [10])))))"
    using grep_pieces [of "[b @ [10]]" "[]" re fd out] assms by (simp add: good_piece_def)
  moreover have "grep_lines script re a ([b @ [10]], out) = (a, [b @ [10]], out)"
    using grep_lines_split [of a script re] assms by (simp add: split_lines_none)
  moreover have "u_read script fd 1023 ([a, b @ [10]], out) = (Some a, [b @ [10]], out)" using assms(2) by (simp add: script_def)
  ultimately show ?thesis using assms by (subst grep.simps) (simp add: split_lines_line)
qed

theorem grep_loses_piece_witness:
  "match [97] [97, 98] \<and> grep script [97] 0 [] ([[97], [98, 10]], []) = Some ([], [])"
proof -
  have "match [97] [97, 98]" "\<not> match [97] [98]" by (simp_all add: match_def matchhere_cases)
  then show ?thesis using grep_loses_piece [of "[97]" "[98]" "[97]" 0 "[]"] by simp
qed

end
