(* ===== verification/Ls.thy ===== *)
theory Ls
  imports Programs Fs
begin

text \<open>
  The program \<open>ls\<close> (\<open>ls.c\<close>), over the system calls of \<open>Programs\<close> with \<open>fstat\<close>, and the routine \<open>stat\<close> of \<open>ulib.c\<close>.
  Strings are their bytes before the NUL.
\<close>

record ustat =
  us_type :: ushort
  us_ino :: uint
  us_size :: uint

record 'w lsys = "'w sys" +
  u_fstat :: "int \<Rightarrow> 'w \<Rightarrow> ustat option \<times> 'w"

definition ulib_stat :: "'w lsys \<Rightarrow> uchar list \<Rightarrow> 'w \<Rightarrow> ustat option \<times> 'w" where
  "ulib_stat sys n w =
     (case u_open sys n 0 w of (fd, w) \<Rightarrow>
        if fd < 0 then (None, w)
        else case u_fstat sys fd w of (r, w) \<Rightarrow> (r, u_close sys fd w))"

text \<open>The bytes after the last slash, with blanks up to the length of a name.\<close>

definition fmtname :: "uchar list \<Rightarrow> uchar list" where
  "fmtname path =
     (let p = rev (takeWhile (\<lambda>c. c \<noteq> 47) (rev path)) in
      if DIRSIZ \<le> length p then p else p @ replicate (DIRSIZ - length p) 32)"

definition ls_line :: "'w lsys \<Rightarrow> uchar list \<Rightarrow> ustat \<Rightarrow> 'w \<Rightarrow> 'w option" where
  "ls_line sys path st w =
     say (sys.truncate sys) 1 ''%s %d %d %d\<newline>''
       [StrArg (Some (fmtname path)), NumArg (ucast (us_type st)), NumArg (us_ino st), NumArg (us_size st)] w"

text \<open>The loop over the entries of the directory; a name has at most \<open>DIRSIZ\<close> bytes.\<close>

partial_function (option) ls_loop :: "'w lsys \<Rightarrow> int \<Rightarrow> uchar list \<Rightarrow> 'w \<Rightarrow> 'w option" where
  "ls_loop sys fd path w =
     (case u_read sys fd 16 w of
        (None, w) \<Rightarrow> Some w
      | (Some de, w) \<Rightarrow>
          if length de \<noteq> 16 then Some w
          else if get16 de 0 = 0 then ls_loop sys fd path w
          else
            let buf = path @ [47] @ takeWhile (\<lambda>c. c \<noteq> 0) (take DIRSIZ (drop 2 de)) in
            (case ulib_stat sys buf w of
               (None, w) \<Rightarrow> Option.bind (say (sys.truncate sys) 1 ''ls: cannot stat %s\<newline>'' [StrArg (Some buf)] w) (ls_loop sys fd path)
             | (Some st, w) \<Rightarrow> Option.bind (ls_line sys buf st w) (ls_loop sys fd path)))"

definition ls :: "'w lsys \<Rightarrow> uchar list \<Rightarrow> 'w \<Rightarrow> 'w option" where
  "ls sys path w =
     (case u_open sys path 0 w of (fd, w) \<Rightarrow>
        if fd < 0 then say (sys.truncate sys) 2 ''ls: cannot open %s\<newline>'' [StrArg (Some path)] w
        else
          case u_fstat sys fd w of
            (None, w) \<Rightarrow> map_option (u_close sys fd) (say (sys.truncate sys) 2 ''ls: cannot stat %s\<newline>'' [StrArg (Some path)] w)
          | (Some st, w) \<Rightarrow>
              map_option (u_close sys fd)
                (if us_type st = T_FILE then ls_line sys path st w
                 else if us_type st = T_DIR then
                   if 512 < length path + 1 + DIRSIZ + 1 then say (sys.truncate sys) 1 ''ls: path too long\<newline>'' [] w
                   else ls_loop sys fd path w
                 else Some w))"

fun ls_each :: "'w lsys \<Rightarrow> uchar list list \<Rightarrow> 'w \<Rightarrow> 'w option" where
  "ls_each sys [] w = Some w"
| "ls_each sys (a # as) w = Option.bind (ls sys a w) (ls_each sys as)"

definition ls_main :: "'w lsys \<Rightarrow> uchar list list \<Rightarrow> 'w \<Rightarrow> 'w option" where
  "ls_main sys args w = (if args = [] then ls sys (chars ''.'') w else ls_each sys args w)"

text \<open>A name that has no slash comes out of a path with its blanks, at least \<open>DIRSIZ\<close> bytes wide.\<close>

lemma fmtname_width: "DIRSIZ \<le> length (fmtname path)"
  by (simp add: fmtname_def Let_def)

lemma fmtname_name:
  assumes "47 \<notin> set nm"
  shows "fmtname (dir @ [47] @ nm) = nm @ replicate (DIRSIZ - length nm) 32"
proof -
  have "takeWhile (\<lambda>c. c \<noteq> 47) (rev nm @ 47 # rev dir) = rev nm"
    using assms by (subst takeWhile_append2) auto
  then show ?thesis by (simp add: fmtname_def Let_def)
qed

end
