(* ===== verification/Sh.thy ===== *)
theory Sh
  imports Sysfile
begin

text \<open>
  The parser of the shell (\<open>sh.c\<close>): tokens, the recursive descent over pipes, lists, background
  commands, blocks and redirections, and the pass that ends every token with a NUL. The line is
  the list of its bytes before the NUL; the pointers into it are positions, and \<open>es\<close> is its length.
  The nodes that the constructors allocate are the values of \<open>cmd\<close>; a node that runs out of memory
  is not modelled. The shell's \<open>panic\<close>, which ends the shell, is \<open>Panic\<close>. The call of \<open>nulterminate\<close> at the
  end of \<open>parsecmd\<close> is made where its result is used, in \<open>run_line\<close> of \<open>Shrun\<close>; the message \<open>leftovers\<close>
  before the panic is left out.
\<close>

section \<open>Commands\<close>

text \<open>The arguments of a command are the first position of each and the position behind it.\<close>

datatype cmd = EXEC "(nat \<times> nat) list" | REDIR cmd "nat \<times> nat" uint int | PIPE cmd cmd | LIST cmd cmd | BACK cmd

definition MAXARGS :: nat where "MAXARGS = 10"
definition O_RDONLY :: uint where "O_RDONLY = 0"

definition execcmd :: cmd where [simp]: "execcmd = EXEC []"

definition redircmd :: "cmd \<Rightarrow> nat \<times> nat \<Rightarrow> uint \<Rightarrow> int \<Rightarrow> cmd" where [simp]: "redircmd c f mode fd = REDIR c f mode fd"

definition pipecmd :: "cmd \<Rightarrow> cmd \<Rightarrow> cmd" where [simp]: "pipecmd l r = PIPE l r"

definition listcmd :: "cmd \<Rightarrow> cmd \<Rightarrow> cmd" where [simp]: "listcmd l r = LIST l r"

definition backcmd :: "cmd \<Rightarrow> cmd" where [simp]: "backcmd c = BACK c"

text \<open>The node under construction stays inside the redirections around it, and gets its arguments there.\<close>

fun add_arg :: "nat \<times> nat \<Rightarrow> cmd \<Rightarrow> cmd" where
  "add_arg a (EXEC as) = EXEC (as @ [a])"
| "add_arg a (REDIR c f m d) = REDIR (add_arg a c) f m d"
| "add_arg a c = c"

section \<open>Tokens\<close>

definition char_at :: "uchar list \<Rightarrow> nat \<Rightarrow> uchar" where
  "char_at str s = (if s < length str then str ! s else 0)"

definition whitespace :: "uchar list" where "whitespace = [32, 9, 13, 10, 11]"
definition symbols :: "uchar list" where "symbols = [60, 124, 62, 38, 59, 40, 41]"

function skip_space :: "uchar list \<Rightarrow> nat \<Rightarrow> nat" where
  "skip_space str s = (if s < length str \<and> str ! s \<in> set whitespace then skip_space str (s + 1) else s)"
  by pat_completeness auto
termination by (relation "measure (\<lambda>(str, s). length str - s)") auto

function skip_word :: "uchar list \<Rightarrow> nat \<Rightarrow> nat" where
  "skip_word str s = (if s < length str \<and> str ! s \<notin> set whitespace \<and> str ! s \<notin> set symbols then skip_word str (s + 1) else s)"
  by pat_completeness auto
termination by (relation "measure (\<lambda>(str, s). length str - s)") auto

declare skip_space.simps [simp del] skip_word.simps [simp del]

text \<open>The kind of the token, its first position, the position behind it, and where to go on.\<close>

definition gettoken :: "uchar list \<Rightarrow> nat \<Rightarrow> uchar \<times> nat \<times> nat \<times> nat" where
  "gettoken str i =
     (let q = skip_space str i; c = char_at str q;
          (ret, s) =
            (if c = 0 then (c, q)
             else if c \<in> {124, 40, 41, 59, 38, 60} then (c, q + 1)
             else if c = 62 then (if char_at str (q + 1) = 62 then (43, q + 2) else (c, q + 1))
             else (97, skip_word str q)) in
      (ret, q, s, skip_space str s))"

definition peek :: "uchar list \<Rightarrow> nat \<Rightarrow> uchar list \<Rightarrow> bool \<times> nat" where
  "peek str i toks = (let s = skip_space str i in (char_at str s \<noteq> 0 \<and> char_at str s \<in> set toks, s))"

abbreviation token_kind :: "uchar \<times> nat \<times> nat \<times> nat \<Rightarrow> uchar" where "token_kind t \<equiv> fst t"
abbreviation token_range :: "uchar \<times> nat \<times> nat \<times> nat \<Rightarrow> nat \<times> nat" where "token_range t \<equiv> (fst (snd t), fst (snd (snd t)))"
abbreviation token_next :: "uchar \<times> nat \<times> nat \<times> nat \<Rightarrow> nat" where "token_next t \<equiv> snd (snd (snd t))"

lemma skip_space_le: "s \<le> length str \<Longrightarrow> s \<le> skip_space str s \<and> skip_space str s \<le> length str"
proof (induction str s rule: skip_space.induct)
  case (1 str s)
  then show ?case using skip_space.simps [of str s] by (auto split: if_splits)
qed

lemma skip_word_le: "s \<le> length str \<Longrightarrow> s \<le> skip_word str s \<and> skip_word str s \<le> length str"
proof (induction str s rule: skip_word.induct)
  case (1 str s)
  then show ?case using skip_word.simps [of str s] by (auto split: if_splits)
qed

lemma skip_space_stop: "skip_space str s < length str \<Longrightarrow> str ! skip_space str s \<notin> set whitespace"
proof (induction str s rule: skip_space.induct)
  case (1 str s)
  then show ?case using skip_space.simps [of str s] by (auto split: if_splits)
qed

lemma char_at_nonzero: "char_at str s \<noteq> 0 \<Longrightarrow> s < length str"
  by (simp add: char_at_def split: if_splits)

text \<open>A token that is not the end of the line moves on.\<close>

lemma gettoken_le:
  assumes "i \<le> length str"
  shows "i \<le> token_next (gettoken str i)" "token_next (gettoken str i) \<le> length str"
    "token_kind (gettoken str i) \<noteq> 0 \<Longrightarrow> i < token_next (gettoken str i) \<and> i < length str"
proof -
  let ?q = "skip_space str i"
  have q: "i \<le> ?q" "?q \<le> length str" using skip_space_le [OF assms] by auto
  obtain r s where t: "gettoken str i = (r, ?q, s, skip_space str s)" by (simp add: gettoken_def Let_def case_prod_beta)
  have s: "?q \<le> s \<and> s \<le> length str \<and> (r \<noteq> 0 \<longrightarrow> ?q < length str \<and> ?q < s)"
  proof (cases "char_at str ?q = 0")
    case True
    then show ?thesis using t q by (auto simp: gettoken_def Let_def)
  next
    case False
    then have l: "?q < length str" by (rule char_at_nonzero)
    show ?thesis
    proof (cases "char_at str ?q \<in> {124, 40, 41, 59, 38, 60, 62}")
      case True
      then show ?thesis using t l char_at_nonzero [of str "?q + 1"] by (auto simp: gettoken_def Let_def split: if_splits)
    next
      case other: False
      have "str ! ?q \<notin> set symbols" using other l by (simp add: char_at_def symbols_def)
      then have "skip_word str ?q = skip_word str (?q + 1)" using skip_space_stop [OF l] l by (simp add: skip_word.simps [of str ?q])
      moreover have "?q + 1 \<le> skip_word str (?q + 1)" "skip_word str (?q + 1) \<le> length str" using skip_word_le [of "?q + 1" str] l by auto
      moreover have "s = skip_word str ?q" using t False other by (auto simp: gettoken_def Let_def)
      ultimately show ?thesis using l by simp
    qed
  qed
  then have "s \<le> skip_space str s" "skip_space str s \<le> length str" using skip_space_le [of s str] by auto
  with s q show "i \<le> token_next (gettoken str i)" "token_next (gettoken str i) \<le> length str"
    "token_kind (gettoken str i) \<noteq> 0 \<Longrightarrow> i < token_next (gettoken str i) \<and> i < length str"
    unfolding t by simp_all
qed

lemma peek_le:
  assumes "i \<le> length str"
  shows "i \<le> snd (peek str i toks)" "snd (peek str i toks) \<le> length str"
    "fst (peek str i toks) \<Longrightarrow> token_kind (gettoken str (snd (peek str i toks))) \<noteq> 0"
proof -
  show "i \<le> snd (peek str i toks)" "snd (peek str i toks) \<le> length str"
    using skip_space_le [OF assms] by (simp_all add: peek_def Let_def)
  assume "fst (peek str i toks)"
  then have c: "char_at str (skip_space str i) \<noteq> 0" by (simp add: peek_def Let_def)
  then have "skip_space str (skip_space str i) = skip_space str i"
    using skip_space_stop [OF char_at_nonzero [OF c]] by (simp add: skip_space.simps [of str "skip_space str i"])
  with c show "token_kind (gettoken str (snd (peek str i toks))) \<noteq> 0"
    by (simp add: gettoken_def peek_def Let_def)
qed

lemma token_inside: "token_kind (gettoken str i) \<noteq> 0 \<Longrightarrow> i \<le> length str"
proof -
  assume "token_kind (gettoken str i) \<noteq> 0"
  then have "char_at str (skip_space str i) \<noteq> 0" by (auto simp: gettoken_def Let_def)
  from char_at_nonzero [OF this] show ?thesis
    by (cases "length str < i") (simp_all add: skip_space.simps [of str i])
qed

lemma peek_inside: "fst (peek str i toks) \<Longrightarrow> i \<le> length str"
proof -
  assume "fst (peek str i toks)"
  then have "char_at str (skip_space str i) \<noteq> 0" by (simp add: peek_def Let_def)
  from char_at_nonzero [OF this] show ?thesis
    by (cases "length str < i") (simp_all add: skip_space.simps [of str i])
qed

section \<open>The parser\<close>

function parseredirs :: "uchar list \<Rightarrow> cmd \<Rightarrow> nat \<Rightarrow> (cmd \<times> nat) result" where
  "parseredirs str c i =
     (if fst (peek str i [60, 62]) then
        let t = gettoken str (snd (peek str i [60, 62])); f = gettoken str (token_next t) in
        if token_kind f \<noteq> 97 then Inl (Panic ''missing file for redirection'')
        else
          parseredirs str
            (if token_kind t = 60 then redircmd c (token_range f) O_RDONLY 0
             else if token_kind t = 62 then redircmd c (token_range f) (O_WRONLY OR O_CREATE) 1
             else if token_kind t = 43 then redircmd c (token_range f) (O_WRONLY OR O_CREATE) 1
             else c)
            (token_next f)
      else Inr (c, snd (peek str i [60, 62])))"
  by pat_completeness auto
termination
proof (relation "measure (\<lambda>(str, c, i). length str - i)")
  fix str c i t f c'
  assume p: "fst (peek str i [60, 62])" and t: "t = gettoken str (snd (peek str i [60, 62]))" and f: "f = gettoken str (token_next t)"
  note i = peek_inside [OF p]
  note q = peek_le(1,2) [OF i, of "[60, 62]"]
  note g = gettoken_le(3) [OF q(2) peek_le(3) [OF i p], folded t] gettoken_le(2) [OF q(2), folded t]
  have "token_next t \<le> token_next f" using gettoken_le(1) [OF g(2), folded f] .
  with q g show "((str, c', token_next f), (str, c, i)) \<in> measure (\<lambda>(str, c, i). length str - i)" by auto
qed simp_all

declare parseredirs.simps [simp del]

lemma peek_step:
  assumes "fst (peek str i toks)"
  shows "i < token_next (gettoken str (snd (peek str i toks)))" "token_next (gettoken str (snd (peek str i toks))) \<le> length str"
proof -
  note i = peek_inside [OF assms]
  note q = peek_le(1,2) [OF i, of toks]
  show "i < token_next (gettoken str (snd (peek str i toks)))" "token_next (gettoken str (snd (peek str i toks))) \<le> length str"
    using q gettoken_le(2) [OF q(2)] gettoken_le(3) [OF q(2) peek_le(3) [OF i assms]] by auto
qed

text \<open>The loop over the arguments of a simple command.\<close>

function parseargs :: "uchar list \<Rightarrow> nat \<Rightarrow> cmd \<Rightarrow> nat \<Rightarrow> (cmd \<times> nat) result" where
  "parseargs str argc ret i =
     (let (stop, i) = peek str i [124, 41, 38, 59]; t = gettoken str i in
      if stop then Inr (ret, i)
      else if token_kind t = 0 then Inr (ret, token_next t)
      else if token_kind t \<noteq> 97 then Inl (Panic ''syntax'')
      else if MAXARGS \<le> argc + 1 then Inl (Panic ''too many args'')
      else bnd (parseredirs str (add_arg (token_range t) ret) (token_next t)) (\<lambda>(ret, i). parseargs str (argc + 1) ret i))"
  by pat_completeness auto
termination
proof (relation "measure (\<lambda>(str, argc, ret, i). MAXARGS - argc)")
qed (auto simp: MAXARGS_def)

declare parseargs.simps [simp del]

text \<open>The loop over the ampersands behind a pipeline.\<close>

function back_loop :: "uchar list \<Rightarrow> cmd \<Rightarrow> nat \<Rightarrow> cmd \<times> nat" where
  "back_loop str c i =
     (if fst (peek str i [38]) then back_loop str (backcmd c) (token_next (gettoken str (snd (peek str i [38]))))
      else (c, snd (peek str i [38])))"
  by pat_completeness auto
termination
proof (relation "measure (\<lambda>(str, c, i). length str - i)")
  fix str c i
  assume "fst (peek str i [38])"
  from peek_step [OF this]
  show "((str, backcmd c, token_next (gettoken str (snd (peek str i [38])))), (str, c, i)) \<in> measure (\<lambda>(str, c, i). length str - i)" by auto
qed simp

declare back_loop.simps [simp del]

text \<open>The recursive descent. The number bounds the depth of the calls.\<close>

fun parseline :: "nat \<Rightarrow> uchar list \<Rightarrow> nat \<Rightarrow> (cmd \<times> nat) result"
  and parsepipe :: "nat \<Rightarrow> uchar list \<Rightarrow> nat \<Rightarrow> (cmd \<times> nat) result"
  and parseexec :: "nat \<Rightarrow> uchar list \<Rightarrow> nat \<Rightarrow> (cmd \<times> nat) result"
  and parseblock :: "nat \<Rightarrow> uchar list \<Rightarrow> nat \<Rightarrow> (cmd \<times> nat) result"
where
  "parseline 0 str i = Inl Spin"
| "parseline (Suc n) str i =
     bnd (parsepipe n str i) (\<lambda>(c, i).
     let (c, i) = back_loop str c i; (semi, i) = peek str i [59] in
     if semi then bnd (parseline n str (token_next (gettoken str i))) (\<lambda>(d, i). Inr (listcmd c d, i))
     else Inr (c, i))"
| "parsepipe 0 str i = Inl Spin"
| "parsepipe (Suc n) str i =
     bnd (parseexec n str i) (\<lambda>(c, i).
     let (bar, i) = peek str i [124] in
     if bar then bnd (parsepipe n str (token_next (gettoken str i))) (\<lambda>(d, i). Inr (pipecmd c d, i))
     else Inr (c, i))"
| "parseexec 0 str i = Inl Spin"
| "parseexec (Suc n) str i =
     (let (block, i) = peek str i [40] in
      if block then parseblock n str i
      else bnd (parseredirs str execcmd i) (\<lambda>(ret, i). parseargs str 0 ret i))"
| "parseblock 0 str i = Inl Spin"
| "parseblock (Suc n) str i =
     (let (open_paren, i) = peek str i [40] in
      if \<not> open_paren then Inl (Panic ''parseblock'')
      else
        bnd (parseline n str (token_next (gettoken str i))) (\<lambda>(c, i).
        let (close_paren, i) = peek str i [41] in
        if \<not> close_paren then Inl (Panic ''syntax - missing )'')
        else parseredirs str c (token_next (gettoken str i))))"

definition parsecmd :: "uchar list \<Rightarrow> cmd result" where
  "parsecmd str =
     bnd (parseline (4 * length str + 4) str 0) (\<lambda>(c, i).
     let (any, i) = peek str i [] in
     if i \<noteq> length str then Inl (Panic ''syntax'') else Inr c)"

text \<open>A NUL behind every token, in the buffer with the line.\<close>

fun nulterminate :: "cmd \<Rightarrow> uchar list \<Rightarrow> uchar list" where
  "nulterminate (EXEC as) m = fold (\<lambda>(q, e) m. m[e := 0]) as m"
| "nulterminate (REDIR c f mode fd) m = (nulterminate c m)[snd f := 0]"
| "nulterminate (PIPE l r) m = nulterminate r (nulterminate l m)"
| "nulterminate (LIST l r) m = nulterminate r (nulterminate l m)"
| "nulterminate (BACK c) m = nulterminate c m"

section \<open>What the parser returns\<close>

definition word_char :: "uchar \<Rightarrow> bool" where
  "word_char c \<longleftrightarrow> c \<notin> set whitespace \<and> c \<notin> set symbols"

text \<open>A range of positions that is one whole word of the line.\<close>

definition token_ok :: "uchar list \<Rightarrow> nat \<times> nat \<Rightarrow> bool" where
  "token_ok str r \<longleftrightarrow> (case r of (q, e) \<Rightarrow> q < e \<and> e \<le> length str \<and> (\<forall>k. q \<le> k \<and> k < e \<longrightarrow> word_char (str ! k))
     \<and> (0 < q \<longrightarrow> \<not> word_char (str ! (q - 1))) \<and> (e < length str \<longrightarrow> \<not> word_char (str ! e)))"

fun wf_cmd :: "uchar list \<Rightarrow> cmd \<Rightarrow> bool" where
  "wf_cmd str (EXEC as) = (length as < MAXARGS \<and> list_all (token_ok str) as)"
| "wf_cmd str (REDIR c f mode fd) =
     (wf_cmd str c \<and> token_ok str f \<and> (mode = O_RDONLY \<and> fd = 0 \<or> mode = O_WRONLY OR O_CREATE \<and> fd = 1))"
| "wf_cmd str (PIPE l r) = (wf_cmd str l \<and> wf_cmd str r)"
| "wf_cmd str (LIST l r) = (wf_cmd str l \<and> wf_cmd str r)"
| "wf_cmd str (BACK c) = wf_cmd str c"

text \<open>A simple command with redirections around it, and its number of arguments.\<close>

fun simple :: "nat \<Rightarrow> cmd \<Rightarrow> bool" where
  "simple n (EXEC as) = (length as = n)"
| "simple n (REDIR c f mode fd) = simple n c"
| "simple n c = False"

lemma add_arg_wf: "simple n c \<Longrightarrow> wf_cmd str c \<Longrightarrow> token_ok str a \<Longrightarrow> n + 1 < MAXARGS \<Longrightarrow> wf_cmd str (add_arg a c) \<and> simple (n + 1) (add_arg a c)"
  by (induction a c rule: add_arg.induct) auto

lemma skip_word_chars:
  "s \<le> k \<Longrightarrow> k < skip_word str s \<Longrightarrow> word_char (str ! k)" "skip_word str s < length str \<Longrightarrow> \<not> word_char (str ! skip_word str s)"
proof (induction str s rule: skip_word.induct)
  case (1 str s)
  { case 1
    then show ?case using "1.IH"(1) skip_word.simps [of str s] by (cases "k = s") (auto simp: word_char_def split: if_splits)
  next
    case 2
    then show ?case using "1.IH"(2) skip_word.simps [of str s] by (auto simp: word_char_def split: if_splits) }
qed

text \<open>A position of the line that is not in the middle of a word.\<close>

definition edge :: "uchar list \<Rightarrow> nat \<Rightarrow> bool" where
  "edge str i \<longleftrightarrow> i \<le> length str \<and>
     (i = 0 \<or> i = length str \<or> \<not> word_char (str ! (i - 1)) \<or> \<not> word_char (str ! i))"

lemma edge_le: "edge str i \<Longrightarrow> i \<le> length str"
  by (simp add: edge_def)

lemma skip_space_before: "s < skip_space str s \<Longrightarrow> str ! (skip_space str s - 1) \<in> set whitespace"
proof (induction str s rule: skip_space.induct)
  case (1 str s)
  show ?case
  proof (cases "s + 1 < skip_space str (s + 1)")
    case True
    with 1 show ?thesis using skip_space.simps [of str s] by (auto split: if_splits)
  next
    case False
    have w: "s < length str" "str ! s \<in> set whitespace" "skip_space str s = skip_space str (s + 1)"
      using "1.prems" skip_space.simps [of str s] by (auto split: if_splits)
    then have "skip_space str (s + 1) = s + 1" using False skip_space_le [of "s + 1" str] by simp
    with w show ?thesis by simp
  qed
qed

lemma edge_skip: "edge str i \<Longrightarrow> edge str (skip_space str i)"
  using skip_space_le [of i str] skip_space_before [of i str]
  by (cases "i < skip_space str i") (auto simp: edge_def word_char_def)

lemma gettoken_word:
  assumes "edge str i" "token_kind (gettoken str i) = 97"
  shows "token_ok str (token_range (gettoken str i))"
proof -
  let ?q = "skip_space str i"
  have c: "char_at str ?q \<noteq> 0" "char_at str ?q \<notin> {124, 40, 41, 59, 38, 60, 62}"
    and t: "token_range (gettoken str i) = (?q, skip_word str ?q)"
    using assms(2) by (auto simp: gettoken_def Let_def split: if_splits)
  have l: "?q < length str" by (rule char_at_nonzero [OF c(1)])
  have "str ! ?q \<notin> set symbols" using c(2) l by (simp add: char_at_def symbols_def)
  then have w: "skip_word str ?q = skip_word str (?q + 1)" "word_char (str ! ?q)"
    using skip_space_stop [OF l] l by (simp_all add: skip_word.simps [of str ?q] word_char_def)
  then have "?q < skip_word str ?q" "skip_word str ?q \<le> length str" using skip_word_le [of "?q + 1" str] l by auto
  moreover have "0 < ?q \<longrightarrow> \<not> word_char (str ! (?q - 1))" using edge_skip [OF assms(1)] w(2) l by (auto simp: edge_def)
  ultimately show ?thesis unfolding t token_ok_def using skip_word_chars(2) [of str ?q] by (auto intro: skip_word_chars(1))
qed

lemma peek_edge:
  assumes "edge str i"
  shows "i \<le> snd (peek str i toks)" "edge str (snd (peek str i toks))"
  using peek_le(1) [OF edge_le [OF assms]] edge_skip [OF assms] by (simp_all add: peek_def Let_def)

lemma gettoken_edge:
  assumes "edge str i"
  shows "i \<le> token_next (gettoken str i)" "edge str (token_next (gettoken str i))"
proof -
  show "i \<le> token_next (gettoken str i)" by (rule gettoken_le(1) [OF edge_le [OF assms]])
  let ?q = "skip_space str i"
  have q: "edge str ?q" by (rule edge_skip [OF assms])
  obtain r e where t: "gettoken str i = (r, ?q, e, skip_space str e)" by (simp add: gettoken_def Let_def case_prod_beta)
  have "edge str e"
  proof (cases "char_at str ?q = 0")
    case True
    then show ?thesis using t q by (auto simp: gettoken_def Let_def)
  next
    case False
    then have l: "?q < length str" by (rule char_at_nonzero)
    show ?thesis
    proof (cases "char_at str ?q \<in> {124, 40, 41, 59, 38, 60, 62}")
      case True
      then have "\<not> word_char (str ! ?q)" using l by (auto simp: char_at_def word_char_def symbols_def)
      moreover have "\<not> word_char (str ! (?q + 1))" if "char_at str (?q + 1) = 62"
        using that by (auto simp: char_at_def word_char_def symbols_def split: if_splits)
      ultimately show ?thesis
        using t True l char_at_nonzero [of str "?q + 1"] by (auto simp: gettoken_def Let_def edge_def split: if_splits)
    next
      case other: False
      then have "e = skip_word str ?q" using t False by (auto simp: gettoken_def Let_def)
      then show ?thesis using skip_word_le [of ?q str] skip_word_chars(2) [of str ?q] l by (auto simp: edge_def)
    qed
  qed
  then show "edge str (token_next (gettoken str i))" using edge_skip t by simp
qed

lemma peek_step_edge:
  assumes "edge str i" "fst (peek str i toks)"
  shows "i < token_next (gettoken str (snd (peek str i toks)))" "edge str (token_next (gettoken str (snd (peek str i toks))))"
  using peek_step(1) [OF assms(2)] gettoken_edge(2) [OF peek_edge(2) [OF assms(1)]] by auto

text \<open>
  A run of a part of the parser from \<open>i\<close>: what it returns is well formed, and stops at the edge of a word of the line; if
  the fuel is enough (\<open>b\<close>) it comes to an end.
\<close>

definition sound :: "uchar list \<Rightarrow> (cmd \<Rightarrow> bool) \<Rightarrow> nat \<Rightarrow> bool \<Rightarrow> (cmd \<times> nat) result \<Rightarrow> bool" where
  "sound str P i b r \<longleftrightarrow> (\<forall>c j. r = Inr (c, j) \<longrightarrow> i \<le> j \<and> edge str j \<and> wf_cmd str c \<and> P c) \<and> (b \<longrightarrow> r \<noteq> Inl Spin)"

lemma sound_bnd:
  assumes "sound str P i b r" "\<And>c j. i \<le> j \<Longrightarrow> edge str j \<Longrightarrow> wf_cmd str c \<Longrightarrow> P c \<Longrightarrow> sound str Q i b (f (c, j))"
  shows "sound str Q i b (bnd r f)"
proof (cases r)
  case (Inl e)
  then show ?thesis using assms(1) by (simp add: sound_def)
next
  case (Inr x)
  obtain c j where x: "x = (c, j)" by (cases x)
  have "i \<le> j" "edge str j" "wf_cmd str c" "P c" using assms(1) Inr x by (simp_all add: sound_def)
  from assms(2) [OF this] show ?thesis by (simp add: Inr x)
qed

lemma sound_mono: "sound str P i b r \<Longrightarrow> i' \<le> i \<Longrightarrow> (b' \<Longrightarrow> b) \<Longrightarrow> sound str P i' b' r"
  by (auto simp: sound_def)

lemma sound_simps: "sound str P i b (Inr (c, j)) \<longleftrightarrow> i \<le> j \<and> edge str j \<and> wf_cmd str c \<and> P c" "sound str P i b (Inl (Panic e))"
  by (auto simp: sound_def)

lemma parseredirs_sound:
  "edge str i \<Longrightarrow> wf_cmd str c \<Longrightarrow> P c \<Longrightarrow> (\<And>c f m d. P c \<Longrightarrow> P (REDIR c f m d)) \<Longrightarrow> sound str P i True (parseredirs str c i)"
proof (induction str c i rule: parseredirs.induct)
  case (1 str c i)
  show ?case
  proof (cases "fst (peek str i [60, 62])")
    case True
    let ?t = "gettoken str (snd (peek str i [60, 62]))"
    let ?f = "gettoken str (token_next ?t)"
    note s = peek_step_edge [OF 1(2) True]
    have f: "token_next ?t \<le> token_next ?f" "edge str (token_next ?f)" using gettoken_edge [OF s(2)] by auto
    let ?c = "if token_kind ?t = 60 then redircmd c (token_range ?f) O_RDONLY 0
      else if token_kind ?t = 62 then redircmd c (token_range ?f) (O_WRONLY OR O_CREATE) 1
      else if token_kind ?t = 43 then redircmd c (token_range ?f) (O_WRONLY OR O_CREATE) 1 else c"
    show ?thesis
    proof (cases "token_kind ?f = 97")
      case w: True
      have "wf_cmd str ?c" "P ?c" using gettoken_word [OF s(2) w] 1(3-5) by simp_all
      then have "sound str P (token_next ?f) True (parseredirs str ?c (token_next ?f))"
        using 1(1) [OF True refl refl] w f(2) 1(5) by (simp del: redircmd_def)
      from sound_mono [OF this, of i True] show ?thesis
        using True w s(1) f(1) by (simp add: parseredirs.simps [of str c i] Let_def del: redircmd_def)
    next
      case False
      then show ?thesis using True by (simp add: parseredirs.simps [of str c i] Let_def sound_simps)
    qed
  next
    case False
    then show ?thesis using peek_edge [OF 1(2)] 1(3,4) by (simp add: parseredirs.simps [of str c i] sound_simps)
  qed
qed

lemma parseargs_sound:
  "edge str i \<Longrightarrow> wf_cmd str c \<Longrightarrow> simple argc c \<Longrightarrow> sound str (\<lambda>_. True) i True (parseargs str argc c i)"
proof (induction "MAXARGS - argc" arbitrary: argc c i rule: less_induct)
  case less
  obtain stop j where p: "peek str i [124, 41, 38, 59] = (stop, j)" by fastforce
  have j: "i \<le> j" "edge str j" using peek_edge [OF less(2), of "[124, 41, 38, 59]"] p by auto
  let ?t = "gettoken str j"
  note t = gettoken_edge [OF j(2)]
  show ?case
  proof (cases "\<not> stop \<and> token_kind ?t = 97 \<and> argc + 1 < MAXARGS")
    case True
    then have w: "token_kind ?t = 97" by simp
    have a: "wf_cmd str (add_arg (token_range ?t) c)" "simple (argc + 1) (add_arg (token_range ?t) c)"
      using add_arg_wf [OF less(4,3) gettoken_word [OF j(2) w]] True by simp_all
    have "sound str (\<lambda>_. True) i True (bnd (parseredirs str (add_arg (token_range ?t) c) (token_next ?t)) (\<lambda>(ret, i). parseargs str (argc + 1) ret i))"
    proof (rule sound_bnd)
      show "sound str (simple (argc + 1)) i True (parseredirs str (add_arg (token_range ?t) c) (token_next ?t))"
        by (rule sound_mono [OF parseredirs_sound [where P = "simple (argc + 1)", OF t(2) a]]) (use t(1) j(1) in auto)
      show "sound str (\<lambda>_. True) i True (case (d, k) of (ret, i) \<Rightarrow> parseargs str (argc + 1) ret i)"
        if "i \<le> k" "edge str k" "wf_cmd str d" "simple (argc + 1) d" for d k
      proof -
        have "argc + 1 < MAXARGS" using True by blast
        then have "MAXARGS - (argc + 1) < MAXARGS - argc" by linarith
        from sound_mono [OF less(1) [OF this that(2-4)] that(1), of True] show ?thesis by simp
      qed
    qed
    then show ?thesis using True p by (simp add: parseargs.simps [of str argc c i] Let_def)
  next
    case False
    then show ?thesis using p j t less(3) by (auto simp: parseargs.simps [of str argc c i] sound_simps Let_def)
  qed
qed

lemma back_loop_sound: "edge str i \<Longrightarrow> wf_cmd str c \<Longrightarrow> sound str (\<lambda>_. True) i True (Inr (back_loop str c i))"
proof (induction str c i rule: back_loop.induct)
  case (1 str c i)
  show ?case
  proof (cases "fst (peek str i [38])")
    case True
    note s = peek_step_edge [OF 1(2) True]
    have "sound str (\<lambda>_. True) (token_next (gettoken str (snd (peek str i [38])))) True
        (Inr (back_loop str (backcmd c) (token_next (gettoken str (snd (peek str i [38]))))))"
      by (rule 1(1) [OF True]) (use s(2) 1(3) in simp_all)
    from sound_mono [OF this, of i True] show ?thesis using s(1) True by (simp add: back_loop.simps [of str c i])
  next
    case False
    then show ?thesis using peek_edge [OF 1(2)] 1(3) by (simp add: back_loop.simps [of str c i] sound_simps)
  qed
qed

text \<open>One level of the descent, given the next one: \<open>L\<close> bytes are left at \<open>i\<close>, and a call after a token has less.\<close>

abbreviation ok_line :: "uchar list \<Rightarrow> nat \<Rightarrow> nat \<Rightarrow> bool" where
  "ok_line str n i \<equiv> sound str (\<lambda>_. True) i (4 * (length str - i) + 4 \<le> n) (parseline n str i)"
abbreviation ok_pipe :: "uchar list \<Rightarrow> nat \<Rightarrow> nat \<Rightarrow> bool" where
  "ok_pipe str n i \<equiv> sound str (\<lambda>_. True) i (4 * (length str - i) + 3 \<le> n) (parsepipe n str i)"
abbreviation ok_exec :: "uchar list \<Rightarrow> nat \<Rightarrow> nat \<Rightarrow> bool" where
  "ok_exec str n i \<equiv> sound str (\<lambda>_. True) i (4 * (length str - i) + 2 \<le> n) (parseexec n str i)"
abbreviation ok_block :: "uchar list \<Rightarrow> nat \<Rightarrow> nat \<Rightarrow> bool" where
  "ok_block str n i \<equiv> sound str (\<lambda>_. True) i (4 * (length str - i) + 1 \<le> n) (parseblock n str i)"

lemma next_call:
  assumes "fst (peek str j toks)" "i \<le> j" "k = token_next (gettoken str (snd (peek str j toks)))"
    and "y \<le> x + 3" "edge str k \<Longrightarrow> sound str P k (4 * (length str - k) + y \<le> n) r"
    and "edge str j"
  shows "sound str P i (4 * (length str - i) + x \<le> Suc n) r"
proof -
  have "j < k" "edge str k" using peek_step_edge [OF assms(6,1)] assms(3) by simp_all
  then show ?thesis using assms(2,4) edge_le [of str k] by (intro sound_mono [OF assms(5)]) auto
qed

lemma parseline_step:
  assumes "edge str i" "\<And>i. edge str i \<Longrightarrow> ok_line str n i" "ok_pipe str n i"
  shows "ok_line str (Suc n) i"
proof -
  let ?b = "4 * (length str - i) + 4 \<le> Suc n"
  have "sound str (\<lambda>_. True) i ?b (let (c, i) = back_loop str c j; (semi, i) = peek str i [59] in
      if semi then bnd (parseline n str (token_next (gettoken str i))) (\<lambda>(d, i). Inr (LIST c d, i)) else Inr (c, i))"
    if j: "i \<le> j" "edge str j" "wf_cmd str c" for c j
  proof -
    obtain d k where b: "back_loop str c j = (d, k)" by fastforce
    with back_loop_sound [OF j(2,3)] have k: "j \<le> k" "edge str k" "wf_cmd str d" by (simp_all add: sound_simps)
    note p = peek_edge [OF k(2), of "[59]"]
    let ?k = "token_next (gettoken str (snd (peek str k [59])))"
    show ?thesis
    proof (cases "fst (peek str k [59])")
      case True
      have "sound str (\<lambda>_. True) i ?b (parseline n str ?k)"
        by (rule next_call [OF True, where k = ?k and y = 4]) (use assms(2) j k in auto)
      then have "sound str (\<lambda>_. True) i ?b (bnd (parseline n str ?k) (\<lambda>(e, i). Inr (LIST d e, i)))"
        by (rule sound_bnd) (use k in \<open>simp add: sound_simps\<close>)
      then show ?thesis using b True by (simp add: case_prod_beta Let_def)
    qed (use b p j k in \<open>simp add: case_prod_beta Let_def sound_simps\<close>)
  qed
  then show ?thesis unfolding parseline.simps listcmd_def
    by (intro sound_bnd [OF sound_mono [OF assms(3)]]) simp_all
qed

lemma parsepipe_step:
  assumes "edge str i" "\<And>i. edge str i \<Longrightarrow> ok_pipe str n i" "ok_exec str n i"
  shows "ok_pipe str (Suc n) i"
proof -
  let ?b = "4 * (length str - i) + 3 \<le> Suc n"
  have "sound str (\<lambda>_. True) i ?b (let (bar, i) = peek str j [124] in
      if bar then bnd (parsepipe n str (token_next (gettoken str i))) (\<lambda>(d, i). Inr (PIPE c d, i)) else Inr (c, i))"
    if j: "i \<le> j" "edge str j" "wf_cmd str c" for c j
  proof -
    note p = peek_edge [OF j(2), of "[124]"]
    let ?k = "token_next (gettoken str (snd (peek str j [124])))"
    show ?thesis
    proof (cases "fst (peek str j [124])")
      case True
      have "sound str (\<lambda>_. True) i ?b (parsepipe n str ?k)"
        by (rule next_call [OF True, where k = ?k and y = 3]) (use assms(2) j in auto)
      then have "sound str (\<lambda>_. True) i ?b (bnd (parsepipe n str ?k) (\<lambda>(e, i). Inr (PIPE c e, i)))"
        by (rule sound_bnd) (use j in \<open>simp add: sound_simps\<close>)
      then show ?thesis using True by (simp add: case_prod_beta Let_def)
    qed (use p j in \<open>simp add: case_prod_beta Let_def sound_simps\<close>)
  qed
  then show ?thesis unfolding parsepipe.simps pipecmd_def
    by (intro sound_bnd [OF sound_mono [OF assms(3)]]) simp_all
qed

lemma parseexec_step:
  assumes "edge str i" "\<And>i. edge str i \<Longrightarrow> ok_block str n i"
  shows "ok_exec str (Suc n) i"
proof -
  let ?j = "snd (peek str i [40])"
  note p = peek_edge [OF assms(1), of "[40]"]
  have "wf_cmd str (EXEC [])" "simple 0 (EXEC [])" by (simp_all add: MAXARGS_def)
  from parseredirs_sound [where P = "simple 0", OF p(2) this]
  have "sound str (simple 0) ?j True (parseredirs str (EXEC []) ?j)" by simp
  then have "sound str (\<lambda>_. True) ?j True (bnd (parseredirs str (EXEC []) ?j) (\<lambda>(ret, i). parseargs str 0 ret i))"
    by (rule sound_bnd) (simp, rule sound_mono [OF parseargs_sound], simp_all)
  from sound_mono [OF this p(1)] sound_mono [OF assms(2) [OF p(2)] p(1)] p(1)
  show ?thesis by (simp add: case_prod_beta Let_def)
qed

lemma parseblock_step:
  assumes "edge str i" "\<And>i. edge str i \<Longrightarrow> ok_line str n i"
  shows "ok_block str (Suc n) i"
proof -
  let ?b = "4 * (length str - i) + 1 \<le> Suc n" and ?k = "token_next (gettoken str (snd (peek str i [40])))"
  have tail: "sound str (\<lambda>_. True) i ?b (let (close_paren, i) = peek str j [41] in
      if \<not> close_paren then Inl (Panic ''syntax - missing )'') else parseredirs str c (token_next (gettoken str i)))"
    if j: "i \<le> j" "edge str j" "wf_cmd str c" for c j
  proof (cases "fst (peek str j [41])")
    case True
    note s = peek_step_edge [OF j(2) True]
    from sound_mono [OF parseredirs_sound [where P = "\<lambda>_. True", OF s(2) j(3)], of i ?b] show ?thesis
      using True s(1) j(1) by (simp add: case_prod_beta Let_def)
  qed (simp add: case_prod_beta Let_def sound_simps)
  show ?thesis
  proof (cases "fst (peek str i [40])")
    case True
    have "sound str (\<lambda>_. True) i ?b (parseline n str ?k)"
      by (rule next_call [OF True, where k = ?k and y = 4]) (use assms in auto)
    from sound_bnd [OF this tail] show ?thesis using True by (simp add: case_prod_beta Let_def)
  qed (simp add: case_prod_beta Let_def sound_simps)
qed

lemma parse_sound: "edge str i \<Longrightarrow> ok_line str n i \<and> ok_pipe str n i \<and> ok_exec str n i \<and> ok_block str n i"
proof (induction n arbitrary: i)
  case 0
  then show ?case by (simp add: sound_def)
next
  case (Suc n)
  then show ?case by (simp only: parseline_step parsepipe_step parseexec_step parseblock_step)
qed

lemma parsecmd_sound: "parsecmd str \<noteq> Inl Spin" "parsecmd str = Inr c \<Longrightarrow> wf_cmd str c"
proof -
  have "sound str (\<lambda>_. True) 0 True (parseline (4 * length str + 4) str 0)"
    using parse_sound [of str 0 "4 * length str + 4"] by (simp add: edge_def)
  then show "parsecmd str \<noteq> Inl Spin" "parsecmd str = Inr c \<Longrightarrow> wf_cmd str c"
    by (cases "parseline (4 * length str + 4) str 0", auto simp: parsecmd_def sound_def case_prod_beta Let_def split: if_splits)+
qed

section \<open>Properties\<close>

text \<open>C36.
  The parser comes to an end on every line: it returns a command or ends the shell with a message.
\<close>

theorem parsecmd_ends: "parsecmd str \<noteq> Inl Spin"
  by (rule parsecmd_sound(1))

text \<open>C35.
  What the parser returns is well formed: every argument and every file name is one whole word of
  the line, a simple command has fewer than \<open>MAXARGS\<close> arguments, and a redirection opens descriptor 0
  for reading or descriptor 1 for writing.
\<close>

theorem parsecmd_wf:
  assumes "parsecmd str = Inr c"
  shows "wf_cmd str c"
  using assms by (rule parsecmd_sound(2))

text \<open>The words of a command.\<close>

fun words :: "cmd \<Rightarrow> (nat \<times> nat) list" where
  "words (EXEC as) = as"
| "words (REDIR c f mode fd) = words c @ [f]"
| "words (PIPE l r) = words l @ words r"
| "words (LIST l r) = words l @ words r"
| "words (BACK c) = words c"

lemma nulterminate_words: "nulterminate c m = fold (\<lambda>(q, e) m. m[e := 0]) (words c) m"
  by (induction c arbitrary: m) (simp_all add: case_prod_beta)

lemma wf_words: "wf_cmd str c \<Longrightarrow> list_all (token_ok str) (words c)"
  by (induction str c rule: wf_cmd.induct) simp_all

lemma fold_nul:
  "k < length m \<Longrightarrow> fold (\<lambda>(q, e) m. m[e := 0]) ws m ! k = (if \<exists>q. (q, k) \<in> set ws then 0 else m ! k)"
  "length (fold (\<lambda>(q, e) m. m[e := 0]) ws m) = length m"
proof (induction ws arbitrary: m)
  case (Cons w ws)
  have upd: "k < length m \<Longrightarrow> m[snd w := 0] ! k = (if k = snd w then 0 else m ! k)" by (cases "k = snd w") simp_all
  { case 1
    then show ?case using Cons.IH(1) [of "m[snd w := 0]"] upd by (cases w) auto
  next
    case 2
    then show ?case using Cons.IH(2) by (simp add: case_prod_beta) }
qed simp_all

lemma takeWhile_slice:
  assumes "q < e" "e < length m" "m ! e = 0" "\<And>k. q \<le> k \<Longrightarrow> k < e \<Longrightarrow> m ! k \<noteq> (0 :: uchar)"
  shows "takeWhile (\<lambda>x. x \<noteq> 0) (drop q m) = take (e - q) (drop q m)"
proof -
  have "takeWhile (\<lambda>x. x \<noteq> 0) (drop q m) = take (e - q) (drop q m)"
  proof (rule takeWhile_eq_take_P_nth)
    show "drop q m ! i \<noteq> 0" if "i < e - q" "i < length (drop q m)" for i using assms(4) [of "q + i"] that assms(1,2) by simp
    show "\<not> drop q m ! (e - q) \<noteq> 0" if "e - q < length (drop q m)" using assms(1-3) by simp
  qed
  then show ?thesis .
qed

text \<open>
  After the parse every argument and file name can be used as a C string: behind its pointer stands
  exactly the word of the line, ended by a NUL, and the NULs put behind other words do not cut it.
\<close>

theorem nulterminate_strings:
  assumes "0 \<notin> set str" "parsecmd str = Inr c" "(q, e) \<in> set (words c)"
  shows "takeWhile (\<lambda>x. x \<noteq> 0) (drop q (nulterminate c (str @ [0]))) = take (e - q) (drop q str)"
proof -
  let ?m = "nulterminate c (str @ [0])"
  have ok: "token_ok str w" if "w \<in> set (words c)" for w using wf_words [OF parsecmd_sound(2) [OF assms(2)]] that by (auto simp: list_all_iff)
  have t: "q < e" "e \<le> length str" "\<And>k. q \<le> k \<Longrightarrow> k < e \<Longrightarrow> word_char (str ! k)" using ok [OF assms(3)] by (auto simp: token_ok_def)
  have m: "?m ! k = (if \<exists>q. (q, k) \<in> set (words c) then 0 else (str @ [0]) ! k)" if "k \<le> length str" for k
    using fold_nul(1) [of k "str @ [0]" "words c"] that by (simp add: nulterminate_words)
  have keep: "?m ! k = str ! k" if "q \<le> k" "k < e" for k
  proof -
    have "k < length str" "word_char (str ! k)" using that t by auto
    then have "(x, k) \<notin> set (words c)" for x using ok [of "(x, k)"] by (auto simp: token_ok_def)
    then show ?thesis using m [of k] \<open>k < length str\<close> by (simp add: nth_append)
  qed
  have len: "length ?m = length str + 1" by (simp add: nulterminate_words fold_nul(2))
  have "takeWhile (\<lambda>x. x \<noteq> 0) (drop q ?m) = take (e - q) (drop q ?m)"
  proof (rule takeWhile_slice [OF t(1)])
    show "?m ! e = 0" using m [of e] t(2) assms(3) by auto
    show "?m ! k \<noteq> 0" if "q \<le> k" "k < e" for k
      using keep [OF that] assms(1) that t(2) by (metis nth_mem order_less_le_trans)
  qed (use len t(2) in simp)
  also have "\<dots> = take (e - q) (drop q str)"
    by (rule nth_equalityI) (use len t keep in auto)
  finally show ?thesis .
qed

text \<open>The line \<open>a b>c\<close>.\<close>

definition line_demo :: "uchar list" where
  "line_demo = [97, 32, 98, 62, 99]"

lemma line_demo_parse: "parsecmd line_demo = Inr (REDIR (EXEC [(0, 1), (2, 3)]) (4, 5) (O_WRONLY OR O_CREATE) 1)"
  by code_simp

theorem parsecmd_wf_witness: "wf_cmd line_demo (REDIR (EXEC [(0, 1), (2, 3)]) (4, 5) (O_WRONLY OR O_CREATE) 1)"
  by (rule parsecmd_wf [OF line_demo_parse])

theorem nulterminate_strings_witness:
  "takeWhile (\<lambda>x. x \<noteq> 0) (drop 2 (nulterminate (REDIR (EXEC [(0, 1), (2, 3)]) (4, 5) (O_WRONLY OR O_CREATE) 1) (line_demo @ [0]))) = [98]"
  using nulterminate_strings [OF _ line_demo_parse, of 2 3] by (simp add: line_demo_def)

end
