(* ===== verification/Shrun.thy ===== *)
theory Shrun
  imports Sh Console
begin

text \<open>
  The part of the shell that runs commands (\<open>runcmd\<close>, \<open>getcmd\<close>, \<open>main\<close>, \<open>panic\<close> and \<open>fork1\<close> of \<open>sh.c\<close>) and the first
  program, \<open>init.c\<close>. What a process does is a tree of its system calls (\<open>uprog\<close>): behind a call whose result it
  looks at there is a continuation for each result, and a \<open>fork\<close> has the tree of the child and that of
  the parent. \<open>runs\<close> gives the trees a meaning on descriptor tables.
\<close>

section \<open>Programs as trees of system calls\<close>

datatype uprog =
    UExit
  | UExec "uchar list" "uchar list list" uprog
  | UClose int uprog
  | UOpen "uchar list" uint "int \<Rightarrow> uprog"
  | UDup int uprog
  | UPipe "(int \<times> int) option \<Rightarrow> uprog"
  | UFork uprog "int \<Rightarrow> uprog"
  | UWait uprog
  | UChdir "uchar list" "int \<Rightarrow> uprog"
  | UMknod "uchar list" int int uprog
  | USay int "uchar list" "uchar list list" uprog

section \<open>Running a command (\<open>sh.c\<close>)\<close>

text \<open>The C string at a position of the buffer.\<close>

definition str_at :: "uchar list \<Rightarrow> nat \<times> nat \<Rightarrow> uchar list" where
  "str_at buf w = takeWhile (\<lambda>x. x \<noteq> 0) (drop (fst w) buf)"

definition sh_panic :: "string \<Rightarrow> uprog" where
  "sh_panic msg = USay 2 (chars ''%s'' @ [10]) [chars msg] UExit"

definition fork1 :: "uprog \<Rightarrow> uprog \<Rightarrow> uprog" where
  "fork1 child parent = UFork child (\<lambda>pid. if pid = -1 then sh_panic ''fork'' else parent)"

fun runcmd :: "uchar list \<Rightarrow> cmd \<Rightarrow> uprog" where
  "runcmd buf (EXEC as) =
     (case as of
        [] \<Rightarrow> UExit
      | a # _ \<Rightarrow> UExec (str_at buf a) (map (str_at buf) as) (USay 2 (chars ''exec %s failed'' @ [10]) [str_at buf a] UExit))"
| "runcmd buf (REDIR c f mode fd) =
     UClose fd (UOpen (str_at buf f) mode (\<lambda>r.
       if r < 0 then USay 2 (chars ''open %s failed'' @ [10]) [str_at buf f] UExit else runcmd buf c))"
| "runcmd buf (LIST l r) = fork1 (runcmd buf l) (UWait (runcmd buf r))"
| "runcmd buf (PIPE l r) =
     UPipe (\<lambda>p. case p of
       None \<Rightarrow> sh_panic ''pipe''
     | Some (p0, p1) \<Rightarrow>
         fork1 (UClose 1 (UDup p1 (UClose p0 (UClose p1 (runcmd buf l)))))
           (fork1 (UClose 0 (UDup p0 (UClose p0 (UClose p1 (runcmd buf r)))))
             (UClose p0 (UClose p1 (UWait (UWait UExit))))))"
| "runcmd buf (BACK c) = fork1 (runcmd buf c) UExit"

text \<open>The child parses the line in its copy of the buffer and runs it.\<close>

definition run_line :: "uchar list \<Rightarrow> uprog" where
  "run_line l =
     (case parsecmd l of
        Inl (Panic msg) \<Rightarrow> sh_panic msg
      | Inl _ \<Rightarrow> UExit
      | Inr c \<Rightarrow> runcmd (nulterminate c (l @ [0])) c)"

text \<open>
  The loop of the shell over the lines that \<open>gets\<close> delivers; at the end of the input \<open>gets\<close> leaves an empty buffer
  and the shell exits.
\<close>

fun sh_loop :: "uchar list list \<Rightarrow> uprog" where
  "sh_loop [] = USay 2 (chars ''$ '') [] UExit"
| "sh_loop (l # ls) =
     USay 2 (chars ''$ '') []
       (if l = [] then UExit
        else if take 3 l = chars ''cd '' then
          UChdir (drop 3 (butlast l)) (\<lambda>r.
            if r < 0 then USay 2 (chars ''cannot cd %s'' @ [10]) [drop 3 (butlast l)] (sh_loop ls) else sh_loop ls)
        else fork1 (run_line l) (UWait (sh_loop ls)))"

text \<open>
  \<open>open\<close> returns a different descriptor each time, so that at most four calls are made before one is 3 or more.
\<close>

fun open_console :: "nat \<Rightarrow> uprog \<Rightarrow> uprog" where
  "open_console 0 k = UExit"
| "open_console (Suc n) k =
     UOpen (chars ''console'') O_RDWR (\<lambda>fd.
       if fd < 0 then k else if 3 \<le> fd then UClose fd k else open_console n k)"

definition sh_main :: "uchar list list \<Rightarrow> uprog" where
  "sh_main ls = open_console 4 (sh_loop ls)"

section \<open>Descriptor tables\<close>

datatype obj = Console | File "uchar list" uint | PipeR nat | PipeW nat

definition NFD :: nat where "NFD = 16"

definition lowest :: "(int \<rightharpoonup> obj) \<Rightarrow> int option" where
  "lowest t = find (\<lambda>i. t i = None) (map int [0..<NFD])"

text \<open>
  The commands that a process and its children come to execute, each with its descriptor table, when files
  open, processes and pipes can be made, and a command that is executed is found. Pipes are numbered.
\<close>

primrec runs :: "uprog \<Rightarrow> (int \<rightharpoonup> obj) \<Rightarrow> nat \<Rightarrow> (uchar list list \<times> (int \<rightharpoonup> obj)) list \<times> nat" where
  "runs UExit = (\<lambda>t n. ([], n))"
| "runs (UExec f as k) = (\<lambda>t n. ([(as, t)], n))"
| "runs (UClose fd k) = (\<lambda>t n. runs k (t(fd := None)) n)"
| "runs (UOpen f m k) = (\<lambda>t n.
     case lowest t of None \<Rightarrow> runs (k (-1)) t n | Some i \<Rightarrow> runs (k i) (t(i \<mapsto> File f m)) n)"
| "runs (UDup fd k) = (\<lambda>t n. case lowest t of None \<Rightarrow> runs k t n | Some i \<Rightarrow> runs k (t(i := t fd)) n)"
| "runs (UPipe k) = (\<lambda>t n.
     case lowest t of
       None \<Rightarrow> runs (k None) t n
     | Some i \<Rightarrow>
         (case lowest (t(i \<mapsto> PipeR n)) of
            None \<Rightarrow> runs (k None) t n
          | Some j \<Rightarrow> runs (k (Some (i, j))) (t(i \<mapsto> PipeR n, j \<mapsto> PipeW n)) (Suc n)))"
| "runs (UFork c k) = (\<lambda>t n. let (xs, n) = runs c t n; (ys, n) = runs (k 1) t n in (xs @ ys, n))"
| "runs (UWait k) = runs k"
| "runs (UChdir f k) = runs (k 0)"
| "runs (UMknod f a b k) = runs k"
| "runs (USay fd f as k) = runs k"

text \<open>What the commands of a line mean: the table each of them is to have.\<close>

fun intended :: "uchar list \<Rightarrow> cmd \<Rightarrow> (int \<rightharpoonup> obj) \<Rightarrow> nat \<Rightarrow> (uchar list list \<times> (int \<rightharpoonup> obj)) list \<times> nat" where
  "intended buf (EXEC as) t n = (if as = [] then [] else [(map (str_at buf) as, t)], n)"
| "intended buf (REDIR c f mode fd) t n = intended buf c (t(fd \<mapsto> File (str_at buf f) mode)) n"
| "intended buf (LIST l r) t n = (let (xs, n) = intended buf l t n; (ys, n) = intended buf r t n in (xs @ ys, n))"
| "intended buf (PIPE l r) t n =
     (let (xs, k) = intended buf l (t(1 \<mapsto> PipeW n)) (Suc n); (ys, k) = intended buf r (t(0 \<mapsto> PipeR n)) k in (xs @ ys, k))"
| "intended buf (BACK c) t n = intended buf c t n"

fun plain_redirs :: "cmd \<Rightarrow> bool" where
  "plain_redirs (EXEC as) \<longleftrightarrow> True"
| "plain_redirs (REDIR c f mode fd) \<longleftrightarrow> fd \<in> {0, 1} \<and> plain_redirs c"
| "plain_redirs (LIST l r) \<longleftrightarrow> plain_redirs l \<and> plain_redirs r"
| "plain_redirs (PIPE l r) \<longleftrightarrow> plain_redirs l \<and> plain_redirs r"
| "plain_redirs (BACK c) \<longleftrightarrow> plain_redirs c"

lemma lowest_fd:
  assumes "0 \<le> i" "i < 16" "t i = None" "\<And>j. 0 \<le> j \<Longrightarrow> j < i \<Longrightarrow> t j \<noteq> None"
  shows "lowest t = Some i"
proof -
  have "find (\<lambda>i. t i = None) (map int [0..<NFD]) = Some (map int [0..<NFD] ! nat i)"
    unfolding find_Some_iff using assms by (intro exI [of _ "nat i"]) (auto simp: NFD_def)
  then show ?thesis using assms(1,2) by (simp add: lowest_def NFD_def)
qed

definition three_fds :: "(int \<rightharpoonup> obj) \<Rightarrow> bool" where
  "three_fds t \<longleftrightarrow> dom t = {0, 1, 2}"

lemma three_fdsD:
  assumes "three_fds t"
  shows "t 0 \<noteq> None" "t 1 \<noteq> None" "t 2 \<noteq> None" "3 \<le> i \<Longrightarrow> t i = None"
proof -
  have d: "t i \<noteq> None \<longleftrightarrow> i \<in> {0, 1, 2}" for i using assms by (metis three_fds_def domIff)
  show "t 0 \<noteq> None" "t 1 \<noteq> None" "t 2 \<noteq> None" using d by simp_all
  show "t i = None" if "3 \<le> i" using d [of i] that by auto
qed

lemma runs_redir:
  assumes "three_fds t" "fd \<in> {0, 1}"
  shows "lowest (t(fd := None)) = Some fd" "three_fds (t(fd \<mapsto> x))"
proof -
  have d: "dom t = {0, 1, 2}" using assms(1) by (simp add: three_fds_def)
  have "t 0 \<noteq> None" using d by (metis domIff insertI1)
  then show "lowest (t(fd := None)) = Some fd" using assms(2) by (intro lowest_fd) (auto simp: order_le_less)
  show "three_fds (t(fd \<mapsto> x))" using d assms(2) by (auto simp: three_fds_def)
qed

lemma pipe_fds:
  assumes "three_fds t"
  shows "lowest t = Some 3" "lowest (t(3 \<mapsto> x)) = Some 4"
    "lowest (t(3 \<mapsto> x, 4 \<mapsto> y, 1 := None)) = Some 1" "lowest (t(3 \<mapsto> x, 4 \<mapsto> y, 0 := None)) = Some 0"
proof -
  note d = three_fdsD [OF assms]
  have low: "t j \<noteq> None" if "0 \<le> j" "j < 3" for j
  proof -
    have "j = 0 \<or> j = 1 \<or> j = 2" using that by arith
    then show ?thesis using d(1-3) by auto
  qed
  show "lowest t = Some 3" by (rule lowest_fd) (use low d(4) in auto)
  show "lowest (t(3 \<mapsto> x)) = Some 4" by (rule lowest_fd) (use low d(4) in auto)
  show "lowest (t(3 \<mapsto> x, 4 \<mapsto> y, 1 := None)) = Some 1" by (rule lowest_fd) (use low in auto)
  show "lowest (t(3 \<mapsto> x, 4 \<mapsto> y, 0 := None)) = Some 0" by (rule lowest_fd) auto
qed

lemma closed_ends:
  assumes "three_fds t"
  shows "t(1 \<mapsto> z, 3 := None, 4 := None) = t(1 \<mapsto> z)" "t(0 \<mapsto> z, 3 := None, 4 := None) = t(0 \<mapsto> z)"
  using three_fdsD(4) [OF assms] by (auto simp: fun_eq_iff)

lemma runcmd_intended: "three_fds t \<Longrightarrow> plain_redirs c \<Longrightarrow> runs (runcmd buf c) t n = intended buf c t n"
proof (induction c arbitrary: t n)
  case (EXEC as)
  then show ?case by (cases as) simp_all
next
  case (REDIR c f mode fd)
  then have fd: "fd \<in> {0, 1}" "plain_redirs c" by simp_all
  note r = runs_redir [OF REDIR.prems(1) fd(1)]
  have "runs (runcmd buf (REDIR c f mode fd)) t n = runs (runcmd buf c) (t(fd \<mapsto> File (str_at buf f) mode)) n"
    using fd(1) by (auto simp: r(1))
  also have "\<dots> = intended buf c (t(fd \<mapsto> File (str_at buf f) mode)) n" by (rule REDIR.IH [OF r(2) fd(2)])
  finally show ?case by simp
next
  case (PIPE l r)
  note p = pipe_fds [OF PIPE.prems(1)] closed_ends [OF PIPE.prems(1)]
  have l: "three_fds (t(1 \<mapsto> x))" "three_fds (t(0 \<mapsto> x))" for x using runs_redir(2) [OF PIPE.prems(1)] by simp_all
  have IHl: "runs (runcmd buf l) (t(1 \<mapsto> x)) k = intended buf l (t(1 \<mapsto> x)) k" for x k
    by (rule PIPE.IH(1) [OF l(1)]) (use PIPE.prems(2) in simp)
  have IHr: "runs (runcmd buf r) (t(0 \<mapsto> x)) k = intended buf r (t(0 \<mapsto> x)) k" for x k
    by (rule PIPE.IH(2) [OF l(2)]) (use PIPE.prems(2) in simp)
  show ?case by (simp add: p fork1_def IHl IHr case_prod_beta Let_def)
qed (simp_all add: fork1_def case_prod_beta Let_def)

lemma wf_plain: "wf_cmd str c \<Longrightarrow> plain_redirs c"
  by (induction str c rule: wf_cmd.induct) auto

text \<open>C37. The shell connects the commands of a line as the line says. From a table with the three standard
  descriptors, a line that parses is run so that each of its commands is executed once, in the order of the line, with its
  arguments, with standard output and input replaced by the ends of the pipes and by the files of its
  redirections, and with no other descriptor open; in particular no end of a pipe leaks into a command.\<close>
theorem run_line_connects:
  assumes "parsecmd l = Inr c" "three_fds t"
  shows "runs (run_line l) t n = intended (nulterminate c (l @ [0])) c t n"
  using assms runcmd_intended [OF assms(2) wf_plain [OF parsecmd_sound(2) [OF assms(1)]]] by (simp add: run_line_def)

definition std_fds :: "int \<rightharpoonup> obj" where
  "std_fds = [0 \<mapsto> Console, 1 \<mapsto> Console, 2 \<mapsto> Console]"

lemma pipe_line_parse: "parsecmd [97, 124, 98] = Inr (PIPE (EXEC [(0, 1)]) (EXEC [(2, 3)]))"
  by code_simp

theorem run_line_connects_witness:
  "runs (run_line [97, 124, 98]) std_fds 0
     = ([([[97]], std_fds(1 \<mapsto> PipeW 0)), ([[98]], std_fds(0 \<mapsto> PipeR 0))], 1)"
proof -
  have "three_fds std_fds" by (auto simp: three_fds_def std_fds_def)
  from run_line_connects [OF pipe_line_parse this, of 0] show ?thesis by (simp add: str_at_def)
qed

section \<open>The first program (\<open>init.c\<close>)\<close>

text \<open>
  \<open>init_wait\<close> is the loop that waits for the shell, over the process numbers that \<open>wait\<close> returns; \<open>init_loop\<close> the outer loop over
  \<open>n\<close> shells. Both go on as long as there are answers.
\<close>

fun init_wait :: "int \<Rightarrow> int list \<Rightarrow> uprog \<Rightarrow> uprog" where
  "init_wait pid [] k = UExit"
| "init_wait pid (w # ws) k =
     UWait (if 0 \<le> w \<and> w \<noteq> pid then USay 1 (chars ''zombie!'' @ [10]) [] (init_wait pid ws k) else k)"

fun init_loop :: "(int \<Rightarrow> int list) list \<Rightarrow> uprog" where
  "init_loop [] = UExit"
| "init_loop (ws # wss) =
     USay 1 (chars ''init: starting sh'' @ [10]) []
       (UFork (UExec (chars ''sh'') [chars ''sh''] (USay 1 (chars ''init: exec sh failed'' @ [10]) [] UExit))
         (\<lambda>pid. if pid < 0 then USay 1 (chars ''init: fork failed'' @ [10]) [] UExit
                else init_wait pid (ws pid) (init_loop wss)))"

definition init_main :: "(int \<Rightarrow> int list) list \<Rightarrow> uprog" where
  "init_main wss =
     (let rest = UDup 0 (UDup 0 (init_loop wss)) in
      UOpen (chars ''console'') O_RDWR (\<lambda>r.
        if r < 0 then UMknod (chars ''console'') 1 1 (UOpen (chars ''console'') O_RDWR (\<lambda>_. rest)) else rest))"

end
