(* ===== verification/Mkfs.thy ===== *)
theory Mkfs
  imports Ide
begin

text \<open>
  The program that builds the file system image (\<open>mkfs.c\<close>). The image is a map from sectors to their
  contents; a read behind its end ends the program with an error, as does a failed assertion
  (\<open>Panic\<close>). Other errors of the host's files are left out, and the host is little-endian. A file
  is given by its name and the pieces that \<open>read\<close> delivers.
\<close>

definition NINODES :: uint where "NINODES = 200"

record mkfs_state =
  image :: "uint \<rightharpoonup> uchar list"
  m_sb :: superblock
  freeinode :: uint
  freeblock :: uint

section \<open>Byte order and layout\<close>

definition xshort :: "ushort \<Rightarrow> ushort" where
  "xshort x = get16 (put16 [0, 0] 0 x) 0"

definition xint :: "uint \<Rightarrow> uint" where
  "xint x = get32 (put32 [0, 0, 0, 0] 0 x) 0"

lemma xint_id [simp]: "xint x = x" "xshort y = y"
  by (simp_all add: xint_def xshort_def get32_put32 get16_put16)

definition nbitmap :: uint where "nbitmap = FSSIZE div of_nat (BSIZE * 8) + 1"
definition ninodeblocks :: uint where "ninodeblocks = NINODES div IPB + 1"
definition nlog :: uint where "nlog = word_of_int LOGSIZE"
definition nmeta :: uint where "nmeta = 2 + nlog + ninodeblocks + nbitmap"
definition nblocks :: uint where "nblocks = FSSIZE - nmeta"

definition mkfs_sb :: superblock where
  "mkfs_sb = \<lparr>sb_size = xint FSSIZE, sb_nblocks = xint nblocks, sb_ninodes = xint NINODES, sb_nlog = xint nlog,
     sb_logstart = xint 2, sb_inodestart = xint (2 + nlog), sb_bmapstart = xint (2 + nlog + ninodeblocks)\<rparr>"

section \<open>Sectors and inodes\<close>

definition wsect :: "uint \<Rightarrow> uchar list \<Rightarrow> mkfs_state \<Rightarrow> mkfs_state" where
  "wsect sec buf m = m\<lparr>image := (image m)(sec \<mapsto> buf)\<rparr>"

definition rsect :: "uint \<Rightarrow> mkfs_state \<Rightarrow> uchar list result" where
  "rsect sec m = (case image m sec of Some buf \<Rightarrow> Inr buf | None \<Rightarrow> Inl (Panic ''read''))"

definition winode :: "uint \<Rightarrow> dinode \<Rightarrow> mkfs_state \<Rightarrow> mkfs_state result" where
  "winode inum ip m =
     (let bn = IBLOCK inum (m_sb m) in
      bnd (rsect bn m) (\<lambda>buf. Inr (wsect bn (put_dinode buf (dinode_off inum) ip) m)))"

definition rinode :: "uint \<Rightarrow> mkfs_state \<Rightarrow> dinode result" where
  "rinode inum m = bnd (rsect (IBLOCK inum (m_sb m)) m) (\<lambda>buf. Inr (dinode_at buf (dinode_off inum)))"

definition mkfs_ialloc :: "ushort \<Rightarrow> mkfs_state \<Rightarrow> (uint \<times> mkfs_state) result" where
  "mkfs_ialloc ty m =
     (let inum = freeinode m; m = m\<lparr>freeinode := freeinode m + 1\<rparr> in
      bnd (winode inum \<lparr>d_type = xshort ty, d_major = 0, d_minor = 0, d_nlink = xshort 1, d_size = xint 0,
             d_addrs = replicate (NDIRECT + 1) 0\<rparr> m) (\<lambda>m.
      Inr (inum, m)))"

text \<open>The bitmap of the blocks in use.\<close>

definition mkfs_balloc :: "nat \<Rightarrow> mkfs_state \<Rightarrow> mkfs_state result" where
  "mkfs_balloc used m =
     (if \<not> used < BSIZE * 8 then Inl (Panic ''used < BSIZE * 8'')
      else
        let buf = fold (\<lambda>i buf. buf[i div 8 := buf ! (i div 8) OR bit_mask i]) [0..<used] (replicate BSIZE 0) in
        Inr (wsect (sb_bmapstart (m_sb m)) buf m))"

section \<open>Appending to a file\<close>

text \<open>A block for the slot \<open>k\<close> of the inode, if it has none yet.\<close>

definition slot_block :: "nat \<Rightarrow> dinode \<Rightarrow> mkfs_state \<Rightarrow> dinode \<times> mkfs_state" where
  "slot_block k din m =
     (if xint (d_addrs din ! k) = 0
      then (din\<lparr>d_addrs := (d_addrs din)[k := xint (freeblock m)]\<rparr>, m\<lparr>freeblock := freeblock m + 1\<rparr>)
      else (din, m))"

text \<open>The block with number \<open>fbn\<close> of the file.\<close>

definition iappend_block :: "nat \<Rightarrow> dinode \<Rightarrow> mkfs_state \<Rightarrow> (uint \<times> dinode \<times> mkfs_state) result" where
  "iappend_block fbn din m =
     (if fbn < NDIRECT then
        let (din, m) = slot_block fbn din m in Inr (xint (d_addrs din ! fbn), din, m)
      else
        let (din, m) = slot_block NDIRECT din m; a = xint (d_addrs din ! NDIRECT); k = 4 * (fbn - NDIRECT) in
        bnd (rsect a m) (\<lambda>indirect.
        if get32 indirect k = 0 then
          let indirect = put32 indirect k (xint (freeblock m)); m = m\<lparr>freeblock := freeblock m + 1\<rparr> in
          Inr (xint (get32 indirect k), din, wsect a indirect m)
        else Inr (xint (get32 indirect k), din, m)))"

function iappend_loop :: "uchar list \<Rightarrow> nat \<Rightarrow> dinode \<Rightarrow> mkfs_state \<Rightarrow> (nat \<times> dinode \<times> mkfs_state) result" where
  "iappend_loop p off din m =
     (if p = [] then Inr (off, din, m)
      else
        let fbn = off div BSIZE; n1 = min (length p) ((fbn + 1) * BSIZE - off); pos = off - fbn * BSIZE in
        if \<not> fbn < MAXFILE then Inl (Panic ''fbn < MAXFILE'')
        else
          bnd (iappend_block fbn din m) (\<lambda>(x, din, m).
          bnd (rsect x m) (\<lambda>buf.
          iappend_loop (drop n1 p) (off + n1) din (wsect x (take pos buf @ take n1 p @ drop (pos + n1) buf) m))))"
  by pat_completeness auto
termination
proof (relation "measure (\<lambda>(p, off, din, m). length p)", goal_cases)
  case (2 p off)
  have "0 < length p" using 2 by simp
  moreover have "off < (off div BSIZE + 1) * BSIZE" by (simp add: BSIZE_def)
  ultimately show ?case using 2 by (simp add: BSIZE_def)
qed simp

declare iappend_loop.simps [simp del]

definition iappend :: "uint \<Rightarrow> uchar list \<Rightarrow> mkfs_state \<Rightarrow> mkfs_state result" where
  "iappend inum p m =
     bnd (rinode inum m) (\<lambda>din.
     bnd (iappend_loop p (unat (xint (d_size din))) din m) (\<lambda>(off, din, m).
     winode inum (din\<lparr>d_size := xint (of_nat off)\<rparr>) m))"

section \<open>The image\<close>

definition put_super :: "superblock \<Rightarrow> uchar list" where
  "put_super sb =
     (let b = replicate BSIZE 0; b = put32 b 0 (sb_size sb); b = put32 b 4 (sb_nblocks sb); b = put32 b 8 (sb_ninodes sb);
          b = put32 b 12 (sb_nlog sb); b = put32 b 16 (sb_logstart sb); b = put32 b 20 (sb_inodestart sb) in
      put32 b 24 (sb_bmapstart sb))"

definition mkfs_empty :: mkfs_state where
  "mkfs_empty = wsect 1 (put_super mkfs_sb)
     \<lparr>image = (\<lambda>i. if i < FSSIZE then Some (replicate BSIZE 0) else None), m_sb = mkfs_sb, freeinode = 1, freeblock = nmeta\<rparr>"

definition append_dirent :: "uint \<Rightarrow> uint \<Rightarrow> uchar list \<Rightarrow> mkfs_state \<Rightarrow> mkfs_state result" where
  "append_dirent rootino inum name m = iappend rootino (mk_dirent (xshort (ucast inum)) name) m"

definition mkfs_file :: "uint \<Rightarrow> uchar list \<times> uchar list list \<Rightarrow> mkfs_state \<Rightarrow> mkfs_state result" where
  "mkfs_file rootino f m =
     (let (name, pieces) = f in
      if 47 \<in> set name then Inl (Panic ''index(argv[i], slash) == 0'')
      else
        let name = (if name \<noteq> [] \<and> hd name = 95 then tl name else name) in
        bnd (mkfs_ialloc T_FILE m) (\<lambda>(inum, m).
        bnd (append_dirent rootino inum name m) (\<lambda>m.
        for_each (iappend inum) pieces m)))"

definition mkfs :: "(uchar list \<times> uchar list list) list \<Rightarrow> mkfs_state result" where
  "mkfs fs =
     bnd (mkfs_ialloc T_DIR mkfs_empty) (\<lambda>(rootino, m).
     if rootino \<noteq> ROOTINO then Inl (Panic ''rootino == ROOTINO'')
     else
       bnd (append_dirent rootino rootino [46] m) (\<lambda>m.
       bnd (append_dirent rootino rootino [46, 46] m) (\<lambda>m.
       bnd (for_each (mkfs_file rootino) fs m) (\<lambda>m.
       bnd (rinode rootino m) (\<lambda>din.
       let off = xint (d_size din) in
       bnd (winode rootino (din\<lparr>d_size := xint ((off div of_nat BSIZE + 1) * of_nat BSIZE)\<rparr>) m) (\<lambda>m.
       mkfs_balloc (unat (freeblock m)) m))))))"

section \<open>Properties\<close>

text \<open>
  The kernel reads the layout of the disk from the superblock as \<open>mkfs\<close> wrote it.
\<close>

lemma put_super_read: "superblock_of (put_super sb) = sb"
  by (simp add: superblock_of_def put_super_def Let_def block_simps BSIZE_def)

lemma mark_bits:
  "length buf = BSIZE \<Longrightarrow> used \<le> BSIZE * 8 \<Longrightarrow> i < BSIZE * 8 \<Longrightarrow>
   bit_set (fold (\<lambda>i buf. buf[i div 8 := buf ! (i div 8) OR bit_mask i]) [0..<used] buf) i \<longleftrightarrow> i < used \<or> bit_set buf i"
proof (induction used)
  case (Suc used)
  let ?b = "fold (\<lambda>i buf. buf[i div 8 := buf ! (i div 8) OR bit_mask i]) [0..<used] buf"
  have len: "length ?b = BSIZE" using Suc.prems(1) by (induction used) simp_all
  have IH: "bit_set ?b i \<longleftrightarrow> i < used \<or> bit_set buf i" using Suc by simp
  have u: "used div 8 < length ?b" using Suc.prems(2) len by (simp add: BSIZE_def)
  have bits: "bit (bit_mask k :: uchar) n \<longleftrightarrow> n = k mod 8" for k n
    by (auto simp: bit_mask_def bit_simps)
  have set: "bit_set d k \<longleftrightarrow> bit (d ! (k div 8)) (k mod 8)" for d k
    unfolding bit_set_def bit_eq_iff [of "d ! (k div 8) AND bit_mask k" 0] by (auto simp: bit_and_iff bits)
  have "k div 8 = used div 8 \<and> k mod 8 = used mod 8 \<longleftrightarrow> k = used" for k by (metis div_mult_mod_eq)
  then show ?case using IH u by (cases "i div 8 = used div 8") (auto simp: set bit_or_iff bits less_Suc_eq)
qed simp

text \<open>
  The bitmap \<open>mkfs\<close> writes marks exactly the blocks it has used, in the form in which the allocator of
  the kernel tests it, and \<open>mkfs\<close> stops when they do not fit into the one block it writes.
\<close>

theorem mkfs_bitmap:
  assumes "used < BSIZE * 8" "i < BSIZE * 8"
  shows "\<exists>m'. mkfs_balloc used m = Inr m' \<and> (\<exists>buf. image m' (sb_bmapstart (m_sb m)) = Some buf \<and> (bit_set buf i \<longleftrightarrow> i < used))"
proof -
  have "\<not> bit_set (replicate BSIZE 0) i" using assms(2) by (simp add: bit_set_def BSIZE_def)
  then show ?thesis using mark_bits [of "replicate BSIZE 0" used i] assms by (simp add: mkfs_balloc_def wsect_def)
qed

theorem mkfs_bitmap_witness:
  "\<exists>m'. mkfs_balloc 59 mkfs_empty = Inr m' \<and> (\<exists>buf. image m' (sb_bmapstart (m_sb mkfs_empty)) = Some buf \<and> (bit_set buf 58 \<longleftrightarrow> (58 :: nat) < 59))"
  by (rule mkfs_bitmap) (simp_all add: BSIZE_def)

section \<open>What is appended is in the file\<close>

text \<open>The bytes of a file that only uses direct blocks.\<close>

definition file_bytes :: "mkfs_state \<Rightarrow> dinode \<Rightarrow> nat \<Rightarrow> uchar list" where
  "file_bytes m din n = map (\<lambda>i. the (image m (d_addrs din ! (i div BSIZE))) ! (i mod BSIZE)) [0..<n]"

text \<open>The first \<open>n\<close> direct blocks of the inode are blocks of their own in the image, and there is room for the rest of them.\<close>

definition slots_ok :: "mkfs_state \<Rightarrow> dinode \<Rightarrow> nat \<Rightarrow> bool" where
  "slots_ok m din n \<longleftrightarrow> length (d_addrs din) = NDIRECT + 1 \<and> n \<le> NDIRECT
     \<and> (\<forall>k<n. d_addrs din ! k \<noteq> 0 \<and> d_addrs din ! k < freeblock m) \<and> (\<forall>k<NDIRECT. n \<le> k \<longrightarrow> d_addrs din ! k = 0)
     \<and> inj_on (\<lambda>k. d_addrs din ! k) {..<n} \<and> freeblock m \<noteq> 0 \<and> unat (freeblock m) + (NDIRECT - n) \<le> unat FSSIZE
     \<and> (\<forall>x<FSSIZE. \<exists>buf. image m x = Some buf \<and> length buf = BSIZE)"

definition blocks_of :: "nat \<Rightarrow> nat" where
  "blocks_of off = (off + BSIZE - 1) div BSIZE"

lemma slot_block_ok:
  assumes "slots_ok m din n" "k \<le> n" "k < NDIRECT"
  obtains din' m' where "slot_block k din m = (din', m')" "slots_ok m' din' (max n (k + 1))" "image m' = image m"
    "\<And>j. j < n \<Longrightarrow> d_addrs din' ! j = d_addrs din ! j"
proof (cases "k < n")
  case True
  then have "slot_block k din m = (din, m)" "max n (k + 1) = n" using assms(1) by (auto simp: slot_block_def slots_ok_def)
  with assms(1) show ?thesis by (intro that [of din m]) simp_all
next
  case False
  then have k: "k = n" using assms(2) by simp
  let ?f = "freeblock m"
  let ?d = "din\<lparr>d_addrs := (d_addrs din)[n := ?f]\<rparr>" and ?m = "m\<lparr>freeblock := ?f + 1\<rparr>"
  have s: "length (d_addrs din) = NDIRECT + 1" "\<And>j. j < n \<Longrightarrow> d_addrs din ! j \<noteq> 0 \<and> d_addrs din ! j < ?f" "d_addrs din ! n = 0"
    "inj_on (\<lambda>k. d_addrs din ! k) {..<n}" "?f \<noteq> 0" "unat ?f + (NDIRECT - n) \<le> unat FSSIZE" "n < NDIRECT"
    "\<And>j. j < NDIRECT \<Longrightarrow> n \<le> j \<Longrightarrow> d_addrs din ! j = 0" "\<forall>x<FSSIZE. \<exists>buf. image m x = Some buf \<and> length buf = BSIZE"
    using assms k by (simp_all add: slots_ok_def)
  have f: "unat (?f + 1) = unat ?f + 1" by (rule unat_plus_one) (use s(6,7) in \<open>auto simp: FSSIZE_def\<close>)
  then have lt: "?f < ?f + 1" by (simp add: word_less_nat_alt)
  have ne: "(d_addrs din)[n := ?f] ! j \<noteq> ?f" if "j < n" for j using s(2) [OF that] that by auto
  have "inj_on (\<lambda>k. (d_addrs din)[n := ?f] ! k) {..<n} = inj_on (\<lambda>k. d_addrs din ! k) {..<n}"
    by (rule inj_on_cong) simp
  moreover have "(d_addrs din)[n := ?f] ! n = ?f" using s(1,7) by simp
  moreover have "?f \<notin> (\<lambda>k. (d_addrs din)[n := ?f] ! k) ` {..<n}"
  proof
    assume "?f \<in> (\<lambda>k. (d_addrs din)[n := ?f] ! k) ` {..<n}"
    then obtain j where "j < n" "?f = (d_addrs din)[n := ?f] ! j" by blast
    with ne show False by metis
  qed
  ultimately have "inj_on (\<lambda>k. (d_addrs din)[n := ?f] ! k) {..<n + 1}"
    using s(4) by (simp add: lessThan_Suc)
  moreover have "?f + 1 \<noteq> 0" using f by auto
  moreover have "\<forall>j<n + 1. (d_addrs din)[n := ?f] ! j \<noteq> 0 \<and> (d_addrs din)[n := ?f] ! j < ?f + 1"
    using s(1,2,5,7) lt by (auto simp: nth_list_update less_Suc_eq intro: order.strict_trans)
  ultimately have "slots_ok ?m ?d (n + 1)"
    using s(1,6-9) f by (auto simp: slots_ok_def)
  moreover have "slot_block k din m = (?d, ?m)" using s(3) k by (simp add: slot_block_def)
  ultimately show ?thesis using k by (intro that [of ?d ?m]) simp_all
qed

lemma in_block:
  assumes "f * BSIZE \<le> i" "i < (f + 1) * BSIZE"
  shows "i div BSIZE = f" "i mod BSIZE = i - f * BSIZE"
proof -
  show "i div BSIZE = f" using assms by (intro div_nat_eqI) (simp_all add: algebra_simps)
  then show "i mod BSIZE = i - f * BSIZE" by (simp add: minus_div_mult_eq_mod [symmetric])
qed

lemma blocks_of_range:
  assumes "f * BSIZE \<le> off" "off + n \<le> (f + 1) * BSIZE"
  shows "f \<le> blocks_of (off + n)" "blocks_of (off + n) \<le> f + 1" "0 < n \<Longrightarrow> blocks_of (off + n) = f + 1"
proof -
  have "f * BSIZE div BSIZE \<le> (off + n + BSIZE - 1) div BSIZE" by (rule div_le_mono) (use assms(1) in \<open>simp add: BSIZE_def\<close>)
  then show "f \<le> blocks_of (off + n)" by (simp add: blocks_of_def BSIZE_def)
  have "(off + n + BSIZE - 1) div BSIZE < f + 2"
    by (rule div_less_iff_less_mult [THEN iffD2]) (use assms(2) in \<open>simp_all add: BSIZE_def\<close>)
  then show up: "blocks_of (off + n) \<le> f + 1" by (simp add: blocks_of_def)
  show "blocks_of (off + n) = f + 1" if "0 < n"
  proof -
    have "(f + 1) * BSIZE div BSIZE \<le> (off + n + BSIZE - 1) div BSIZE" by (rule div_le_mono) (use assms(1) that in \<open>simp add: BSIZE_def\<close>)
    then show ?thesis using up by (simp add: blocks_of_def BSIZE_def)
  qed
qed

lemma write_block_bytes:
  assumes "slots_ok m din (f + 1)" "f = off div BSIZE" "n1 \<le> length p" "off + n1 \<le> (f + 1) * BSIZE"
    and "image m (d_addrs din ! f) = Some buf" "length buf = BSIZE"
  defines "pos \<equiv> off - f * BSIZE"
  shows "file_bytes (wsect (d_addrs din ! f) (take pos buf @ take n1 p @ drop (pos + n1) buf) m) din (off + n1)
    = file_bytes m din off @ take n1 p" (is "?l = ?r")
proof (rule nth_equalityI)
  show "length ?l = length ?r" using assms(3) by (simp add: file_bytes_def)
  fix i
  assume "i < length ?l"
  then have i: "i < off + n1" by (simp add: file_bytes_def)
  have f: "f * BSIZE \<le> off" unfolding assms(2) by simp
  let ?new = "take pos buf @ take n1 p @ drop (pos + n1) buf"
  have l: "?l ! i = the (((image m)(d_addrs din ! f \<mapsto> ?new)) (d_addrs din ! (i div BSIZE))) ! (i mod BSIZE)"
    using i by (simp add: file_bytes_def wsect_def)
  show "?l ! i = ?r ! i"
  proof (cases "i div BSIZE = f")
    case True
    have b: "f * BSIZE \<le> i" "i < (f + 1) * BSIZE" unfolding True [symmetric] by (simp_all add: BSIZE_def)
    have m: "i mod BSIZE = i - f * BSIZE" by (rule in_block(2) [OF b])
    show ?thesis
    proof (cases "i < off")
      case low: True
      then have "i - f * BSIZE < pos" "pos \<le> length buf" using b f assms(4,6) by (auto simp: pos_def)
      then show ?thesis using l low True m assms(5) by (simp add: file_bytes_def nth_append)
    next
      case False
      define k where "k = i - off"
      have k: "i = off + k" "k < n1" using False i by (auto simp: k_def)
      have im: "i mod BSIZE = pos + k" and pos: "pos \<le> length buf" using m k b f assms(4,6) by (auto simp: pos_def)
      have "?new ! (pos + k) = p ! k" using k(2) assms(3) pos by (simp add: nth_append)
      moreover have "?l ! i = ?new ! (pos + k)" unfolding l True im by simp
      moreover have "?r ! i = p ! k" using k assms(3) by (simp add: file_bytes_def nth_append)
      ultimately show ?thesis by simp
    qed
  next
    case False
    have "i < off" using in_block(1) [of f i] f i assms(4) False by (cases "i < off") auto
    moreover have "i div BSIZE < f" using \<open>i < off\<close> False assms(2) div_le_mono [of i off BSIZE] by simp
    then have "d_addrs din ! (i div BSIZE) \<noteq> d_addrs din ! f" using assms(1) by (auto simp: slots_ok_def inj_on_def)
    ultimately show ?thesis using l by (simp add: file_bytes_def nth_append)
  qed
qed

lemma iappend_loop_bytes:
  "slots_ok m din (blocks_of off) \<Longrightarrow> off + length p \<le> NDIRECT * BSIZE \<Longrightarrow>
   \<exists>din' m'. iappend_loop p off din m = Inr (off + length p, din', m') \<and> slots_ok m' din' (blocks_of (off + length p))
     \<and> file_bytes m' din' (off + length p) = file_bytes m din off @ p"
proof (induction "length p" arbitrary: p off din m rule: less_induct)
  case less
  show ?case
  proof (cases "p = []")
    case True
    then show ?thesis using less.prems by (simp add: iappend_loop.simps [of "[]"])
  next
    case False
    define f where "f = off div BSIZE"
    define n1 where "n1 = min (length p) ((f + 1) * BSIZE - off)"
    have p: "0 < length p" using False by simp
    have o: "f * BSIZE \<le> off" "off < (f + 1) * BSIZE" by (simp_all add: f_def BSIZE_def)
    then have f: "f < NDIRECT" using less.prems(2) p unfolding NDIRECT_def BSIZE_def by linarith
    have n1: "0 < n1" "n1 \<le> length p" "off + n1 \<le> (f + 1) * BSIZE" using o p by (auto simp: n1_def)
    have nb: "f \<le> blocks_of off" "max (blocks_of off) (f + 1) = f + 1" "blocks_of (off + n1) = f + 1"
      using blocks_of_range [OF o(1), of 0] blocks_of_range [OF o(1) n1(3)] o(2) n1(1) by (auto simp: max_def)
    obtain d1 m1 where s: "slot_block f din m = (d1, m1)" "slots_ok m1 d1 (f + 1)" "image m1 = image m"
      "\<And>j. j < blocks_of off \<Longrightarrow> d_addrs d1 ! j = d_addrs din ! j"
      using slot_block_ok [OF less.prems(1) nb(1) f] nb(2) by metis
    have x: "d_addrs d1 ! f < freeblock m1" "freeblock m1 \<le> FSSIZE" using s(2) by (simp_all add: slots_ok_def word_le_nat_alt)
    then obtain buf where buf: "image m1 (d_addrs d1 ! f) = Some buf" "length buf = BSIZE"
      using s(2) order_less_le_trans [OF x] by (auto simp: slots_ok_def)
    let ?m2 = "wsect (d_addrs d1 ! f) (take (off - f * BSIZE) buf @ take n1 p @ drop (off - f * BSIZE + n1) buf) m1"
    have old: "file_bytes m1 d1 off = file_bytes m din off"
      using s(3,4) by (auto simp: file_bytes_def blocks_of_def BSIZE_def)
    have b2: "file_bytes ?m2 d1 (off + n1) = file_bytes m din off @ take n1 p"
      using write_block_bytes [OF s(2) f_def n1(2,3) buf] old by simp
    have s2: "slots_ok ?m2 d1 (blocks_of (off + n1))"
      using s(2) buf n1 o nb(3) by (auto simp: slots_ok_def wsect_def BSIZE_def)
    have step: "iappend_loop p off din m = iappend_loop (drop n1 p) (off + n1) d1 ?m2"
      using False f s(1) buf(1)
      by (simp add: iappend_loop.simps [of p] iappend_block_def rsect_def Let_def f_def [symmetric] n1_def MAXFILE_def)
    have short: "length (drop n1 p) < length p" using n1(1) p by simp
    have sum: "off + n1 + length (drop n1 p) = off + length p" using n1(2) by simp
    have all: "file_bytes ?m2 d1 (off + n1) @ drop n1 p = file_bytes m din off @ p" unfolding b2 by simp
    show ?thesis unfolding step using less.hyps [OF short s2, unfolded sum all, OF less.prems(2)] .
  qed
qed

text \<open>C38.
  Bytes appended to a file are behind those it had, in as many pieces as the blocks demand, and every
  block of the file stays its own, as long as the file needs no indirect block.
\<close>

theorem iappend_roundtrip:
  assumes "slots_ok m din (blocks_of off)" "off + length p \<le> NDIRECT * BSIZE"
  shows "\<exists>din' m'. iappend_loop p off din m = Inr (off + length p, din', m') \<and> slots_ok m' din' (blocks_of (off + length p))
    \<and> file_bytes m' din' (off + length p) = file_bytes m din off @ p"
  by (rule iappend_loop_bytes [OF assms])

theorem iappend_roundtrip_witness:
  "\<exists>din' m'. iappend_loop (replicate 600 7) 0 \<lparr>d_type = T_FILE, d_major = 0, d_minor = 0, d_nlink = 1, d_size = 0, d_addrs = replicate 13 0\<rparr> mkfs_empty
      = Inr (600, din', m') \<and> file_bytes m' din' 600 = replicate 600 7"
proof -
  let ?d = "\<lparr>d_type = T_FILE, d_major = 0, d_minor = 0, d_nlink = 1, d_size = 0, d_addrs = replicate 13 0\<rparr>"
  have nm: "nmeta = 59"
    by (simp add: nmeta_def nlog_def ninodeblocks_def nbitmap_def LOGSIZE_def MAXOPBLOCKS_def NINODES_def IPB_def FSSIZE_def BSIZE_def)
  have "slots_ok mkfs_empty ?d (blocks_of 0)"
    by (auto simp: nm slots_ok_def blocks_of_def BSIZE_def NDIRECT_def FSSIZE_def mkfs_empty_def wsect_def put_super_def Let_def)
  from iappend_roundtrip [OF this, of "replicate 600 7"] show ?thesis by (auto simp: NDIRECT_def BSIZE_def file_bytes_def)
qed

end
