(* ===== verification/Spec2Isabelle.thy ===== *)
theory Spec2Isabelle
  imports Pagetable Shmpages Boot Debug Crash Ls Shrun Mkfs
begin

text \<open>
  \<^bold>\<open>A verification of the xv6 kernel with priority scheduling, mutexes and shared memory.\<close>

  The repository is an xv6 kernel for the x86 in C. To the original it adds an O(1) scheduler
  with twenty priority queues, mutexes and condition variables as system calls, a call to set
  priorities, and shared memory pages. This development models the kernel from its locks up to
  its system calls as functions on an explicit state, and proves what the parts promise each
  other, or that they do not.

  \<^bold>\<open>Conventions.\<close> The state is one record, extended by each component with the fields it
  owns: \<open>machine\<close> (\<open>Spinlock\<close>), \<open>kmem_state\<close> (\<open>Kalloc\<close>), \<open>vm_state\<close> (\<open>Vm\<close>), \<open>proc_state\<close>
  (\<open>Proc\<close>), \<open>sync_state\<close> (\<open>Sync\<close>), \<open>bio_state\<close> (\<open>Bio\<close>), \<open>log_state\<close> (\<open>Log\<close>), \<open>fs_state\<close> (\<open>Fs\<close>),
  \<open>pipe_state\<close> (\<open>Pipe\<close>), \<open>file_state\<close> (\<open>File\<close>), \<open>shm_state\<close> (\<open>Shm\<close>), \<open>life_state\<close> (\<open>Proclife\<close>),
  \<open>io_state\<close> (\<open>Ide\<close>), \<open>con_state\<close> (\<open>Console\<close>), \<open>kbd_state\<close> (\<open>Kbd\<close>), \<open>trap_state\<close> (\<open>Trap\<close>),
  \<open>mp_state\<close> (\<open>Mp\<close>).
  A routine takes the state and returns \<open>Inr\<close> with its result and the new state, or \<open>Inl\<close> with
  the reason it does not return: \<open>Panic\<close> with the message of the kernel's panic; \<open>Fault\<close> for an
  index out of bounds or an invalid pointer, null pointers included; \<open>Spin\<close> for a lock another
  CPU holds or a loop that does not end; \<open>Parked\<close> for a thread that is not resumed within the
  run. \<open>bnd\<close> of \<open>Prelude\<close> sequences routines. Machine integers are words of their width; C
  \<open>int\<close> values that only count are mathematical integers.

  \<^bold>\<open>Other threads.\<close> A routine that blocks calls the scheduler; what the rest of the system
  does to the state until the thread is resumed is the parameter \<open>others\<close>, any function on
  states. The field \<open>switches\<close> bounds how often the thread is resumed; every loop that waits
  uses up a switch per round, which is why it terminates, and a run that needs more of them is
  \<open>Parked\<close>. Routines above the buffer cache take an environment \<open>env\<close> with \<open>others\<close>, the disk
  driver, which the build links in (\<open>ide.c\<close> or \<open>memide.c\<close>), and the table \<open>devsw\<close> of character
  devices. What the routines below \<open>Console\<close> print by \<open>cprintf\<close> is left out.

  \<^bold>\<open>The theories.\<close>
  \<^item> \<open>Prelude\<close>: sequencing, loops over index ranges, arrays used as shifting queues.
  \<^item> \<open>Spinlock\<close> (\<open>spinlock.c\<close>, \<open>mycpu\<close> and \<open>myproc\<close> of \<open>proc.c\<close>): locks and nested critical
    sections; the race of several CPUs on \<open>xchg\<close> as a step relation with mutual exclusion.
  \<^item> \<open>Memory\<close> (\<open>string.c\<close>): byte memory and the string routines.
  \<^item> \<open>Kalloc\<close> (\<open>kalloc.c\<close>): the free list of pages, kept in the pages; the locale \<open>allocator\<close>
    states what its clients rely on.
  \<^item> \<open>Vm\<close> (\<open>vm.c\<close>): page tables in byte memory, growing, copying and freeing address spaces.
  \<^item> \<open>Pagetable\<close>: what the tables in memory mean. \<open>ent\<close> reads the entry of an address; \<open>mappages\<close> changes exactly
    the entries of its range, \<open>setupkvm\<close> gives the kernel half, \<open>allocuvm\<close> zeroed pages and \<open>copyuvm\<close> a private copy of the
    user half.
  \<^item> \<open>Ring_Queues\<close>: the locales \<open>fifo\<close> and \<open>bounded_fifo\<close>, interpreted on a level of the run
    queues (\<open>Proc\<close>) and the wait queues of mutexes (\<open>Sync\<close>).
  \<^item> \<open>Proc\<close> (\<open>proc.c\<close>): the priority queues, \<open>scheduler\<close>, \<open>sched\<close>, \<open>yield\<close>, \<open>sleep\<close>, \<open>wakeup\<close>, \<open>kill\<close>.
    Its invariant \<open>sched_inv\<close> is that the queues hold each \<open>RUNNABLE\<close> process exactly once; the queues
    refine one list per level. The first pass of the scheduler breaks the invariant.
  \<^item> \<open>Syscall_Args\<close> (\<open>syscall.c\<close>): user memory through the page tables and argument fetching.
  \<^item> \<open>Sync\<close> (\<open>sysproc.c\<close>): mutexes, condition variables, \<open>prio_set\<close>, \<open>sleep\<close>, \<open>sbrk\<close>, \<open>kill\<close>.
    The lemmas give the order of hand-over and four defects, and show that \<open>allocproc\<close>, \<open>wakeup\<close>, \<open>kill\<close>, \<open>yield\<close>,
    \<open>sleep\<close>, \<open>munlock\<close>, \<open>signalcv\<close>, \<open>prio_set\<close> and the later passes of the scheduler keep \<open>sched_inv\<close>, as long as
    the waiters that are woken sleep and no priority is negative. That \<open>fork\<close>, \<open>wait\<close>, \<open>mlock\<close> and \<open>waitcv\<close> keep it is
    not shown.
  \<^item> \<open>Blocks\<close>: numbers in the bytes of a block. \<open>Bio\<close> (\<open>sleeplock.c\<close>, \<open>bio.c\<close>, \<open>memide.c\<close>): sleep locks,
    the buffer cache, the in-memory disk. \<open>Log\<close> (\<open>log.c\<close>): transactions, commit, recovery; the space
    \<open>begin_op\<close> reserves is enough in a log larger than \<open>LOGSIZE\<close> blocks, but not in one of the size \<open>mkfs\<close> gives it.
  \<^item> \<open>Bcache\<close>, \<open>Crash\<close>: what the buffer cache promises its clients (the list stays a ring, no block is cached
    twice, a clean buffer agrees with the disk), and from it that a commit is atomic. The state
    is extended with the history of the disk (\<open>hist_state\<close>), which no routine reads; \<open>crashed\<close> are the disks
    a machine can leave that stops anywhere in a commit or in a recovery.
  \<^item> \<open>Fs\<close> (\<open>fs.c\<close>): the block bitmap, inodes, file contents, directories, paths. \<open>Pipe\<close> (\<open>pipe.c\<close>),
    \<open>File\<close> (\<open>file.c\<close>), \<open>Sysfile\<close> (\<open>sysfile.c\<close>): pipes, which never hold more than 512 bytes, open files and the
    file system calls.
  \<^item> \<open>Shm\<close> (\<open>vm.c\<close>, \<open>shm.h\<close>): shared pages. \<open>Shmpages\<close>: the first \<open>shmget\<close> of a name maps a new page but
    writes past the end of the process's table, into the next slot. \<open>Proclife\<close> (\<open>proc.c\<close>): \<open>userinit\<close>, \<open>fork\<close>, \<open>exit\<close>, \<open>wait\<close>.
    \<open>Exec\<close> (\<open>exec.c\<close>, \<open>loaduvm\<close>): program loading.
  \<^item> \<open>Ide\<close> (\<open>ide.c\<close>, the port instructions of \<open>x86.h\<close>): the disk driver over a device that answers
    each read of a port. \<open>Console\<close> (\<open>console.c\<close>, \<open>uart.c\<close>): formatted output, the screen and the
    line-edited input. \<open>Kbd\<close> (\<open>kbd.c\<close>, \<open>kbd.h\<close>): scan codes. \<open>Debug\<close>: the recorded call
    stack and the listing of processes.
  \<^item> \<open>Trap\<close> (\<open>trap.c\<close>, \<open>syscall.c\<close>): the descriptor table, the trap handler and the dispatch of system
    calls, in which the parts above meet; no killed process gets back to user mode.
  \<^item> \<open>Mp\<close> (\<open>mp.c\<close>, \<open>lapic.c\<close>, \<open>ioapic.c\<close>, \<open>picirq.c\<close>, \<open>main.c\<close>): the search for the other processors, the interrupt
    controllers and the clock over devices that answer each read, and the sequence of initialisations up to the
    scheduler. \<open>Boot\<close> (\<open>bootmain.c\<close>): the loader that reads the kernel from the disk.
  \<^item> \<open>Ulib\<close> (\<open>ulib.c\<close>, \<open>printf.c\<close>, \<open>umalloc.c\<close>): the library of user programs, over the memory of a process
    and with system calls as parameters; the allocator takes the first block that fits.
  \<^item> \<open>Programs\<close> (\<open>cat.c\<close>, \<open>wc.c\<close>, \<open>echo.c\<close>, \<open>kill.c\<close>, \<open>ln.c\<close>, \<open>mkdir.c\<close>, \<open>rm.c\<close>, \<open>grep.c\<close>), \<open>Ls\<close> (\<open>ls.c\<close>): small
    programs over system calls as parameters; the matcher of \<open>grep\<close> decides the meaning of its patterns. \<open>Sh\<close> (\<open>sh.c\<close>): the
    parser of the shell, which ends on every line and returns well-formed commands. \<open>Shrun\<close> (\<open>sh.c\<close>, \<open>init.c\<close>): the programs that
    start others, as trees of system calls; the shell gives each command the descriptors its line asks for. \<open>Mkfs\<close> (\<open>mkfs.c\<close>): the program
    that builds the disk image, in the format \<open>Fs\<close> reads; what it appends to a file is there.

  \<^bold>\<open>Fuel.\<close> \<open>mappages_loop\<close> counts the pages of the range exactly. \<open>scan_bufs\<close> follows at most
  \<open>NBUF + 1\<close> links, the number of nodes of the buffer list. \<open>ancestor_walk\<close> takes \<open>NPROC + 1\<close>
  steps, which is proved enough on a tree of processes. The depth of the shell's parser is at most four times
  the length of the line, proved enough for every line. The fuel of \<open>consoleintr\<close> is the number of
  characters the device delivers in one interrupt, which has no bound in the code. The shell opens the console at most four
  times, since each call returns another descriptor. Loops over addresses or file offsets
  end in \<open>Spin\<close> where the C loop would wrap around the address space for ever.

  The loop over the firmware's table, \<open>mpinit_loop\<close>, has no fuel: it is a partial function, and \<open>None\<close> is its value
  where it does not end.

  \<^bold>\<open>Simplifications.\<close> The structures in a page that the kernel allocates for a pipe are kept as
  records, not as bytes of the page. Path names and argument strings are read from user memory
  when the system call fetches them. A dereference of a null pointer is a fault, although page 0
  of a process is mapped and the machine would go on with its contents. The store of \<open>shmget\<close> past the end of
  \<open>shmpgs\<close> goes to the field of the next slot that is there, but to a pointer or an enumerator it is a fault.

  \<^bold>\<open>Not modelled.\<close> Assembly code: the boot sector and the entry code, the register moves of \<open>swtch.S\<close> and of the trap
  entry, the system call stubs. The acknowledgement of interrupts inside \<open>trap\<close> (\<open>lapiceoi\<close> itself is modelled), the call stack that \<open>acquire\<close> keeps
  in a lock, and the call of \<open>procdump\<close> from the console. Test
  programs (\<open>usertests.c\<close>, \<open>tester.c\<close> and others), which only exercise the system calls.
\<close>

end
